(* ===== verification/Prelude.thy ===== *)
theory Prelude
  imports Main "HOL-Library.Word" "HOL-Library.Multiset" "HOL-Library.Monad_Syntax"
begin

text \<open>
  Shared vocabulary of the development.

  \<^item> Bytes are \<^typ>\<open>char\<close>s (eight bits each), so that Go string literals are HOL string literals.
  \<^item> A Go \<open>int\<close> is a 64-bit two's complement number.  It is represented by an \<^typ>\<open>int\<close> and every
    addition, subtraction and multiplication whose operands are not bounded by the program is
    wrapped by \<open>gint\<close>; \<open>int64\<close> says that a number is representable.
  \<^item> A Go function that may panic (or loop forever) returns an option: \<^const>\<open>None\<close> stands for \<^emph>\<open>does not
    return\<close>.  Theorems of the form \<open>\<exists>y. f x = Some y\<close> therefore state the absence of panics.
  \<^item> A Go \<open>error\<close> result is a \<open>go_error option\<close>, where \<^const>\<open>None\<close> is \<open>nil\<close>.
\<close>

section \<open>Collections of facts\<close>

named_theorems gint_simps \<open>removing the 64-bit wrap-around from values known to be in range\<close>
named_theorems safe_intros \<open>every operation preserves the memory-safety invariant\<close>
named_theorems total_intros \<open>operations that always return\<close>

section \<open>Machine integers\<close>

type_synonym byte = char

definition int64 :: "int \<Rightarrow> bool" where
  "int64 x \<longleftrightarrow> - 9223372036854775808 \<le> x \<and> x < 9223372036854775808"

definition gint :: "int \<Rightarrow> int" where
  "gint x = (x + 9223372036854775808) mod 18446744073709551616 - 9223372036854775808"

lemma gint_id [gint_simps]: "int64 x \<Longrightarrow> gint x = x"
  by (simp add: gint_def int64_def)

lemma int64_gint [simp]: "int64 (gint x)"
proof -
  have "0 \<le> (x + 9223372036854775808) mod 18446744073709551616"
    and "(x + 9223372036854775808) mod 18446744073709551616 < 18446744073709551616"
    by simp_all
  then show ?thesis unfolding gint_def int64_def by linarith
qed

lemma gint_idem [simp]: "gint (gint x) = gint x"
  by (simp add: gint_id)

lemma int64_0 [simp]: "int64 0" and int64_1 [simp]: "int64 1"
  by (simp_all add: int64_def)

lemma gint_0 [simp]: "gint 0 = 0"
  by (simp add: gint_id)

lemma int64I: "\<lbrakk> - 9223372036854775808 \<le> x; x < 9223372036854775808 \<rbrakk> \<Longrightarrow> int64 x"
  by (simp add: int64_def)

text \<open>The one overflow that matters for bounds checks: a sum that leaves the range at the top
  comes back negative.\<close>

lemma gint_overflow_neg:
  assumes "9223372036854775808 \<le> x" and "x < 18446744073709551616"
  shows "gint x = x - 18446744073709551616"
proof -
  have "(x + 9223372036854775808) mod 18446744073709551616 = x - 9223372036854775808"
  proof (rule mod_pos_pos_trivial [of "x - 9223372036854775808" 18446744073709551616,
        THEN trans [rotated], symmetric, THEN sym])
    show "(x + 9223372036854775808) mod 18446744073709551616 =
        (x - 9223372036854775808) mod 18446744073709551616"
      by (simp add: mod_eq_dvd_iff)
  qed (use assms in linarith)+
  then show ?thesis unfolding gint_def by linarith
qed

text \<open>Wrapping commutes with the ring operations.\<close>

lemma gint_eq_iff: "gint x = gint y \<longleftrightarrow> x mod 18446744073709551616 = y mod 18446744073709551616"
  unfolding gint_def by (simp add: mod_eq_dvd_iff)

lemma gint_mod [simp]: "gint x mod 18446744073709551616 = x mod 18446744073709551616"
proof -
  have "gint x mod 18446744073709551616 =
      ((x + 9223372036854775808) - 9223372036854775808) mod 18446744073709551616"
    unfolding gint_def by (rule mod_diff_left_eq)
  then show ?thesis by simp
qed

lemma gint_add_left [simp]: "gint (gint x + y) = gint (x + y)"
  unfolding gint_eq_iff by (metis gint_mod mod_add_left_eq)

lemma gint_add_right [simp]: "gint (x + gint y) = gint (x + y)"
  unfolding gint_eq_iff by (metis gint_mod mod_add_right_eq)

lemma gint_diff_left [simp]: "gint (gint x - y) = gint (x - y)"
  unfolding gint_eq_iff by (metis gint_mod mod_diff_left_eq)

lemma gint_diff_right [simp]: "gint (x - gint y) = gint (x - y)"
  unfolding gint_eq_iff by (metis gint_mod mod_diff_right_eq)

lemma gint_le_pos:
  assumes "0 \<le> x" and "x < 18446744073709551616"
  shows "gint x \<le> x"
  using assms gint_overflow_neg [of x] gint_id [of x] by (fastforce simp: int64_def)

section \<open>Slices\<close>

text \<open>\<open>xs[:n]\<close> and \<open>xs[n:]\<close>: a bound outside the slice panics.\<close>

definition slice_to :: "int \<Rightarrow> 'a list \<Rightarrow> 'a list option" where
  "slice_to n xs = (if 0 \<le> n \<and> n \<le> int (length xs) then Some (take (nat n) xs) else None)"

definition slice_from :: "int \<Rightarrow> 'a list \<Rightarrow> 'a list option" where
  "slice_from n xs = (if 0 \<le> n \<and> n \<le> int (length xs) then Some (drop (nat n) xs) else None)"

text \<open>\<open>xs[i]\<close>: an index outside the slice panics.\<close>

definition index_at :: "'a list \<Rightarrow> int \<Rightarrow> 'a option" where
  "index_at xs i = (if 0 \<le> i \<and> i < int (length xs) then Some (xs ! nat i) else None)"

lemma slice_to_Some [simp]:
  "\<lbrakk> 0 \<le> n; n \<le> int (length xs) \<rbrakk> \<Longrightarrow> slice_to n xs = Some (take (nat n) xs)"
  by (simp add: slice_to_def)

lemma slice_from_Some [simp]:
  "\<lbrakk> 0 \<le> n; n \<le> int (length xs) \<rbrakk> \<Longrightarrow> slice_from n xs = Some (drop (nat n) xs)"
  by (simp add: slice_from_def)

lemma index_at_Some [simp]:
  "\<lbrakk> 0 \<le> i; i < int (length xs) \<rbrakk> \<Longrightarrow> index_at xs i = Some (xs ! nat i)"
  by (simp add: index_at_def)

section \<open>The error values of the program\<close>

datatype go_error =
    ErrShortRead
  | ErrLostData int
  | ErrShortWrite
  | ErrUnexpectedEOF
  | EOF
  | ErrProtocolDesync
  | ErrSyntax
  | ErrRange

section \<open>Lists\<close>

lemma sum_list_nonneg_int: "(\<And>x. x \<in> set xs \<Longrightarrow> 0 \<le> f x) \<Longrightarrow> 0 \<le> (\<Sum>x\<leftarrow>xs. f x :: int)"
  by (rule sum_list_nonneg) auto

lemma sum_list_take_le:
  assumes "\<And>x. x \<in> set xs \<Longrightarrow> 0 \<le> f x"
  shows "(\<Sum>x\<leftarrow>take k xs. f x :: int) \<le> (\<Sum>x\<leftarrow>xs. f x)"
proof -
  have "(\<Sum>x\<leftarrow>xs. f x) = (\<Sum>x\<leftarrow>take k xs. f x) + (\<Sum>x\<leftarrow>drop k xs. f x)"
    by (metis append_take_drop_id map_append sum_list_append)
  moreover have "0 \<le> (\<Sum>x\<leftarrow>drop k xs. f x)"
    using assms by (intro sum_list_nonneg_int) (meson in_set_dropD)
  ultimately show ?thesis by linarith
qed

text \<open>The first index that satisfies a predicate.\<close>

fun find_index :: "('a \<Rightarrow> bool) \<Rightarrow> 'a list \<Rightarrow> nat option" where
  "find_index P [] = None"
| "find_index P (x # xs) = (if P x then Some 0 else map_option Suc (find_index P xs))"

lemma find_index_Some:
  "find_index P xs = Some i \<Longrightarrow> i < length xs \<and> P (xs ! i) \<and> (\<forall>j<i. \<not> P (xs ! j))"
proof (induction xs arbitrary: i)
  case (Cons x xs)
  then show ?case by (cases i) (auto split: if_splits simp: nth_Cons less_Suc_eq_0_disj)
qed simp

lemma find_index_None: "find_index P xs = None \<longleftrightarrow> (\<forall>x\<in>set xs. \<not> P x)"
  by (induction xs) auto

lemma find_index_append:
  "find_index P (xs @ ys) =
     (case find_index P xs of Some i \<Rightarrow> Some i | None \<Rightarrow> map_option (\<lambda>n. length xs + n) (find_index P ys))"
  by (cases "find_index P ys"; induction xs) (auto split: option.splits)

end
