(* ===== verification/StreamBuffer.thy ===== *)
theory StreamBuffer
  imports Prelude
begin

text \<open>
  The gap-tracking byte buffer of \<^verbatim>\<open>assembly/reader/buffer.go\<close>.  The \<open>bytes.Buffer\<close> inside it is
  the list of its unread bytes; \<open>blocks\<close> says which stretches of the stream those bytes cover and
  where bytes were lost.  All counters are 64-bit and wrap.

  The theory defines every method, proves that none of them can panic on a buffer that satisfies
  \<open>buf_safe\<close> (whatever integers it is given), and that on well-formed buffers (\<open>buf_wf\<close>) the methods
  implement a stream of bytes and holes that is read by a cursor.
\<close>

section \<open>Data\<close>

record block =
  gap :: int
  dataLen :: int

definition hasGap :: "block \<Rightarrow> bool" where
  "hasGap b \<longleftrightarrow> gap b > 0"

definition block_len :: "block \<Rightarrow> int" where
  "block_len b = gint (gap b + dataLen b)"

record Buffer =
  buf :: "byte list"
  blen :: int
  bcap :: int
  blocks :: "block list"
  bdiscard :: int

definition NewBuffer :: "int \<Rightarrow> Buffer" where
  "NewBuffer cap = \<lparr>buf = [], blen = 0, bcap = cap, blocks = [], bdiscard = 0\<rparr>"

definition Buffer_Reset :: "Buffer \<Rightarrow> Buffer" where
  "Buffer_Reset b = b\<lparr>buf := [], blen := 0, blocks := [], bdiscard := 0\<rparr>"

text \<open>\<open>bytes.Buffer.Next\<close>: drops up to \<open>n\<close> bytes, panics on a negative count.\<close>

definition bytes_Next :: "int \<Rightarrow> byte list \<Rightarrow> byte list option" where
  "bytes_Next n bs = (if n < 0 then None else Some (drop (nat n) bs))"

section \<open>Discarding\<close>

definition block_discard :: "Buffer \<Rightarrow> nat \<Rightarrow> int \<Rightarrow> Buffer option" where
  "block_discard b i n =
     (if length (blocks b) \<le> i then None
      else let bl = blocks b ! i in
        if n \<ge> block_len bl then None
        else let b = b\<lparr>blen := gint (blen b - n)\<rparr> in
          if gap bl > n
          then Some (b\<lparr>blocks := (blocks b)[i := bl\<lparr>gap := gint (gap bl - n)\<rparr>]\<rparr>)
          else let n = gint (n - gap bl) in
            do { rest \<leftarrow> bytes_Next n (buf b);
                 Some (b\<lparr>blocks := (blocks b)[i := bl\<lparr>gap := 0, dataLen := gint (dataLen bl - n)\<rparr>],
                         buf := rest\<rparr>) })"

fun dropBlocks_loop :: "block list \<Rightarrow> int \<Rightarrow> int \<Rightarrow> int \<times> int" where
  "dropBlocks_loop [] l d = (l, d)"
| "dropBlocks_loop (bl # bs) l d = dropBlocks_loop bs (gint (l - block_len bl)) (gint (d + dataLen bl))"

definition dropBlocks :: "Buffer \<Rightarrow> nat \<Rightarrow> Buffer option" where
  "dropBlocks b n =
     (if length (blocks b) < n then None
      else let (l, dataToDrop) = dropBlocks_loop (take n (blocks b)) (blen b) 0 in
        do { rest \<leftarrow> bytes_Next dataToDrop (buf b);
             Some (b\<lparr>blen := l, blocks := drop n (blocks b), buf := rest\<rparr>) })"

fun Discard_loop :: "Buffer \<Rightarrow> nat \<Rightarrow> block list \<Rightarrow> int \<Rightarrow> Buffer option" where
  "Discard_loop b i [] toDiscard =
     Some (b\<lparr>buf := [], blen := 0, blocks := [], bdiscard := gint (bdiscard b + toDiscard)\<rparr>)"
| "Discard_loop b i (bl # bs) toDiscard =
     (let l = block_len bl in
      if l > toDiscard
      then do { b1 \<leftarrow> block_discard b i toDiscard; dropBlocks b1 i }
      else Discard_loop b (Suc i) bs (gint (toDiscard - l)))"

definition Buffer_Discard :: "Buffer \<Rightarrow> int \<Rightarrow> Buffer option" where
  "Buffer_Discard b n = Discard_loop b 0 (blocks b) n"

section \<open>Writing\<close>

text \<open>The second half of \<open>Write\<close>: what is left of the chunk is stored if it fits.\<close>

definition Write_store :: "Buffer \<Rightarrow> int \<Rightarrow> byte list \<Rightarrow> Buffer \<times> go_error option" where
  "Write_store b skip data =
     (if gint (int (length (buf b)) + int (length data)) > bcap b
      then (b, Some ErrShortWrite)
      else
        let b = b\<lparr>buf := buf b @ data, bdiscard := 0\<rparr>;
            b = (if skip = 0 \<and> length (blocks b) > 0
                 then let i = length (blocks b) - 1; bl = blocks b ! i in
                   b\<lparr>blocks := (blocks b)[i := bl\<lparr>dataLen := gint (dataLen bl + int (length data))\<rparr>]\<rparr>
                 else b\<lparr>blocks := blocks b @ [\<lparr>gap = skip, dataLen = int (length data)\<rparr>]\<rparr>)
        in (b\<lparr>blen := gint (blen b + (skip + int (length data)))\<rparr>, None))"

definition Buffer_Write :: "Buffer \<Rightarrow> int \<Rightarrow> byte list \<Rightarrow> (Buffer \<times> go_error option) option" where
  "Buffer_Write b skip data =
     (let skip = (if skip < 0 then 0 else skip) in
      if bdiscard b \<ge> gint (skip + int (length data))
      then Some (b\<lparr>bdiscard := gint (bdiscard b - skip - int (length data))\<rparr>, None)
      else if skip \<ge> bdiscard b
      then Some (Write_store b (gint (skip - bdiscard b)) data)
      else do { data \<leftarrow> slice_from (gint (bdiscard b - skip)) data; Some (Write_store b 0 data) })"

section \<open>Reading\<close>

definition Buffer_Len :: "Buffer \<Rightarrow> int" where
  "Buffer_Len b = blen b"

fun contiguous_loop :: "block list \<Rightarrow> int \<Rightarrow> int \<times> int" where
  "contiguous_loop [] avail = (avail, 0)"
| "contiguous_loop (bl # bs) avail =
     (if hasGap bl then (avail, gap bl) else contiguous_loop bs (gint (avail + dataLen bl)))"

definition contiguousAvailable :: "Buffer \<Rightarrow> int \<times> int" where
  "contiguousAvailable b = contiguous_loop (blocks b) 0"

fun totalData_loop :: "block list \<Rightarrow> int \<Rightarrow> int" where
  "totalData_loop [] avail = avail"
| "totalData_loop (bl # bs) avail = totalData_loop bs (gint (avail + dataLen bl))"

definition totalData :: "Buffer \<Rightarrow> int" where
  "totalData b = totalData_loop (blocks b) 0"

definition validate :: "Buffer \<Rightarrow> unit option" where
  "validate b = (if totalData b \<noteq> int (length (buf b)) then None else Some ())"

text \<open>\<open>bytes.IndexAny\<close> for a set of ASCII characters: the first position holding one of them.\<close>

definition bytes_IndexAny :: "byte list \<Rightarrow> string \<Rightarrow> int" where
  "bytes_IndexAny bs chars =
     (case find_index (\<lambda>c. c \<in> set chars) bs of None \<Rightarrow> -1 | Some i \<Rightarrow> int i)"

definition Buffer_ReadN ::
  "Buffer \<Rightarrow> int \<Rightarrow> ((byte list \<times> go_error option) \<times> Buffer) option" where
  "Buffer_ReadN b n =
     (if blen b < n then Some (([], Some ErrShortRead), b)
      else let (avail, g) = contiguousAvailable b in
        if avail < n
        then do { out \<leftarrow> slice_to avail (buf b);
                  b1 \<leftarrow> Buffer_Discard b (gint (avail + g));
                  Some ((out, Some (ErrLostData g)), b1) }
        else do { out \<leftarrow> slice_to n (buf b);
                  b1 \<leftarrow> Buffer_Discard b n;
                  Some ((out, None), b1) })"

definition Buffer_PeekN :: "Buffer \<Rightarrow> int \<Rightarrow> (byte list \<times> go_error option) option" where
  "Buffer_PeekN b n =
     (if blen b < n then Some ([], Some ErrShortRead)
      else let (avail, g) = contiguousAvailable b in
        if avail < n
        then do { out \<leftarrow> slice_to avail (buf b); Some (out, Some (ErrLostData g)) }
        else do { out \<leftarrow> slice_to n (buf b); Some (out, None) })"

definition Buffer_indexAny :: "Buffer \<Rightarrow> string \<Rightarrow> (int \<times> int \<times> int) option" where
  "Buffer_indexAny b chars =
     (let (avail, g) = contiguousAvailable b in
      do { s \<leftarrow> slice_to avail (buf b); Some (bytes_IndexAny s chars, avail, g) })"

definition Buffer_IndexAny :: "Buffer \<Rightarrow> string \<Rightarrow> (int \<times> go_error option) option" where
  "Buffer_IndexAny b chars =
     do { (pos, avail, g) \<leftarrow> Buffer_indexAny b chars;
          Some (if pos < 0
                then if avail < blen b then (pos, Some (ErrLostData g)) else (pos, Some ErrShortRead)
                else (pos, None)) }"

abbreviation CR :: byte where "CR \<equiv> CHR 0x0D"
abbreviation LF :: byte where "LF \<equiv> CHR 0x0A"

text \<open>The optional carriage return before the line feed is not part of the line.\<close>

definition trim_cr :: "byte list \<Rightarrow> byte list" where
  "trim_cr out = (if length out \<ge> 1 \<and> last out = CR then butlast out else out)"

definition Buffer_ReadLine ::
  "Buffer \<Rightarrow> ((byte list \<times> go_error option) \<times> Buffer) option" where
  "Buffer_ReadLine b =
     do { (pos, avail, g) \<leftarrow> Buffer_indexAny b [LF];
          if pos < 0
          then if avail < blen b
            then do { b1 \<leftarrow> Buffer_Discard b (gint (avail + g)); Some (([], Some (ErrLostData g)), b1) }
            else Some (([], Some ErrShortRead), b)
          else do { out \<leftarrow> slice_to pos (buf b);
                    b1 \<leftarrow> Buffer_Discard b (gint (pos + 1));
                    Some ((trim_cr out, None), b1) } }"

section \<open>The memory-safety invariant\<close>

text \<open>
  What holds of every buffer the program can build, for arbitrary (also negative or overflowing)
  skips and discards: the blocks account for exactly the buffered bytes, which never exceed the
  capacity; only the first block may lack a gap; a pending discard means that nothing is buffered.
\<close>

definition datasum :: "block list \<Rightarrow> int" where
  "datasum bs = (\<Sum>bl\<leftarrow>bs. dataLen bl)"

definition block_ok :: "block \<Rightarrow> bool" where
  "block_ok bl \<longleftrightarrow> 0 \<le> dataLen bl \<and> int64 (gap bl)"

definition maxcap :: int where
  "maxcap = 4611686018427387904"

definition buf_safe :: "Buffer \<Rightarrow> bool" where
  "buf_safe b \<longleftrightarrow>
     (\<forall>bl\<in>set (blocks b). block_ok bl) \<and>
     (\<forall>bl\<in>set (tl (blocks b)). 0 < gap bl) \<and>
     datasum (blocks b) = int (length (buf b)) \<and>
     int (length (buf b)) \<le> bcap b \<and> bcap b < maxcap \<and>
     int64 (bdiscard b) \<and> (bdiscard b \<noteq> 0 \<longrightarrow> blocks b = [])"

lemma datasum_simps [simp]:
  "datasum [] = 0" "datasum (bl # bs) = dataLen bl + datasum bs"
  "datasum (bs @ cs) = datasum bs + datasum cs"
  by (simp_all add: datasum_def)

lemma datasum_nonneg: "\<forall>bl\<in>set bs. block_ok bl \<Longrightarrow> 0 \<le> datasum bs"
  unfolding datasum_def by (rule sum_list_nonneg_int) (simp add: block_ok_def)

lemma dropBlocks_loop_fst: "fst (dropBlocks_loop bs l d) = (if bs = [] then l else gint (l - (\<Sum>bl\<leftarrow>bs. block_len bl)))"
  by (induction bs arbitrary: l d) (auto simp: algebra_simps)

lemma dropBlocks_loop_snd:
  "\<lbrakk> \<forall>bl\<in>set bs. block_ok bl; 0 \<le> d; d + datasum bs < maxcap \<rbrakk>
   \<Longrightarrow> snd (dropBlocks_loop bs l d) = d + datasum bs"
proof (induction bs arbitrary: l d)
  case (Cons bl bs)
  then have "0 \<le> datasum bs" by (simp add: datasum_nonneg)
  with Cons have "gint (d + dataLen bl) = d + dataLen bl"
    by (intro gint_id int64I) (auto simp: maxcap_def block_ok_def)
  with Cons show ?case by (simp add: block_ok_def)
qed simp

text \<open>A reference for \<open>Discard\<close>: one pass over the blocks that carries the bytes along.  The third
  component is what is left to discard once the blocks are used up.\<close>

fun discard_ref :: "block list \<Rightarrow> byte list \<Rightarrow> int \<Rightarrow> block list \<times> byte list \<times> int" where
  "discard_ref [] d n = ([], [], n)"
| "discard_ref (bl # bs) d n =
     (if block_len bl > n
      then if gap bl > n
        then (bl\<lparr>gap := gint (gap bl - n)\<rparr> # bs, d, 0)
        else (bl\<lparr>gap := 0, dataLen := dataLen bl - (n - gap bl)\<rparr> # bs, drop (nat (n - gap bl)) d, 0)
      else discard_ref bs (drop (nat (dataLen bl)) d) (gint (n - block_len bl)))"

lemma discard_inside:
  assumes "block_ok bl" and "dataLen bl < maxcap" and "n < block_len bl" and "gap bl \<le> n"
  shows "0 \<le> n - gap bl" and "n - gap bl < dataLen bl" and "gint (n - gap bl) = n - gap bl"
    and "gint (dataLen bl - (n - gap bl)) = dataLen bl - (n - gap bl)"
proof -
  have "block_len bl \<le> gap bl + dataLen bl \<or> gap bl < 0"
    unfolding block_len_def using assms(1,2)
    by (cases "gap bl < 0") (auto simp: block_ok_def int64_def maxcap_def intro!: gint_le_pos)
  then have *: "n < gap bl + dataLen bl"
  proof
    assume "gap bl < 0"
    then have "block_len bl = gap bl + dataLen bl"
      unfolding block_len_def using assms(1,2)
      by (intro gint_id int64I) (auto simp: block_ok_def int64_def maxcap_def)
    with assms(3) show ?thesis by simp
  qed (use assms(3) in simp)
  from assms(4) * show **: "0 \<le> n - gap bl" "n - gap bl < dataLen bl" by simp_all
  with assms(1,2) show "gint (n - gap bl) = n - gap bl"
    and "gint (dataLen bl - (n - gap bl)) = dataLen bl - (n - gap bl)"
    by (intro gint_id int64I; simp add: block_ok_def maxcap_def)+
qed

lemma block_discard_ref:
  assumes "blocks b = pre @ bl # bs" and "block_ok bl" and "dataLen bl < maxcap" and "n < block_len bl"
  shows "block_discard b (length pre) n =
    Some (if gap bl > n
          then b\<lparr>blen := gint (blen b - n), blocks := pre @ bl\<lparr>gap := gint (gap bl - n)\<rparr> # bs\<rparr>
          else b\<lparr>blen := gint (blen b - n),
                 blocks := pre @ bl\<lparr>gap := 0, dataLen := dataLen bl - (n - gap bl)\<rparr> # bs,
                 buf := drop (nat (n - gap bl)) (buf b)\<rparr>)"
  using assms discard_inside [OF assms(2-4)]
  by (auto simp: block_discard_def Let_def bytes_Next_def)

lemma dropBlocks_ref:
  assumes "blocks b = pre @ bs" and "\<forall>bl\<in>set pre. block_ok bl" and "datasum pre < maxcap"
  shows "dropBlocks b (length pre) =
    Some (b\<lparr>blen := (if pre = [] then blen b else gint (blen b - (\<Sum>bl\<leftarrow>pre. block_len bl))),
            blocks := bs, buf := drop (nat (datasum pre)) (buf b)\<rparr>)"
  using assms dropBlocks_loop_fst [of pre "blen b" 0] dropBlocks_loop_snd [of pre 0 "blen b"]
    datasum_nonneg [of pre]
  by (auto simp: dropBlocks_def Let_def bytes_Next_def split: prod.splits)

lemma Discard_loop_ref:
  assumes "blocks b = pre @ bs" and "\<forall>bl\<in>set (pre @ bs). block_ok bl"
    and "datasum (pre @ bs) < maxcap"
  shows "Discard_loop b (length pre) bs n =
    Some (case discard_ref bs (drop (nat (datasum pre)) (buf b)) n of (bs', d, left) \<Rightarrow>
            if bs' = [] then b\<lparr>buf := [], blen := 0, blocks := [], bdiscard := gint (bdiscard b + left)\<rparr>
            else b\<lparr>buf := d, blocks := bs', blen := gint (blen b - (\<Sum>bl\<leftarrow>pre. block_len bl) - n)\<rparr>)"
  using assms
proof (induction bs arbitrary: pre n)
  case Nil
  then show ?case by simp
next
  case (Cons bl bs)
  have ok: "block_ok bl" "\<forall>bl\<in>set pre. block_ok bl" using Cons.prems(2) by auto
  have nn: "0 \<le> datasum pre" "0 \<le> datasum bs" using Cons.prems(2) by (auto intro: datasum_nonneg)
  have small: "dataLen bl < maxcap" "datasum pre < maxcap"
    using Cons.prems(3) nn ok(1) by (auto simp: block_ok_def)
  show ?case
  proof (cases "n < block_len bl")
    case True
    note bd = block_discard_ref [OF Cons.prems(1) ok(1) small(1) True]
    have db: "dropBlocks (b\<lparr>blen := gint (blen b - n), blocks := pre @ bl' # bs, buf := d\<rparr>) (length pre) =
      Some (b\<lparr>blen := gint (blen b - (\<Sum>bl\<leftarrow>pre. block_len bl) - n), blocks := bl' # bs,
              buf := drop (nat (datasum pre)) d\<rparr>)" for bl' d
      using dropBlocks_ref [of "b\<lparr>blen := gint (blen b - n), blocks := pre @ bl' # bs, buf := d\<rparr>"
          pre "bl' # bs"] ok(2) small(2) by (auto simp: algebra_simps)
    show ?thesis
    proof (cases "gap bl > n")
      case gt: True
      from True bd gt db [where bl' = "bl\<lparr>gap := gint (gap bl - n)\<rparr>" and d = "buf b"]
      show ?thesis by simp
    next
      case False
      with True have "0 \<le> n - gap bl" using discard_inside(1) [OF ok(1) small(1)] by simp
      then have "drop (nat (datasum pre)) (drop (nat (n - gap bl)) (buf b)) =
          drop (nat (n - gap bl)) (drop (nat (datasum pre)) (buf b))"
        by (simp add: add.commute)
      with True bd False db [where bl' = "bl\<lparr>gap := 0, dataLen := dataLen bl - (n - gap bl)\<rparr>"
          and d = "drop (nat (n - gap bl)) (buf b)"]
      show ?thesis by simp
    qed
  next
    case False
    have "Discard_loop b (length pre) (bl # bs) n =
        Discard_loop b (length (pre @ [bl])) bs (gint (n - block_len bl))"
      using False by simp
    moreover have "drop (nat (datasum (pre @ [bl]))) (buf b) =
        drop (nat (dataLen bl)) (drop (nat (datasum pre)) (buf b))"
      using nn ok(1) by (simp add: block_ok_def nat_add_distrib add.commute)
    moreover have "gint (blen b - (\<Sum>bl\<leftarrow>pre @ [bl]. block_len bl) - gint (n - block_len bl)) =
        gint (blen b - (\<Sum>bl\<leftarrow>pre. block_len bl) - n)"
      unfolding gint_diff_right by (simp add: algebra_simps)
    moreover note Cons.IH [of "pre @ [bl]" "gint (n - block_len bl)"]
    ultimately show ?thesis
      using Cons.prems False by (simp del: map_append sum_list_append gint_diff_right split: prod.splits)
  qed
qed

lemma Buffer_Discard_ref:
  assumes "buf_safe b"
  shows "Buffer_Discard b n =
    Some (case discard_ref (blocks b) (buf b) n of (bs', d, left) \<Rightarrow>
            if bs' = [] then b\<lparr>buf := [], blen := 0, blocks := [], bdiscard := gint (bdiscard b + left)\<rparr>
            else b\<lparr>buf := d, blocks := bs', blen := gint (blen b - n)\<rparr>)"
  using assms Discard_loop_ref [of b "[]" "blocks b" n]
  by (auto simp: Buffer_Discard_def buf_safe_def split: prod.splits)

lemma discard_ref_safe:
  assumes "discard_ref bs d n = (bs', d', left)" and "\<forall>bl\<in>set bs. block_ok bl"
    and "\<forall>bl\<in>set (tl bs). 0 < gap bl" and "datasum bs = int (length d)" and "datasum bs < maxcap"
  shows "(\<forall>bl\<in>set bs'. block_ok bl) \<and> (\<forall>bl\<in>set (tl bs'). 0 < gap bl) \<and>
    datasum bs' = int (length d') \<and> length d' \<le> length d"
  using assms
proof (induction bs arbitrary: d n)
  case Nil
  then show ?case by simp
next
  case (Cons bl bs)
  have nn: "0 \<le> datasum bs" "0 \<le> dataLen bl"
    using Cons.prems(2) by (auto simp: block_ok_def intro: datasum_nonneg)
  show ?case
  proof (cases "n < block_len bl")
    case True
    show ?thesis
    proof (cases "gap bl > n")
      case gt: True
      with True Cons.prems show ?thesis by (auto simp: block_ok_def)
    next
      case False
      with True Cons.prems nn discard_inside [of bl n] show ?thesis
        by (auto simp: block_ok_def)
    qed
  next
    case False
    have "datasum bs = int (length (drop (nat (dataLen bl)) d))"
      using Cons.prems(4) nn by simp
    moreover have "\<forall>bl\<in>set (tl bs). 0 < gap bl"
      using Cons.prems(3) by (cases bs) auto
    moreover have "discard_ref bs (drop (nat (dataLen bl)) d) (gint (n - block_len bl)) = (bs', d', left)"
      using Cons.prems(1) False by simp
    moreover have "\<forall>bl\<in>set bs. block_ok bl" and "datasum bs < maxcap"
      using Cons.prems(2,5) nn by simp_all
    ultimately have "(\<forall>bl\<in>set bs'. block_ok bl) \<and> (\<forall>bl\<in>set (tl bs'). 0 < gap bl) \<and>
        datasum bs' = int (length d') \<and> length d' \<le> length (drop (nat (dataLen bl)) d)"
      by (intro Cons.IH)
    then show ?thesis by auto
  qed
qed

lemma discard_ref_progress:
  assumes "discard_ref (bl # bs) d n = (bs', d', left)" and "\<forall>bl\<in>set (bl # bs). block_ok bl"
    and "\<forall>bl\<in>set bs. 0 < gap bl" and "datasum (bl # bs) = int (length d)"
    and "datasum (bl # bs) < maxcap" and "gap bl \<le> 0" and "0 < dataLen bl" and "0 < n"
  shows "length d' < length d"
proof (cases "n < block_len bl")
  case True
  with assms datasum_nonneg [of bs] show ?thesis by auto
next
  case False
  have nn: "0 \<le> datasum bs" using assms(2) by (auto intro: datasum_nonneg)
  have "\<forall>bl\<in>set (tl bs). 0 < gap bl" using assms(3) by (cases bs) auto
  then have "length d' \<le> length (drop (nat (dataLen bl)) d)"
    using assms False nn discard_ref_safe [of bs "drop (nat (dataLen bl)) d" "gint (n - block_len bl)"]
    by simp
  with assms nn show ?thesis by simp
qed

lemma buf_safe_blocks:
  assumes "buf_safe b"
  shows "\<forall>bl\<in>set (blocks b). block_ok bl" and "\<forall>bl\<in>set (tl (blocks b)). 0 < gap bl"
    and "datasum (blocks b) = int (length (buf b))" and "datasum (blocks b) < maxcap"
    and "int (length (buf b)) \<le> bcap b" and "bcap b < maxcap"
  using assms by (auto simp: buf_safe_def)

lemma Buffer_Discard_safe [safe_intros]:
  assumes "buf_safe b"
  shows "\<exists>b'. Buffer_Discard b n = Some b' \<and> buf_safe b' \<and> length (buf b') \<le> length (buf b) \<and> bcap b' = bcap b"
proof -
  obtain bs' d' left where r: "discard_ref (blocks b) (buf b) n = (bs', d', left)"
    by (metis prod_cases3)
  note s = discard_ref_safe [OF r buf_safe_blocks(1-4) [OF assms]]
  from r s assms show ?thesis
    by (auto simp: Buffer_Discard_ref buf_safe_def)
qed

text \<open>Only the first block can lack a gap, so it alone decides what can be read at once.\<close>

lemma contiguousAvailable_eq:
  assumes "buf_safe b"
  shows "contiguousAvailable b =
    (case blocks b of [] \<Rightarrow> (0, 0)
     | bl # bs \<Rightarrow> if gap bl > 0 then (0, gap bl)
                 else (dataLen bl, case bs of [] \<Rightarrow> 0 | bl' # _ \<Rightarrow> gap bl'))"
proof (cases "blocks b")
  case (Cons bl bs)
  have "0 \<le> datasum bs" and "0 \<le> dataLen bl" and "dataLen bl + datasum bs < maxcap"
    using buf_safe_blocks [OF assms] Cons by (auto simp: block_ok_def intro: datasum_nonneg)
  then have "gint (dataLen bl) = dataLen bl"
    by (intro gint_id int64I) (auto simp: maxcap_def)
  with buf_safe_blocks(2) [OF assms] Cons show ?thesis
    by (auto simp: contiguousAvailable_def hasGap_def split: list.splits)
qed (simp add: contiguousAvailable_def)

lemma contiguousAvailable_bounds:
  assumes "buf_safe b" and "contiguousAvailable b = (avail, g)"
  shows "0 \<le> avail" and "avail \<le> int (length (buf b))" and "avail < maxcap"
    and "0 < avail \<Longrightarrow> \<exists>bl bs. blocks b = bl # bs \<and> gap bl \<le> 0 \<and> dataLen bl = avail"
proof -
  have dn: "0 \<le> datasum (tl (blocks b))"
    using buf_safe_blocks(1) [OF assms(1)] by (cases "blocks b") (auto intro: datasum_nonneg)
  show a: "0 \<le> avail" and l: "avail \<le> int (length (buf b))"
    using buf_safe_blocks(1,3) [OF assms(1)] dn assms(2)
    by (auto simp: contiguousAvailable_eq [OF assms(1)] block_ok_def split: list.splits if_splits)
  show "avail < maxcap" using l buf_safe_blocks(5,6) [OF assms(1)] by simp
  show "0 < avail \<Longrightarrow> \<exists>bl bs. blocks b = bl # bs \<and> gap bl \<le> 0 \<and> dataLen bl = avail"
    using assms(2) by (auto simp: contiguousAvailable_eq [OF assms(1)] split: list.splits if_splits)
qed

lemma Buffer_Discard_progress:
  assumes "buf_safe b" and "contiguousAvailable b = (avail, g)" and "0 < avail" and "0 < n"
  shows "\<exists>b'. Buffer_Discard b n = Some b' \<and> buf_safe b' \<and> length (buf b') < length (buf b) \<and> bcap b' = bcap b"
proof -
  obtain bl bs where bl: "blocks b = bl # bs" "gap bl \<le> 0" "0 < dataLen bl"
    using contiguousAvailable_bounds(4) [OF assms(1,2,3)] assms(3) by auto
  obtain bs' d' left where r: "discard_ref (blocks b) (buf b) n = (bs', d', left)"
    by (metis prod_cases3)
  note s = buf_safe_blocks [OF assms(1)]
  have "length d' < length (buf b)"
    using discard_ref_progress [of bl bs "buf b" n bs' d' left] r s bl assms(4) by simp
  moreover have "bs' \<noteq> [] \<or> 0 < length (buf b)" using s(3) bl s(1) datasum_nonneg [of bs]
    by (cases "buf b") auto
  moreover obtain b' where b': "Buffer_Discard b n = Some b'" "buf_safe b'" "bcap b' = bcap b"
    using Buffer_Discard_safe [OF assms(1)] by blast
  moreover have "length (buf b') < length (buf b)"
    using calculation r by (auto simp: Buffer_Discard_ref [OF assms(1)] split: if_splits)
  ultimately show ?thesis by blast
qed

section \<open>No operation panics\<close>

lemma buf_safe_NewBuffer [safe_intros]: "\<lbrakk> 0 \<le> cap; cap < maxcap \<rbrakk> \<Longrightarrow> buf_safe (NewBuffer cap)"
  by (simp add: buf_safe_def NewBuffer_def)

lemma buf_safe_Reset [safe_intros]: "buf_safe b \<Longrightarrow> buf_safe (Buffer_Reset b)"
  by (auto simp: buf_safe_def Buffer_Reset_def)

lemma totalData_loop_eq:
  "\<lbrakk> \<forall>bl\<in>set bs. block_ok bl; 0 \<le> a; a + datasum bs < maxcap \<rbrakk> \<Longrightarrow> totalData_loop bs a = a + datasum bs"
proof (induction bs arbitrary: a)
  case (Cons bl bs)
  then have "0 \<le> datasum bs" by (simp add: datasum_nonneg)
  with Cons have "gint (a + dataLen bl) = a + dataLen bl"
    by (intro gint_id int64I) (auto simp: maxcap_def block_ok_def)
  with Cons show ?case by (simp add: block_ok_def)
qed simp

lemma bytes_IndexAny_bounds:
  "bytes_IndexAny bs cs = -1 \<or> 0 \<le> bytes_IndexAny bs cs \<and> bytes_IndexAny bs cs < int (length bs)"
  by (auto simp: bytes_IndexAny_def dest: find_index_Some split: option.splits)

lemma Buffer_indexAny_total:
  assumes "buf_safe b" and "contiguousAvailable b = (avail, g)"
  shows "Buffer_indexAny b cs = Some (bytes_IndexAny (take (nat avail) (buf b)) cs, avail, g)"
  using contiguousAvailable_bounds [OF assms] assms(2) by (simp add: Buffer_indexAny_def)

lemma Buffer_IndexAny_total [total_intros]:
  assumes "buf_safe b"
  shows "\<exists>pos err. Buffer_IndexAny b cs = Some (pos, err) \<and> (err = None \<longrightarrow> 0 \<le> pos \<and> pos < maxcap)"
proof -
  obtain avail g where c: "contiguousAvailable b = (avail, g)" by force
  from contiguousAvailable_bounds [OF assms c] bytes_IndexAny_bounds [of "take (nat avail) (buf b)" cs]
  show ?thesis by (auto simp: Buffer_IndexAny_def Buffer_indexAny_total [OF assms c])
qed

lemma Buffer_PeekN_total [total_intros]:
  assumes "buf_safe b" and "0 \<le> n"
  shows "\<exists>out err. Buffer_PeekN b n = Some (out, err) \<and> (err = None \<longrightarrow> length out = nat n)"
proof -
  obtain avail g where c: "contiguousAvailable b = (avail, g)" by force
  from contiguousAvailable_bounds [OF assms(1) c] assms(2) show ?thesis
    by (auto simp: Buffer_PeekN_def c)
qed

lemma Buffer_ReadN_safe [safe_intros]:
  assumes "buf_safe b" and "0 < n"
  shows "\<exists>out err b'. Buffer_ReadN b n = Some ((out, err), b') \<and> buf_safe b' \<and> bcap b' = bcap b \<and>
    length (buf b') \<le> length (buf b) \<and>
    (err = None \<longrightarrow> length out = nat n \<and> length (buf b') < length (buf b))"
proof -
  obtain avail g where c: "contiguousAvailable b = (avail, g)" by force
  note bnds = contiguousAvailable_bounds [OF assms(1) c]
  consider "blen b < n" | "\<not> blen b < n" "avail < n" | "\<not> blen b < n" "n \<le> avail" by linarith
  then show ?thesis
  proof cases
    case 1
    with assms show ?thesis by (simp add: Buffer_ReadN_def)
  next
    case 2
    with Buffer_Discard_safe [OF assms(1), of "gint (avail + g)"] bnds show ?thesis
      by (auto simp: Buffer_ReadN_def c)
  next
    case 3
    with Buffer_Discard_progress [OF assms(1) c _ assms(2)] bnds assms(2) show ?thesis
      by (auto simp: Buffer_ReadN_def c)
  qed
qed

lemma Buffer_ReadLine_safe [safe_intros]:
  assumes "buf_safe b"
  shows "\<exists>out err b'. Buffer_ReadLine b = Some ((out, err), b') \<and> buf_safe b' \<and> bcap b' = bcap b \<and>
    length (buf b') \<le> length (buf b) \<and> (err = None \<longrightarrow> length (buf b') < length (buf b))"
proof -
  obtain avail g where c: "contiguousAvailable b = (avail, g)" by force
  note bnds = contiguousAvailable_bounds [OF assms c]
  let ?pos = "bytes_IndexAny (take (nat avail) (buf b)) [LF]"
  note i = Buffer_indexAny_total [OF assms c, of "[LF]"]
  show ?thesis
  proof (cases "?pos < 0")
    case True
    with Buffer_Discard_safe [OF assms, of "gint (avail + g)"] assms show ?thesis
      by (auto simp: Buffer_ReadLine_def i)
  next
    case False
    with bytes_IndexAny_bounds [of "take (nat avail) (buf b)" "[LF]"] bnds
    have p: "0 \<le> ?pos" "?pos < avail" by auto
    then have "gint (?pos + 1) = ?pos + 1"
      using bnds by (intro gint_id int64I) (auto simp: maxcap_def)
    with Buffer_Discard_progress [OF assms c, of "?pos + 1"] p bnds show ?thesis
      by (auto simp: Buffer_ReadLine_def i)
  qed
qed

text \<open>The chunks the TCP assembler delivers: sequence differences fit in 33 bits, packets in 16.\<close>

definition chunk_ok :: "int \<Rightarrow> byte list \<Rightarrow> bool" where
  "chunk_ok skip data \<longleftrightarrow> skip < maxcap \<and> int (length data) < maxcap"

text \<open>\<open>Write\<close> in one equation: the part of the chunk under a pending discard is cut off, the rest
  is stored if there is room.\<close>

lemma last_block_update:
  assumes "blocks b \<noteq> []"
  shows "(blocks b)[length (blocks b) - 1 := f (blocks b ! (length (blocks b) - 1))] =
    butlast (blocks b) @ [f (last (blocks b))]"
  using assms by (cases "blocks b" rule: rev_cases) (simp_all add: nth_append)

definition store_chunk :: "Buffer \<Rightarrow> int \<Rightarrow> byte list \<Rightarrow> Buffer" where
  "store_chunk b skip data =
     b\<lparr>buf := buf b @ data, bdiscard := 0,
       blocks := (if skip = 0 \<and> blocks b \<noteq> []
                  then butlast (blocks b) @ [(last (blocks b))\<lparr>dataLen := gint (dataLen (last (blocks b)) + int (length data))\<rparr>]
                  else blocks b @ [\<lparr>gap = skip, dataLen = int (length data)\<rparr>]),
       blen := gint (blen b + (skip + int (length data)))\<rparr>"

lemma Write_store_eq:
  assumes "buf_safe b" and "int (length data) < maxcap"
  shows "Write_store b skip data =
    (if int (length (buf b)) + int (length data) > bcap b then (b, Some ErrShortWrite)
     else (store_chunk b skip data, None))"
proof -
  have "gint (int (length (buf b)) + int (length data)) = int (length (buf b)) + int (length data)"
    using assms(2) buf_safe_blocks(5,6) [OF assms(1)] by (intro gint_id int64I) (auto simp: maxcap_def)
  then show ?thesis
    using last_block_update [of b "\<lambda>bl. bl\<lparr>dataLen := gint (dataLen bl + int (length data))\<rparr>"]
    by (simp add: Write_store_def store_chunk_def Let_def)
qed

lemma Buffer_Write_eq:
  assumes "buf_safe b" and "chunk_ok skip data"
  defines "s \<equiv> max 0 skip"
  shows "Buffer_Write b skip data = Some (
     if bdiscard b \<ge> s + int (length data) then (b\<lparr>bdiscard := bdiscard b - s - int (length data)\<rparr>, None)
     else if s \<ge> bdiscard b then Write_store b (gint (s - bdiscard b)) data
     else Write_store b 0 (drop (nat (bdiscard b - s)) data))"
proof -
  have s: "(if skip < 0 then 0 else skip) = s" by (simp add: s_def)
  have s0: "0 \<le> s" by (simp add: s_def)
  have dis: "int64 (bdiscard b)" using assms(1) by (simp add: buf_safe_def)
  have "gint (s + int (length data)) = s + int (length data)"
    using assms(2) by (intro gint_id int64I) (auto simp: s_def chunk_ok_def maxcap_def)
  moreover have "gint (bdiscard b - s - int (length data)) = bdiscard b - s - int (length data)"
    if "bdiscard b \<ge> s + int (length data)"
    using that dis s0 by (intro gint_id) (simp add: int64_def)
  moreover have "gint (bdiscard b - s) = bdiscard b - s" if "\<not> s \<ge> bdiscard b"
    using that dis s0 by (intro gint_id) (simp add: int64_def)
  ultimately show ?thesis
    by (simp add: Buffer_Write_def s)
qed

lemma buf_safe_store_chunk:
  assumes "buf_safe b" and "int (length (buf b)) + int (length data) \<le> bcap b"
    and "int64 skip" and "blocks b \<noteq> [] \<Longrightarrow> 0 \<le> skip"
  shows "buf_safe (store_chunk b skip data)"
proof -
  note s = buf_safe_blocks [OF assms(1)]
  show ?thesis
  proof (cases "blocks b" rule: rev_cases)
    case Nil
    with s assms show ?thesis by (auto simp: buf_safe_def store_chunk_def block_ok_def)
  next
    case (snoc bs bl)
    then have nn: "0 \<le> datasum bs" "0 \<le> dataLen bl"
      using s(1) by (auto simp: block_ok_def intro: datasum_nonneg)
    then have "gint (dataLen bl + int (length data)) = dataLen bl + int (length data)"
      using s(3-6) snoc assms(2) by (intro gint_id int64I) (auto simp: maxcap_def)
    with snoc s assms show ?thesis
      by (cases bs) (auto simp: buf_safe_def store_chunk_def block_ok_def)
  qed
qed

lemma Write_store_safe:
  assumes "buf_safe b" and "int (length data) < maxcap" and "int64 skip" and "blocks b \<noteq> [] \<Longrightarrow> 0 \<le> skip"
  shows "\<exists>b' err. Write_store b skip data = (b', err) \<and> buf_safe b' \<and> bcap b' = bcap b \<and>
    err \<in> {None, Some ErrShortWrite}"
proof (cases "int (length (buf b)) + int (length data) > bcap b")
  case True
  with assms show ?thesis by (simp add: Write_store_eq)
next
  case False
  with buf_safe_store_chunk [of b data skip] assms
  have "buf_safe (store_chunk b skip data)" by simp
  with False assms show ?thesis by (simp add: Write_store_eq store_chunk_def)
qed

lemma Buffer_Write_safe [safe_intros]:
  assumes "buf_safe b" and "chunk_ok skip data"
  shows "\<exists>b' err. Buffer_Write b skip data = Some (b', err) \<and> buf_safe b' \<and> bcap b' = bcap b \<and>
    err \<in> {None, Some ErrShortWrite}"
proof -
  define s where "s = max 0 skip"
  have s: "0 \<le> s" "int64 s" using assms(2) by (auto simp: s_def chunk_ok_def maxcap_def int64_def)
  have i: "int64 (bdiscard b)" and z: "blocks b \<noteq> [] \<Longrightarrow> bdiscard b = 0"
    using assms(1) by (auto simp: buf_safe_def)
  note eq = Buffer_Write_eq [OF assms, folded s_def]
  consider "bdiscard b \<ge> s + int (length data)"
    | "\<not> bdiscard b \<ge> s + int (length data)" "s \<ge> bdiscard b"
    | "\<not> bdiscard b \<ge> s + int (length data)" "\<not> s \<ge> bdiscard b" by blast
  then show ?thesis
  proof cases
    case 1
    then have "int64 (bdiscard b - s - int (length data))" using i s by (simp add: int64_def)
    moreover have "blocks b \<noteq> [] \<Longrightarrow> bdiscard b - s - int (length data) = 0" using 1 z s by simp
    ultimately have "buf_safe (b\<lparr>bdiscard := bdiscard b - s - int (length data)\<rparr>)"
      using assms(1) unfolding buf_safe_def by fastforce
    with 1 eq show ?thesis by simp
  next
    case 2
    have "blocks b \<noteq> [] \<Longrightarrow> 0 \<le> gint (s - bdiscard b)" using z s by (simp add: gint_id)
    with 2 eq Write_store_safe [OF assms(1)] assms(2) show ?thesis by (simp add: chunk_ok_def)
  next
    case 3
    with eq Write_store_safe [OF assms(1), of "drop (nat (bdiscard b - s)) data" 0] assms(2)
    show ?thesis by (simp add: chunk_ok_def)
  qed
qed

section \<open>The buffer as a stream with a cursor\<close>

text \<open>
  The stream a buffer stands for: received bytes are \<^term>\<open>Some c\<close>, lost bytes \<^const>\<open>None\<close>.
\<close>

fun blocks_stream :: "block list \<Rightarrow> byte list \<Rightarrow> byte option list" where
  "blocks_stream [] d = []"
| "blocks_stream (bl # bs) d =
     replicate (nat (gap bl)) None @ map Some (take (nat (dataLen bl)) d) @
     blocks_stream bs (drop (nat (dataLen bl)) d)"

definition buf_stream :: "Buffer \<Rightarrow> byte option list" where
  "buf_stream b = blocks_stream (blocks b) (buf b)"

definition block_wf :: "block \<Rightarrow> bool" where
  "block_wf bl \<longleftrightarrow> 0 \<le> gap bl \<and> 0 \<le> dataLen bl \<and> 0 < gap bl + dataLen bl"

definition lensum :: "block list \<Rightarrow> int" where
  "lensum bs = (\<Sum>bl\<leftarrow>bs. gap bl + dataLen bl)"

definition maxint :: int where
  "maxint = 9223372036854775807"

text \<open>The functional invariant: no counter has gone negative or wrapped.\<close>

definition buf_wf :: "Buffer \<Rightarrow> bool" where
  "buf_wf b \<longleftrightarrow> buf_safe b \<and> (\<forall>bl\<in>set (blocks b). block_wf bl) \<and>
     blen b = lensum (blocks b) \<and> blen b \<le> maxint \<and> 0 \<le> bdiscard b"

lemma lensum_simps [simp]:
  "lensum [] = 0" "lensum (bl # bs) = gap bl + dataLen bl + lensum bs"
  "lensum (bs @ cs) = lensum bs + lensum cs"
  by (simp_all add: lensum_def)

lemma lensum_nonneg: "\<forall>bl\<in>set bs. block_wf bl \<Longrightarrow> 0 \<le> lensum bs"
  unfolding lensum_def by (rule sum_list_nonneg_int) (simp add: block_wf_def)

lemma datasum_nonneg_wf: "\<forall>bl\<in>set bs. block_wf bl \<Longrightarrow> 0 \<le> datasum bs"
  unfolding datasum_def by (rule sum_list_nonneg_int) (simp add: block_wf_def)

lemma length_blocks_stream:
  "\<lbrakk> \<forall>bl\<in>set bs. block_wf bl; datasum bs = int (length d) \<rbrakk>
   \<Longrightarrow> int (length (blocks_stream bs d)) = lensum bs"
proof (induction bs arbitrary: d)
  case (Cons bl bs)
  then have "0 \<le> datasum bs" "0 \<le> dataLen bl" "0 \<le> gap bl"
    by (auto simp: block_wf_def datasum_nonneg_wf)
  with Cons.prems Cons.IH [of "drop (nat (dataLen bl)) d"] show ?case
    by (simp add: of_nat_diff)
qed simp

lemma block_len_wf:
  assumes "block_wf bl" and "gap bl + dataLen bl \<le> maxint"
  shows "block_len bl = gap bl + dataLen bl"
  unfolding block_len_def using assms by (intro gint_id int64I) (auto simp: block_wf_def maxint_def)

text \<open>Discarding within the first block.\<close>

lemma discard_ref_inside:
  assumes "discard_ref (bl # bs) d n = (bs', d', left)" and "block_wf bl" and "\<forall>bl\<in>set bs. block_wf bl" and "block_len bl = gap bl + dataLen bl"
    and "nat (dataLen bl) \<le> length d" and "gap bl \<le> maxint" and "0 \<le> n" and "n < block_len bl"
  shows "blocks_stream bs' d' = drop (nat n) (blocks_stream (bl # bs) d) \<and> (\<forall>bl\<in>set bs'. block_wf bl) \<and>
    bs' \<noteq> [] \<and> lensum bs' = lensum (bl # bs) - n"
proof (cases "gap bl > n")
  case True
  have "gint (gap bl - n) = gap bl - n" using True assms(6,7) by (intro gint_id int64I) (auto simp: maxint_def)
  moreover have "drop (nat n) (replicate (nat (gap bl)) (None :: byte option)) = replicate (nat (gap bl - n)) None"
    using assms(7) by (simp add: nat_diff_distrib)
  ultimately show ?thesis using True assms by (auto simp: block_wf_def nat_le_iff)
next
  case False
  define k where "k = nat (n - gap bl)"
  let ?bl = "bl\<lparr>gap := 0, dataLen := dataLen bl - (n - gap bl)\<rparr>"
  have nn: "0 \<le> dataLen bl" "0 \<le> gap bl" using assms(2) by (auto simp: block_wf_def)
  have k: "k < nat (dataLen bl)" "nat n - nat (gap bl) = k" "nat (gap bl) \<le> nat n" "nat (dataLen bl - (n - gap bl)) = nat (dataLen bl) - k"
    using False nn assms(4,8) by (auto simp: k_def)
  have "drop (nat n) (blocks_stream (bl # bs) d) =
      map Some (drop k (take (nat (dataLen bl)) d)) @ blocks_stream bs (drop (nat (dataLen bl)) d)"
    using k assms(5) by (simp add: drop_map)
  also have "\<dots> = blocks_stream (?bl # bs) (drop k d)" using k by (simp add: drop_take)
  finally have "drop (nat n) (blocks_stream (bl # bs) d) = blocks_stream (?bl # bs) (drop k d)" .
  moreover have "bs' = ?bl # bs" "d' = drop k d" using assms(1,8) False by (simp_all add: k_def)
  moreover have "block_wf ?bl" using assms(4,8) by (simp add: block_wf_def)
  ultimately show ?thesis using assms(3) by simp
qed

lemma discard_ref_stream:
  assumes "discard_ref bs d n = (bs', d', left)" and "\<forall>bl\<in>set bs. block_wf bl"
    and "datasum bs = int (length d)" and "lensum bs \<le> maxint" and "0 \<le> n" and "n \<le> maxint"
  shows "blocks_stream bs' d' = drop (nat n) (blocks_stream bs d) \<and> (\<forall>bl\<in>set bs'. block_wf bl) \<and>
    (if bs' = [] then left = n - lensum bs \<and> 0 \<le> left else lensum bs' = lensum bs - n)"
  using assms
proof (induction bs arbitrary: d n)
  case Nil
  then show ?case by simp
next
  case (Cons bl bs)
  have wf: "block_wf bl" "\<forall>bl\<in>set bs. block_wf bl" using Cons.prems(2) by auto
  have nn: "0 \<le> datasum bs" "0 \<le> lensum bs" "0 \<le> dataLen bl" "0 \<le> gap bl"
    using wf by (auto simp: block_wf_def intro: datasum_nonneg_wf lensum_nonneg)
  have len: "block_len bl = gap bl + dataLen bl"
    using Cons.prems(4) nn by (intro block_len_wf wf) simp
  have dl: "nat (dataLen bl) \<le> length d" using Cons.prems(3) nn by simp
  show ?case
  proof (cases "n < block_len bl")
    case True
    have "gap bl \<le> maxint" using Cons.prems(4) nn by simp
    from discard_ref_inside [OF Cons.prems(1) wf len dl this Cons.prems(5) True] show ?thesis by simp
  next
    case False
    have "gint (n - block_len bl) = n - block_len bl"
      using False Cons.prems(5,6) nn len by (intro gint_id int64I) (auto simp: maxint_def)
    then have "discard_ref bs (drop (nat (dataLen bl)) d) (n - block_len bl) = (bs', d', left)"
      using Cons.prems(1) False by simp
    moreover have "datasum bs = int (length (drop (nat (dataLen bl)) d))"
      using Cons.prems(3) nn by simp
    ultimately have IH: "blocks_stream bs' d' =
        drop (nat (n - block_len bl)) (blocks_stream bs (drop (nat (dataLen bl)) d)) \<and>
        (\<forall>bl\<in>set bs'. block_wf bl) \<and>
        (if bs' = [] then left = (n - block_len bl) - lensum bs \<and> 0 \<le> left
         else lensum bs' = lensum bs - (n - block_len bl))"
      using Cons.prems False nn wf(2) len by (intro Cons.IH) auto
    have "nat n = nat (gap bl) + nat (dataLen bl) + nat (n - block_len bl)"
      using False nn len by simp
    with dl have "drop (nat n) (blocks_stream (bl # bs) d) =
        drop (nat (n - block_len bl)) (blocks_stream bs (drop (nat (dataLen bl)) d))"
      by simp
    with IH len show ?thesis by (auto split: if_splits)
  qed
qed

text \<open>
  The abstract specification: everything written so far and how far the reader has advanced.
  The cursor may be ahead of the data: that is a pending discard.
\<close>

record cursor =
  seen :: "byte option list"
  pos :: nat

definition pending :: "cursor \<Rightarrow> byte option list" where
  "pending c = drop (pos c) (seen c)"

definition chunk_stream :: "int \<Rightarrow> byte list \<Rightarrow> byte option list" where
  "chunk_stream skip data = replicate (nat skip) None @ map Some data"

definition feed :: "cursor \<Rightarrow> int \<Rightarrow> byte list \<Rightarrow> cursor" where
  "feed c skip data = c\<lparr>seen := seen c @ chunk_stream skip data\<rparr>"

definition advance :: "cursor \<Rightarrow> nat \<Rightarrow> cursor" where
  "advance c n = c\<lparr>pos := pos c + n\<rparr>"

definition received :: "byte option list \<Rightarrow> byte list" where
  "received s = map the (filter (\<lambda>x. x \<noteq> None) s)"

definition refines :: "Buffer \<Rightarrow> cursor \<Rightarrow> bool" where
  "refines b c \<longleftrightarrow> buf_wf b \<and> buf_stream b = pending c \<and> bdiscard b = int (pos c) - int (length (seen c)) + int (length (pending c))"

lemma length_pending: "int (length (pending c)) = max 0 (int (length (seen c)) - int (pos c))"
  by (simp add: pending_def)

lemma refines_bdiscard: "refines b c \<Longrightarrow> bdiscard b = max 0 (int (pos c) - int (length (seen c)))"
  by (simp add: refines_def length_pending)

lemma refines_safe: "refines b c \<Longrightarrow> buf_safe b"
  by (simp add: refines_def buf_wf_def)

lemma buf_wf_blen: "buf_wf b \<Longrightarrow> blen b = int (length (buf_stream b))"
  by (simp add: buf_wf_def buf_stream_def length_blocks_stream buf_safe_def)

lemma refines_blen: "refines b c \<Longrightarrow> blen b = int (length (pending c))"
  by (simp add: refines_def buf_wf_blen)

lemma blocks_stream_received:
  "\<lbrakk> \<forall>bl\<in>set bs. block_wf bl; datasum bs = int (length d) \<rbrakk> \<Longrightarrow> received (blocks_stream bs d) = d"
proof (induction bs arbitrary: d)
  case (Cons bl bs)
  then have "0 \<le> datasum bs" "0 \<le> dataLen bl"
    by (auto simp: block_wf_def datasum_nonneg_wf)
  with Cons.prems Cons.IH [of "drop (nat (dataLen bl)) d"] show ?case
    by (simp add: received_def comp_def)
qed (simp add: received_def)

lemma refines_buf: "refines b c \<Longrightarrow> buf b = received (pending c)"
  using blocks_stream_received [of "blocks b" "buf b"]
  by (simp add: refines_def buf_wf_def buf_safe_def buf_stream_def)

lemma refines_NewBuffer: "\<lbrakk> 0 \<le> cap; cap < maxcap \<rbrakk> \<Longrightarrow> refines (NewBuffer cap) \<lparr>seen = [], pos = 0\<rparr>"
  by (simp add: refines_def buf_wf_def buf_safe_NewBuffer buf_stream_def pending_def)
    (simp add: NewBuffer_def maxint_def)

lemma refines_Reset: "refines b c \<Longrightarrow> refines (Buffer_Reset b) \<lparr>seen = [], pos = 0\<rparr>"
  using buf_safe_Reset [of b]
  by (simp add: refines_def buf_wf_def buf_stream_def pending_def)
    (simp add: Buffer_Reset_def maxint_def)

lemma Buffer_Discard_refines:
  assumes "refines b c" and "0 \<le> n" and "bdiscard b + n \<le> maxint"
  shows "\<exists>b'. Buffer_Discard b n = Some b' \<and> refines b' (advance c (nat n)) \<and> bcap b' = bcap b"
proof -
  note safe = refines_safe [OF assms(1)]
  obtain bs' d' left where r: "discard_ref (blocks b) (buf b) n = (bs', d', left)"
    by (metis prod_cases3)
  have wf: "\<forall>bl\<in>set (blocks b). block_wf bl" "blen b = lensum (blocks b)" "blen b \<le> maxint"
    "0 \<le> bdiscard b" "buf_stream b = pending c" "bdiscard b \<noteq> 0 \<longrightarrow> blocks b = []"
    using assms(1) by (auto simp: refines_def buf_wf_def buf_safe_def)
  note s = discard_ref_stream [OF r wf(1) buf_safe_blocks(3) [OF safe]]
  obtain b' where b': "Buffer_Discard b n = Some b'" "buf_safe b'" "bcap b' = bcap b"
    using Buffer_Discard_safe [OF safe] by blast
  have str: "blocks_stream bs' d' = drop (nat n) (buf_stream b)" "\<forall>bl\<in>set bs'. block_wf bl"
    "if bs' = [] then left = n - blen b \<and> 0 \<le> left else lensum bs' = blen b - n"
    using s wf assms(2,3) by (auto simp: buf_stream_def)
  have pend: "pending (advance c (nat n)) = drop (nat n) (pending c)"
    by (simp add: pending_def advance_def add.commute)
  have "gint (bdiscard b + left) = bdiscard b + left" if "bs' = []"
    using that str(3) wf assms refines_blen [OF assms(1)]
    by (intro gint_id int64I) (auto simp: maxint_def)
  moreover have "gint (blen b - n) = blen b - n"
    using wf assms refines_blen [OF assms(1)] by (intro gint_id int64I) (auto simp: maxint_def)
  ultimately have eq: "b' = (if bs' = [] then b\<lparr>buf := [], blen := 0, blocks := [], bdiscard := bdiscard b + left\<rparr>
      else b\<lparr>buf := d', blocks := bs', blen := lensum bs'\<rparr>)"
    using b'(1) str(3) by (auto simp: Buffer_Discard_ref [OF safe] r)
  have stream': "buf_stream b' = pending (advance c (nat n))"
    using eq str(1) wf(5) pend by (auto simp: buf_stream_def split: if_splits)
  have "buf_wf b'"
    using eq b'(2) str(2,3) wf assms(2)
    by (auto simp: buf_wf_def maxint_def split: if_splits)
  moreover have "bdiscard b' = max 0 (int (pos c + nat n) - int (length (seen c)))"
  proof (cases "bs' = []")
    case True
    then show ?thesis
      using eq str(3) refines_blen [OF assms(1)] refines_bdiscard [OF assms(1)] length_pending [of c] assms(2)
      by (auto simp: max_def)
  next
    case False
    then have "blocks b \<noteq> []" using r by auto
    with False show ?thesis
      using eq str(3) wf(6) refines_blen [OF assms(1)] refines_bdiscard [OF assms(1)] length_pending [of c]
        assms(2) lensum_nonneg [OF str(2)] by (auto simp: max_def split: if_splits)
  qed
  ultimately have "refines b' (advance c (nat n))"
    using stream' length_pending [of "advance c (nat n)"]
    by (simp add: refines_def advance_def)
  with b' show ?thesis by blast
qed

lemma blocks_stream_append:
  "\<lbrakk> \<forall>bl\<in>set bs. block_wf bl; datasum bs = int (length d) \<rbrakk>
   \<Longrightarrow> blocks_stream (bs @ cs) (d @ e) = blocks_stream bs d @ blocks_stream cs e"
proof (induction bs arbitrary: d)
  case (Cons bl bs)
  then have "0 \<le> datasum bs" "0 \<le> dataLen bl"
    by (auto simp: block_wf_def datasum_nonneg_wf)
  with Cons.prems have "nat (dataLen bl) \<le> length d" by simp
  with Cons.prems Cons.IH [of "drop (nat (dataLen bl)) d"] \<open>0 \<le> dataLen bl\<close> show ?case
    by simp
qed simp

lemma store_chunk_stream:
  assumes "buf_wf b" and "0 \<le> s" and "0 < s + int (length data)"
    and "int (length (buf b)) + int (length data) \<le> bcap b" and "blen b + s + int (length data) \<le> maxint"
  shows "buf_wf (store_chunk b s data) \<and> buf_stream (store_chunk b s data) = buf_stream b @ chunk_stream s data"
proof -
  have safe: "buf_safe b" and wf: "\<forall>bl\<in>set (blocks b). block_wf bl" "blen b = lensum (blocks b)"
    using assms(1) by (auto simp: buf_wf_def)
  have nn: "0 \<le> blen b" using wf lensum_nonneg by simp
  have s64: "int64 s" using assms nn by (intro int64I) (auto simp: maxint_def)
  then have safe': "buf_safe (store_chunk b s data)"
    by (intro buf_safe_store_chunk) (use safe assms in auto)
  have len: "gint (blen b + (s + int (length data))) = blen b + s + int (length data)"
    using assms nn by (subst gint_id) (auto simp: int64_def maxint_def)
  note ds = buf_safe_blocks(3) [OF safe]
  show ?thesis
  proof (cases "s = 0 \<and> blocks b \<noteq> []")
    case False
    with wf ds safe' len assms blocks_stream_append [of "blocks b" "buf b" "[\<lparr>gap = s, dataLen = int (length data)\<rparr>]" data]
    show ?thesis
      by (auto simp: buf_wf_def store_chunk_def buf_stream_def chunk_stream_def block_wf_def)
  next
    case True
    then obtain bs bl where bs: "blocks b = bs @ [bl]" by (metis append_butlast_last_id)
    have n2: "0 \<le> datasum bs" "0 \<le> dataLen bl" "0 \<le> gap bl"
      using wf bs by (auto simp: block_wf_def intro: datasum_nonneg_wf)
    then have dl: "gint (dataLen bl + int (length data)) = dataLen bl + int (length data)"
      using ds bs buf_safe_blocks(6) [OF safe] assms(4) by (intro gint_id int64I) (auto simp: maxcap_def)
    define d1 d2 where "d1 = take (nat (datasum bs)) (buf b)" and "d2 = drop (nat (datasum bs)) (buf b)"
    have d: "buf b = d1 @ d2" "datasum bs = int (length d1)" "dataLen bl = int (length d2)"
      using ds bs n2 by (auto simp: d1_def d2_def)
    have "blocks_stream (bs @ [bl\<lparr>dataLen := dataLen bl + int (length data)\<rparr>]) (buf b @ data) =
        blocks_stream (bs @ [bl]) (buf b) @ map Some data"
      using wf bs d blocks_stream_append [of bs d1] by simp
    with True bs wf safe' len dl assms n2 show ?thesis
      by (auto simp: buf_wf_def store_chunk_def buf_stream_def chunk_stream_def block_wf_def)
  qed
qed

lemma pending_feed:
  "pending (feed c skip data) = pending c @ drop (pos c - length (seen c)) (chunk_stream skip data)"
  by (simp add: pending_def feed_def)

lemma drop_chunk_stream:
  "int k \<le> s \<Longrightarrow> drop k (chunk_stream s data) = chunk_stream (s - int k) data"
  "\<lbrakk> 0 \<le> s; s \<le> int k \<rbrakk> \<Longrightarrow> drop k (chunk_stream s data) = chunk_stream 0 (drop (k - nat s) data)"
  by (simp_all add: chunk_stream_def drop_map nat_diff_distrib)

lemma received_append [simp]: "received (s @ t) = received s @ received t"
  by (simp add: received_def)

lemma received_chunk_stream [simp]: "received (chunk_stream s data) = data"
  by (simp add: received_def chunk_stream_def comp_def)

lemma Write_store_refines:
  assumes "refines b c" and "bdiscard b = int (pos c - length (seen c))"
    and "drop (pos c - length (seen c)) (chunk_stream skip data) = chunk_stream s' data'"
    and "0 \<le> s'" and "0 < s' + int (length data')" and "int (length data') < maxcap"
    and "blen b + s' + int (length data') \<le> maxint"
  shows "if int (length (received (pending (feed c skip data)))) \<le> bcap b
    then \<exists>b'. Write_store b s' data' = (b', None) \<and> refines b' (feed c skip data) \<and> bcap b' = bcap b
    else Write_store b s' data' = (b, Some ErrShortWrite)"
proof -
  have "pending (feed c skip data) = pending c @ chunk_stream s' data'"
    by (simp add: pending_feed assms(3))
  moreover have "length (seen (feed c skip data)) \<ge> pos (feed c skip data)"
  proof -
    have "int (length (drop (pos c - length (seen c)) (chunk_stream skip data))) = s' + int (length data')"
      using assms(3,4) by (simp add: chunk_stream_def)
    with assms(5) show ?thesis by (simp add: feed_def chunk_stream_def)
  qed
  then have "0 = int (pos (feed c skip data)) - int (length (seen (feed c skip data))) + int (length (pending (feed c skip data)))"
    by (simp add: length_pending)
  moreover note store_chunk_stream [of b s' data']
  ultimately show ?thesis
    using assms refines_buf [OF assms(1)]
    by (auto simp: Write_store_eq [OF refines_safe [OF assms(1)] assms(6)] refines_def store_chunk_def)
qed

lemma Buffer_Write_refines:
  assumes "refines b c" and "chunk_ok skip data" and "blen b + max 0 skip + int (length data) \<le> maxint"
  shows "if int (length (received (pending (feed c skip data)))) \<le> bcap b
    then \<exists>b'. Buffer_Write b skip data = Some (b', None) \<and> refines b' (feed c skip data) \<and> bcap b' = bcap b
    else Buffer_Write b skip data = Some (b, Some ErrShortWrite)"
proof -
  note safe = refines_safe [OF assms(1)]
  define s where "s = max 0 skip"
  note eq = Buffer_Write_eq [OF safe assms(2), folded s_def]
  have s: "0 \<le> s" "nat skip = nat s" by (auto simp: s_def)
  have d: "bdiscard b = int (pos c - length (seen c))"
    using refines_bdiscard [OF assms(1)] by (simp add: max_def of_nat_diff)
  define k where "k = pos c - length (seen c)"
  have cs: "chunk_stream skip data = chunk_stream s data" by (simp add: chunk_stream_def s)
  note dn = d [folded k_def] and st = Write_store_refines [OF assms(1) d, of skip data, folded k_def]
  have b0: "0 \<le> blen b" using refines_blen [OF assms(1)] by simp
  consider "bdiscard b \<ge> s + int (length data)"
    | "\<not> bdiscard b \<ge> s + int (length data)" "s \<ge> bdiscard b"
    | "\<not> bdiscard b \<ge> s + int (length data)" "\<not> s \<ge> bdiscard b" by blast
  then show ?thesis
  proof cases
    case 1
    then have "drop k (chunk_stream skip data) = []"
      using dn s by (simp add: chunk_stream_def)
    then have p: "pending (feed c skip data) = pending c" by (simp add: pending_feed k_def)
    have "bdiscard b - s - int (length data) = max 0 (int (pos c) - int (length (seen (feed c skip data))))"
      using 1 dn s by (simp add: feed_def chunk_stream_def k_def)
    moreover have "buf_wf (b\<lparr>bdiscard := bdiscard b - s - int (length data)\<rparr>)"
      using assms(1) 1 s by (auto simp: refines_def buf_wf_def buf_safe_def int64_def)
    ultimately have "refines (b\<lparr>bdiscard := bdiscard b - s - int (length data)\<rparr>) (feed c skip data)"
      using assms(1) p length_pending [of "feed c skip data"]
      by (simp add: refines_def buf_stream_def) (simp add: feed_def)
    moreover have "int (length (received (pending c))) \<le> bcap b"
      using buf_safe_blocks(5) [OF safe] refines_buf [OF assms(1)] by simp
    ultimately show ?thesis using 1 eq p by simp
  next
    case 2
    have "gint (s - bdiscard b) = s - bdiscard b"
      using 2 dn assms(3) b0 by (intro gint_id int64I) (auto simp: maxint_def s_def)
    moreover have "drop k (chunk_stream skip data) = chunk_stream (s - bdiscard b) data"
      using 2 dn by (simp add: cs drop_chunk_stream)
    ultimately show ?thesis
      using st [of "s - bdiscard b" data] 2 eq dn assms(2,3) s(1)
      by (simp add: chunk_ok_def s_def [symmetric] split: if_splits)
  next
    case 3
    define j where "j = nat (bdiscard b - s)"
    have j: "int j = bdiscard b - s" "k - nat s = j" "j < length data" using 3 dn s by (auto simp: j_def)
    have "drop k (chunk_stream skip data) = chunk_stream 0 (drop j data)"
      using 3 dn s(1) j(2) by (simp add: cs drop_chunk_stream)
    moreover have "Buffer_Write b skip data = Some (Write_store b 0 (drop j data))"
      using 3 eq by (simp add: j_def)
    moreover have "blen b + int (length (drop j data)) \<le> maxint"
      using assms(3) s(1) by (simp add: s_def [symmetric])
    ultimately show ?thesis
      using st [of 0 "drop j data"] assms(2) j(3) by (simp add: chunk_ok_def)
  qed
qed

end
