(* ===== verification/StreamRefinement.thy ===== *)
theory StreamRefinement
  imports StreamBuffer
begin

text \<open>
  The reading methods of \<^verbatim>\<open>assembly/reader/buffer.go\<close> against the stream with a cursor that
  \<^theory_text>\<open>StreamBuffer\<close> introduces: what each of them returns and how far it advances.
\<close>

section \<open>The bytes that can be read at once\<close>

definition ready :: "cursor \<Rightarrow> byte list" where
  "ready c = map the (takeWhile (\<lambda>x. x \<noteq> None) (pending c))"

lemma takeWhile_prefix:
  "takeWhile (\<lambda>x. x \<noteq> None) (map Some d @ replicate g None @ rest) =
     map Some d @ (if g = 0 then takeWhile (\<lambda>x. x \<noteq> None) rest else [])"
  by (induction d) (auto simp: takeWhile_replicate Suc_le_eq gr0_conv_Suc)

lemma contiguous_stream:
  assumes "buf_wf b" and "contiguousAvailable b = (avail, g)"
  shows "\<exists>rest. buf_stream b = map Some (take (nat avail) (buf b)) @ replicate (nat g) None @ rest \<and>
    0 \<le> g \<and> (g = 0 \<longrightarrow> rest = [])"
proof -
  have safe: "buf_safe b" and wf: "\<forall>bl\<in>set (blocks b). block_wf bl"
    using assms(1) by (auto simp: buf_wf_def)
  show ?thesis
  proof (cases "blocks b")
    case Nil
    with assms(2) show ?thesis by (simp add: contiguousAvailable_eq [OF safe] buf_stream_def)
  next
    case (Cons bl bs)
    show ?thesis
    proof (cases "gap bl > 0")
      case True
      with Cons assms(2) show ?thesis by (auto simp: contiguousAvailable_eq [OF safe] buf_stream_def)
    next
      case False
      with wf Cons have "gap bl = 0" by (simp add: block_wf_def)
      with Cons assms(2) buf_safe_blocks(2) [OF safe] show ?thesis
        by (cases bs) (auto simp: contiguousAvailable_eq [OF safe] buf_stream_def)
    qed
  qed
qed

text \<open>All that the readers need to know about what is pending: the bytes at hand, the reported
  gap and what lies behind it.\<close>

lemma refines_ready:
  assumes "refines b c" and "contiguousAvailable b = (avail, g)"
  shows "\<exists>rest. pending c = map Some (ready c) @ replicate (nat g) None @ rest \<and>
    (g = 0 \<longrightarrow> rest = []) \<and> 0 \<le> g \<and> avail = int (length (ready c)) \<and> take (nat avail) (buf b) = ready c"
proof -
  have wf: "buf_wf b" and p: "pending c = buf_stream b" using assms(1) by (auto simp: refines_def)
  obtain rest where r: "buf_stream b = map Some (take (nat avail) (buf b)) @ replicate (nat g) None @ rest"
    "0 \<le> g" "g = 0 \<longrightarrow> rest = []"
    using contiguous_stream [OF wf assms(2)] by blast
  note bnds = contiguousAvailable_bounds [OF refines_safe [OF assms(1)] assms(2)]
  have "takeWhile (\<lambda>x. x \<noteq> None) (buf_stream b) = map Some (take (nat avail) (buf b))"
    unfolding r(1) takeWhile_prefix using r(2,3) by auto
  then have "ready c = take (nat avail) (buf b)"
    by (simp add: ready_def p comp_def)
  with r p bnds show ?thesis by auto
qed

lemma ready_le_pending: "length (ready c) \<le> length (pending c)"
  by (simp add: ready_def length_takeWhile_le)

section \<open>Reads\<close>

lemma Buffer_ReadN_refines:
  assumes "refines b c" and "0 < n" and "blen b < maxint"
  shows "if int (length (pending c)) < n then Buffer_ReadN b n = Some (([], Some ErrShortRead), b)
    else if n \<le> int (length (ready c))
    then \<exists>b'. Buffer_ReadN b n = Some ((take (nat n) (ready c), None), b') \<and> refines b' (advance c (nat n)) \<and> bcap b' = bcap b
    else \<exists>b' g. Buffer_ReadN b n = Some ((ready c, Some (ErrLostData g)), b') \<and> 0 < g \<and>
           take (nat g) (drop (length (ready c)) (pending c)) = replicate (nat g) None \<and>
           refines b' (advance c (length (ready c) + nat g)) \<and> bcap b' = bcap b"
proof -
  obtain avail g where c: "contiguousAvailable b = (avail, g)" by force
  note bnds = contiguousAvailable_bounds [OF refines_safe [OF assms(1)] c]
  obtain rest where p: "pending c = map Some (ready c) @ replicate (nat g) None @ rest"
    "g = 0 \<longrightarrow> rest = []" "0 \<le> g" "avail = int (length (ready c))" "take (nat avail) (buf b) = ready c"
    using refines_ready [OF assms(1) c] by blast
  have len: "blen b = int (length (pending c))" by (rule refines_blen [OF assms(1)])
  have dz: "bdiscard b = 0" if "blen b > 0"
    using assms(1) that by (auto simp: refines_def buf_wf_def buf_safe_def)
  consider "int (length (pending c)) < n" | "\<not> int (length (pending c)) < n" "n \<le> avail"
    | "\<not> int (length (pending c)) < n" "\<not> n \<le> avail" by blast
  then show ?thesis
  proof cases
    case 1
    then show ?thesis by (simp add: Buffer_ReadN_def len)
  next
    case 2
    have "blen b > 0" using 2(1) assms(2) len by linarith
    with 2 len dz assms(3) have "bdiscard b + n \<le> maxint" by simp
    from Buffer_Discard_refines [OF assms(1) _ this] assms(2)
    obtain b' where "Buffer_Discard b n = Some b'" "refines b' (advance c (nat n))" "bcap b' = bcap b" by auto
    moreover have "take (nat n) (buf b) = take (nat n) (ready c)"
      using p(5) 2(2) by (metis min.absorb1 nat_mono take_take)
    ultimately show ?thesis using 2 bnds p(4) assms(2) by (simp add: Buffer_ReadN_def len c)
  next
    case 3
    then have g: "0 < g" using p by (cases "g = 0") auto
    have ag: "avail + g \<le> int (length (pending c))" using p by simp
    moreover have "bdiscard b = 0" using ag g len bnds(1) by (intro dz) linarith
    ultimately have "gint (avail + g) = avail + g" and "bdiscard b + (avail + g) \<le> maxint"
      using len assms(3) bnds(1) g by (auto simp: maxint_def int64_def intro!: gint_id)
    with Buffer_Discard_refines [OF assms(1), of "avail + g"] bnds g
    obtain b' where "Buffer_Discard b (gint (avail + g)) = Some b'" "refines b' (advance c (nat (avail + g)))"
      "bcap b' = bcap b" by auto
    moreover have "nat (avail + g) = length (ready c) + nat g" using p(3,4) by simp
    ultimately show ?thesis using 3 bnds p g by (simp add: Buffer_ReadN_def len c)
  qed
qed

lemma Buffer_PeekN_refines:
  assumes "refines b c" and "0 < n"
  shows "if int (length (pending c)) < n then Buffer_PeekN b n = Some ([], Some ErrShortRead)
    else if n \<le> int (length (ready c)) then Buffer_PeekN b n = Some (take (nat n) (ready c), None)
    else \<exists>g. Buffer_PeekN b n = Some (ready c, Some (ErrLostData g)) \<and> 0 < g"
proof -
  obtain avail g where c: "contiguousAvailable b = (avail, g)" by force
  note bnds = contiguousAvailable_bounds [OF refines_safe [OF assms(1)] c]
  obtain rest where p: "pending c = map Some (ready c) @ replicate (nat g) None @ rest"
    "g = 0 \<longrightarrow> rest = []" "0 \<le> g" "avail = int (length (ready c))" "take (nat avail) (buf b) = ready c"
    using refines_ready [OF assms(1) c] by blast
  have len: "blen b = int (length (pending c))" by (rule refines_blen [OF assms(1)])
  have "take (nat n) (buf b) = take (nat n) (ready c)" if "n \<le> avail"
    using p(5) that by (metis min.absorb1 nat_mono take_take)
  moreover have "0 < g" if "\<not> int (length (pending c)) < n" "\<not> n \<le> avail"
    using p that by (cases "g = 0") auto
  ultimately show ?thesis using bnds p(4,5) assms(2) by (auto simp: Buffer_PeekN_def len c)
qed

lemma find_index_takeWhile:
  "find_index P xs = (if \<exists>x\<in>set xs. P x then Some (length (takeWhile (\<lambda>x. \<not> P x) xs)) else None)"
  by (induction xs) auto

lemma take_length_takeWhile: "take (length (takeWhile P xs)) xs = takeWhile P xs"
  by (metis takeWhile_eq_take)

lemma length_takeWhile_less_mem: "\<lbrakk> x \<in> set xs; \<not> P x \<rbrakk> \<Longrightarrow> length (takeWhile P xs) < length xs"
  by (induction xs) auto

lemma Buffer_IndexAny_refines:
  assumes "refines b c"
  shows "if \<exists>x\<in>set (ready c). x \<in> set cs
    then Buffer_IndexAny b cs = Some (int (length (takeWhile (\<lambda>x. x \<notin> set cs) (ready c))), None)
    else if length (ready c) = length (pending c) then Buffer_IndexAny b cs = Some (-1, Some ErrShortRead)
    else \<exists>g. Buffer_IndexAny b cs = Some (-1, Some (ErrLostData g)) \<and> 0 < g"
proof -
  obtain avail g where c: "contiguousAvailable b = (avail, g)" by force
  obtain rest where p: "pending c = map Some (ready c) @ replicate (nat g) None @ rest"
    "g = 0 \<longrightarrow> rest = []" "0 \<le> g" "avail = int (length (ready c))" "take (nat avail) (buf b) = ready c"
    using refines_ready [OF assms(1) c] by blast
  have len: "blen b = int (length (pending c))" by (rule refines_blen [OF assms(1)])
  have "0 < g" if "length (ready c) \<noteq> length (pending c)"
    using p that by (cases "g = 0") auto
  moreover have "Buffer_indexAny b cs = Some (bytes_IndexAny (ready c) cs, int (length (ready c)), g)"
    using Buffer_indexAny_total [OF refines_safe [OF assms] c] p(4,5) by simp
  ultimately show ?thesis
    using ready_le_pending [of c]
    by (auto simp: Buffer_IndexAny_def len bytes_IndexAny_def find_index_takeWhile)
qed

lemma Buffer_ReadLine_refines:
  assumes "refines b c" and "blen b < maxint"
  shows "if LF \<in> set (ready c)
    then \<exists>b'. Buffer_ReadLine b = Some ((trim_cr (takeWhile (\<lambda>x. x \<noteq> LF) (ready c)), None), b') \<and>
           refines b' (advance c (length (takeWhile (\<lambda>x. x \<noteq> LF) (ready c)) + 1)) \<and> bcap b' = bcap b
    else if length (ready c) = length (pending c)
    then Buffer_ReadLine b = Some (([], Some ErrShortRead), b)
    else \<exists>b' g. Buffer_ReadLine b = Some (([], Some (ErrLostData g)), b') \<and> 0 < g \<and>
           take (nat g) (drop (length (ready c)) (pending c)) = replicate (nat g) None \<and>
           refines b' (advance c (length (ready c) + nat g)) \<and> bcap b' = bcap b"
proof -
  obtain avail g where c: "contiguousAvailable b = (avail, g)" by force
  note bnds = contiguousAvailable_bounds [OF refines_safe [OF assms(1)] c]
  obtain rest where p: "pending c = map Some (ready c) @ replicate (nat g) None @ rest"
    "g = 0 \<longrightarrow> rest = []" "0 \<le> g" "avail = int (length (ready c))" "take (nat avail) (buf b) = ready c"
    using refines_ready [OF assms(1) c] by blast
  have len: "blen b = int (length (pending c))" by (rule refines_blen [OF assms(1)])
  have dz: "bdiscard b = 0" if "blen b > 0"
    using assms(1) that by (auto simp: refines_def buf_wf_def buf_safe_def)
  have i: "Buffer_indexAny b [LF] = Some (bytes_IndexAny (ready c) [LF], avail, g)"
    using Buffer_indexAny_total [OF refines_safe [OF assms(1)] c] p(5) by simp
  consider "LF \<in> set (ready c)" | "LF \<notin> set (ready c)" "length (ready c) = length (pending c)"
    | "LF \<notin> set (ready c)" "length (ready c) \<noteq> length (pending c)" by blast
  then show ?thesis
  proof cases
    case 1
    define k where "k = length (takeWhile (\<lambda>x. x \<noteq> LF) (ready c))"
    have k: "k < length (ready c)" unfolding k_def using 1 by (rule length_takeWhile_less_mem) simp
    have "bytes_IndexAny (ready c) [LF] = int k"
      using 1 by (simp add: bytes_IndexAny_def find_index_takeWhile k_def)
    moreover have pos: "blen b > 0" using k ready_le_pending [of c] len by linarith
    moreover have "gint (int k + 1) = int k + 1" "bdiscard b + (int k + 1) \<le> maxint"
      using k bnds p(4) dz pos by (auto simp: maxint_def maxcap_def int64_def intro!: gint_id)
    moreover from this(2) Buffer_Discard_refines [OF assms(1), of "int k + 1"]
    obtain b' where "Buffer_Discard b (int k + 1) = Some b'" "refines b' (advance c (nat (int k + 1)))"
      "bcap b' = bcap b" by auto
    moreover have "take k (buf b) = takeWhile (\<lambda>x. x \<noteq> LF) (ready c)"
      using k p(4,5) take_length_takeWhile [of "\<lambda>x. x \<noteq> LF" "ready c", folded k_def]
      by (metis less_or_eq_imp_le min.absorb1 nat_int take_take)
    moreover have "int k \<le> int (length (buf b))" using k p(4) bnds by simp
    moreover have "nat (int k + 1) = k + 1" by simp
    ultimately show ?thesis using 1 by (simp add: Buffer_ReadLine_def i k_def [symmetric])
  next
    case 2
    then have "bytes_IndexAny (ready c) [LF] = -1"
      by (simp add: bytes_IndexAny_def find_index_takeWhile)
    with 2 p(4) len show ?thesis by (simp add: Buffer_ReadLine_def i)
  next
    case 3
    then have "bytes_IndexAny (ready c) [LF] = -1"
      by (simp add: bytes_IndexAny_def find_index_takeWhile)
    moreover have g: "0 < g" using 3 p by (cases "g = 0") auto
    moreover have ag: "avail + g \<le> int (length (pending c))" using p by simp
    moreover have "bdiscard b = 0" using ag g len bnds(1) by (intro dz) linarith
    ultimately have "gint (avail + g) = avail + g" "bdiscard b + (avail + g) \<le> maxint"
      using len assms(2) bnds(1) by (auto simp: maxint_def int64_def intro!: gint_id)
    with Buffer_Discard_refines [OF assms(1), of "avail + g"] bnds g
    obtain b' where "Buffer_Discard b (gint (avail + g)) = Some b'" "refines b' (advance c (nat (avail + g)))"
      "bcap b' = bcap b" by auto
    moreover have "nat (avail + g) = length (ready c) + nat g" using p(3,4) by simp
    ultimately show ?thesis
      using 3 p g \<open>bytes_IndexAny (ready c) [LF] = -1\<close> ready_le_pending [of c]
      by (simp add: Buffer_ReadLine_def i len)
  qed
qed

section \<open>The buffer simulates the stream\<close>

text \<open>The calls a client can make, and what they answer.\<close>

datatype buf_op =
    OpWrite int "byte list" | OpDiscard int | OpReadN int | OpPeekN int | OpIndexAny string | OpReadLine | OpReset

datatype buf_out = OutErr "go_error option" | OutBytes "byte list" "go_error option" | OutPos int "go_error option"

fun buf_step :: "Buffer \<Rightarrow> buf_op \<Rightarrow> (buf_out \<times> Buffer) option" where
  "buf_step b (OpWrite skip data) = do { (b, err) \<leftarrow> Buffer_Write b skip data; Some (OutErr err, b) }"
| "buf_step b (OpDiscard n) = do { b \<leftarrow> Buffer_Discard b n; Some (OutErr None, b) }"
| "buf_step b (OpReadN n) = do { ((out, err), b) \<leftarrow> Buffer_ReadN b n; Some (OutBytes out err, b) }"
| "buf_step b (OpPeekN n) = do { (out, err) \<leftarrow> Buffer_PeekN b n; Some (OutBytes out err, b) }"
| "buf_step b (OpIndexAny cs) = do { (p, err) \<leftarrow> Buffer_IndexAny b cs; Some (OutPos p err, b) }"
| "buf_step b OpReadLine = do { ((out, err), b) \<leftarrow> Buffer_ReadLine b; Some (OutBytes out err, b) }"
| "buf_step b OpReset = Some (OutErr None, Buffer_Reset b)"

fun buf_run :: "Buffer \<Rightarrow> buf_op list \<Rightarrow> (buf_out list \<times> Buffer) option" where
  "buf_run b [] = Some ([], b)"
| "buf_run b (x # xs) =
     do { (out, b) \<leftarrow> buf_step b x; (outs, b) \<leftarrow> buf_run b xs; Some (out # outs, b) }"

text \<open>
  The specification: a cursor over a stream of bytes and holes.  Reads deliver the bytes at the cursor, a read
  that hits a hole reports (part of) it, a write beyond the capacity is refused.
\<close>

definition hole :: "cursor \<Rightarrow> int \<Rightarrow> bool" where
  "hole c g \<longleftrightarrow> 0 < g \<and> take (nat g) (drop (length (ready c)) (pending c)) = replicate (nat g) None"

definition fits :: "int \<Rightarrow> cursor \<Rightarrow> bool" where
  "fits cap c \<longleftrightarrow> int (length (received (pending c))) \<le> cap"

definition first_line :: "cursor \<Rightarrow> byte list" where
  "first_line c = takeWhile (\<lambda>x. x \<noteq> LF) (ready c)"

inductive stream_step :: "int \<Rightarrow> cursor \<Rightarrow> buf_op \<Rightarrow> buf_out \<Rightarrow> cursor \<Rightarrow> bool" for cap :: int where
  store: "fits cap (feed c skip data) \<Longrightarrow> stream_step cap c (OpWrite skip data) (OutErr None) (feed c skip data)"
| refuse: "\<not> fits cap (feed c skip data) \<Longrightarrow> stream_step cap c (OpWrite skip data) (OutErr (Some ErrShortWrite)) c"
| discard: "stream_step cap c (OpDiscard n) (OutErr None) (advance c (nat n))"
| readN_short: "int (length (pending c)) < n \<Longrightarrow> stream_step cap c (OpReadN n) (OutBytes [] (Some ErrShortRead)) c"
| readN: "n \<le> int (length (ready c)) \<Longrightarrow>
    stream_step cap c (OpReadN n) (OutBytes (take (nat n) (ready c)) None) (advance c (nat n))"
| readN_lost: "\<lbrakk> int (length (ready c)) < n; n \<le> int (length (pending c)); hole c g \<rbrakk> \<Longrightarrow>
    stream_step cap c (OpReadN n) (OutBytes (ready c) (Some (ErrLostData g))) (advance c (length (ready c) + nat g))"
| peekN_short: "int (length (pending c)) < n \<Longrightarrow> stream_step cap c (OpPeekN n) (OutBytes [] (Some ErrShortRead)) c"
| peekN: "n \<le> int (length (ready c)) \<Longrightarrow> stream_step cap c (OpPeekN n) (OutBytes (take (nat n) (ready c)) None) c"
| peekN_lost: "\<lbrakk> int (length (ready c)) < n; n \<le> int (length (pending c)); 0 < g \<rbrakk> \<Longrightarrow>
    stream_step cap c (OpPeekN n) (OutBytes (ready c) (Some (ErrLostData g))) c"
| index: "\<exists>x\<in>set (ready c). x \<in> set cs \<Longrightarrow>
    stream_step cap c (OpIndexAny cs) (OutPos (int (length (takeWhile (\<lambda>x. x \<notin> set cs) (ready c)))) None) c"
| index_short: "\<lbrakk> \<forall>x\<in>set (ready c). x \<notin> set cs; length (ready c) = length (pending c) \<rbrakk> \<Longrightarrow>
    stream_step cap c (OpIndexAny cs) (OutPos (-1) (Some ErrShortRead)) c"
| index_lost: "\<lbrakk> \<forall>x\<in>set (ready c). x \<notin> set cs; length (ready c) \<noteq> length (pending c); 0 < g \<rbrakk> \<Longrightarrow>
    stream_step cap c (OpIndexAny cs) (OutPos (-1) (Some (ErrLostData g))) c"
| line: "LF \<in> set (ready c) \<Longrightarrow>
    stream_step cap c OpReadLine (OutBytes (trim_cr (first_line c)) None) (advance c (length (first_line c) + 1))"
| line_short: "\<lbrakk> LF \<notin> set (ready c); length (ready c) = length (pending c) \<rbrakk> \<Longrightarrow>
    stream_step cap c OpReadLine (OutBytes [] (Some ErrShortRead)) c"
| line_lost: "\<lbrakk> LF \<notin> set (ready c); length (ready c) \<noteq> length (pending c); hole c g \<rbrakk> \<Longrightarrow>
    stream_step cap c OpReadLine (OutBytes [] (Some (ErrLostData g))) (advance c (length (ready c) + nat g))"
| reset: "stream_step cap c OpReset (OutErr None) \<lparr>seen = [], pos = 0\<rparr>"

inductive stream_run :: "int \<Rightarrow> cursor \<Rightarrow> buf_op list \<Rightarrow> buf_out list \<Rightarrow> cursor \<Rightarrow> bool" for cap :: int where
  stop: "stream_run cap c [] [] c"
| step: "\<lbrakk> stream_step cap c x out c1; stream_run cap c1 xs outs c2 \<rbrakk> \<Longrightarrow> stream_run cap c (x # xs) (out # outs) c2"

inductive_cases stream_run_ConsE: "stream_run cap c (x # xs) outs c'"

text \<open>Calls within the range of the 64-bit counters.\<close>

fun op_cost :: "buf_op \<Rightarrow> int" where
  "op_cost (OpWrite skip data) = max 0 skip + int (length data)"
| "op_cost (OpDiscard n) = n"
| "op_cost _ = 0"

fun op_ok :: "buf_op \<Rightarrow> bool" where
  "op_ok (OpWrite skip data) = chunk_ok skip data"
| "op_ok (OpDiscard n) = (0 \<le> n)"
| "op_ok (OpReadN n) = (0 < n)"
| "op_ok (OpPeekN n) = (0 < n)"
| "op_ok _ = True"

definition extent :: "cursor \<Rightarrow> int" where
  "extent c = max (int (length (seen c))) (int (pos c))"

lemma pending_extent: "int (length (pending c)) \<le> extent c"
  by (simp add: extent_def pending_def)

lemma extent_advance: "\<lbrakk> n \<le> length (pending c) \<rbrakk> \<Longrightarrow> extent (advance c n) = extent c"
  by (auto simp: extent_def advance_def pending_def)

lemma hole_bound: "hole c g \<Longrightarrow> length (ready c) + nat g \<le> length (pending c)"
proof -
  assume h: "hole c g"
  then have "length (take (nat g) (drop (length (ready c)) (pending c))) = nat g" by (simp add: hole_def)
  then have "nat g \<le> length (pending c) - length (ready c)" by (simp add: min_def split: if_splits)
  then show ?thesis using ready_le_pending [of c] by simp
qed

lemma first_line_bound: "LF \<in> set (ready c) \<Longrightarrow> length (first_line c) + 1 \<le> length (pending c)"
  using length_takeWhile_less_mem [of LF "ready c" "\<lambda>x. x \<noteq> LF"] ready_le_pending [of c] by (simp add: first_line_def)

lemma stream_step_extent: "\<lbrakk> stream_step cap c x out c'; op_ok x \<rbrakk> \<Longrightarrow> extent c' \<le> extent c + op_cost x"
proof (induction rule: stream_step.induct)
  case (store c skip data)
  then show ?case by (auto simp: extent_def feed_def chunk_stream_def)
next
  case (discard c n)
  then show ?case by (auto simp: extent_def advance_def)
next
  case (readN n c)
  then have "nat n \<le> length (pending c)" using ready_le_pending [of c] by simp
  then show ?case by (simp add: extent_advance)
next
  case (readN_lost c n g)
  then show ?case using hole_bound by (simp add: extent_advance)
next
  case (line_lost c g)
  then show ?case using hole_bound by (simp add: extent_advance)
next
  case (line c)
  then show ?case using first_line_bound by (simp add: extent_advance)
next
  case (reset c)
  show ?case by (simp add: extent_def)
qed simp_all

lemma buf_step_simulates:
  assumes "refines b c" and "op_ok x" and "extent c + op_cost x < maxint"
  shows "\<exists>out b' c'. buf_step b x = Some (out, b') \<and> stream_step (bcap b) c x out c' \<and> refines b' c' \<and> bcap b' = bcap b"
proof -
  have len: "blen b = int (length (pending c))" by (rule refines_blen [OF assms(1)])
  have dis: "bdiscard b = max 0 (int (pos c) - int (length (seen c)))" by (rule refines_bdiscard [OF assms(1)])
  have small: "blen b < maxint" if "op_cost x \<ge> 0" using that assms(3) len pending_extent [of c] by simp
  show ?thesis
  proof (cases x)
    case (OpWrite skip data)
    then have "blen b + max 0 skip + int (length data) \<le> maxint"
      using assms(3) len pending_extent [of c] by simp
    from Buffer_Write_refines [OF assms(1) _ this] OpWrite assms(1,2) show ?thesis
      by (cases "fits (bcap b) (feed c skip data)")
        (fastforce simp: fits_def [symmetric] intro: stream_step.store stream_step.refuse)+
  next
    case (OpDiscard n)
    then have "0 \<le> n" "bdiscard b + n \<le> maxint" using assms(2,3) dis by (auto simp: extent_def)
    from Buffer_Discard_refines [OF assms(1) this] OpDiscard show ?thesis
      by (fastforce intro: stream_step.discard)
  next
    case (OpReadN n)
    with Buffer_ReadN_refines [OF assms(1), of n] small assms(1,2) show ?thesis
      by (auto simp: not_less hole_def [symmetric] split: if_splits
          intro: stream_step.readN_short)
        (metis stream_step.readN, metis hole_def not_le stream_step.readN_lost)
  next
    case (OpPeekN n)
    with Buffer_PeekN_refines [OF assms(1), of n] assms(1,2) show ?thesis
      by (auto simp: not_less not_le split: if_splits intro: stream_step.peekN_short stream_step.peekN)
        (metis stream_step.peekN_lost)
  next
    case (OpIndexAny cs)
    with Buffer_IndexAny_refines [OF assms(1), of cs] assms(1) show ?thesis
      by (auto split: if_splits intro: stream_step.index stream_step.index_short)
        (metis stream_step.index_lost)
  next
    case OpReadLine
    with Buffer_ReadLine_refines [OF assms(1)] small assms(1) show ?thesis
      by (auto simp: first_line_def [symmetric] split: if_splits intro: stream_step.line_short)
        (metis stream_step.line Suc_eq_plus1, metis hole_def stream_step.line_lost)
  next
    case OpReset
    with refines_Reset [OF assms(1)] show ?thesis by (auto simp: Buffer_Reset_def intro: stream_step.reset)
  qed
qed

lemma buf_run_simulates:
  "\<lbrakk> refines b c; list_all op_ok xs; extent c + (\<Sum>x\<leftarrow>xs. op_cost x) < maxint; bcap b = cap \<rbrakk>
   \<Longrightarrow> \<exists>outs b' c'. buf_run b xs = Some (outs, b') \<and> stream_run cap c xs outs c' \<and> refines b' c'"
proof (induction xs arbitrary: b c)
  case Nil
  then show ?case by (auto intro: stream_run.stop)
next
  case (Cons x xs)
  have cost: "0 \<le> op_cost y" if "op_ok y" for y using that by (cases y) auto
  have "0 \<le> (\<Sum>x\<leftarrow>xs. op_cost x)" using Cons.prems(2) cost by (induction xs) auto
  with Cons.prems(3) have "extent c + op_cost x < maxint" by simp
  with buf_step_simulates [OF Cons.prems(1)] Cons.prems(2,4)
  obtain out b1 c1 where s: "buf_step b x = Some (out, b1)" "stream_step cap c x out c1" "refines b1 c1" "bcap b1 = cap"
    by fastforce
  have "extent c1 + (\<Sum>x\<leftarrow>xs. op_cost x) < maxint"
    using stream_step_extent [OF s(2)] Cons.prems(2,3) by simp
  from Cons.IH [OF s(3) _ this s(4)] Cons.prems(2) s(1,2) show ?case by (fastforce intro: stream_run.step)
qed

section \<open>Arbitrary calls\<close>

fun op_legal :: "buf_op \<Rightarrow> bool" where
  "op_legal (OpWrite skip data) = chunk_ok skip data"
| "op_legal (OpReadN n) = (0 < n)"
| "op_legal (OpPeekN n) = (0 \<le> n)"
| "op_legal _ = True"

lemma buf_step_safe:
  assumes "buf_safe b" and "op_legal x"
  shows "\<exists>out b'. buf_step b x = Some (out, b') \<and> buf_safe b' \<and> bcap b' = bcap b"
proof (cases x)
  case (OpWrite skip data)
  with Buffer_Write_safe [OF assms(1)] assms(2) show ?thesis by fastforce
next
  case (OpDiscard n)
  with Buffer_Discard_safe [OF assms(1), of n] show ?thesis by auto
next
  case (OpReadN n)
  with Buffer_ReadN_safe [OF assms(1), of n] assms(2) show ?thesis by fastforce
next
  case (OpPeekN n)
  with Buffer_PeekN_total [OF assms(1), of n] assms show ?thesis by auto
next
  case (OpIndexAny cs)
  with Buffer_IndexAny_total [OF assms(1), of cs] assms(1) show ?thesis by auto
next
  case OpReadLine
  with Buffer_ReadLine_safe [OF assms(1)] show ?thesis by fastforce
next
  case OpReset
  with buf_safe_Reset [OF assms(1)] show ?thesis by (simp add: Buffer_Reset_def)
qed

lemma buf_run_safe:
  "\<lbrakk> buf_safe b; list_all op_legal xs \<rbrakk> \<Longrightarrow> \<exists>outs b'. buf_run b xs = Some (outs, b') \<and> buf_safe b' \<and> bcap b' = bcap b"
proof (induction xs arbitrary: b)
  case (Cons x xs)
  then obtain out b1 where s: "buf_step b x = Some (out, b1)" "buf_safe b1" "bcap b1 = bcap b"
    using buf_step_safe [of b x] by auto
  with Cons.IH [OF s(2)] Cons.prems(2) show ?case by fastforce
qed simp

lemma buf_safe_validate: "buf_safe b \<Longrightarrow> validate b = Some ()"
  using totalData_loop_eq [OF buf_safe_blocks(1) order_refl, of b] buf_safe_blocks(3,4) [of b]
  by (simp add: validate_def totalData_def)

section \<open>Properties\<close>



text \<open>
  C10.  Memory safety without any assumption on the arguments of \<open>Discard\<close> (a peer chooses them, negative
  or overflowing): no sequence of calls panics, \<open>validate\<close> succeeds afterwards and the buffer stays within its
  capacity.
\<close>

theorem buffer_never_panics:
  assumes "0 \<le> cap" and "cap < maxcap" and "list_all op_legal xs"
  shows "\<exists>outs b'. buf_run (NewBuffer cap) xs = Some (outs, b') \<and> validate b' = Some () \<and> int (length (buf b')) \<le> cap"
proof -
  obtain outs b' where r: "buf_run (NewBuffer cap) xs = Some (outs, b')" "buf_safe b'" "bcap b' = cap"
    using buf_run_safe [OF buf_safe_NewBuffer [OF assms(1,2)] assms(3)] by (auto simp: NewBuffer_def)
  then show ?thesis using buf_safe_validate [OF r(2)] buf_safe_blocks(5) [OF r(2)] by simp
qed

theorem buffer_never_panics_witness:
  "\<exists>outs b'. buf_run (NewBuffer 4) [OpDiscard (-7), OpWrite 0 ''abcd'', OpWrite 0 ''e'', OpDiscard (-1), OpReadLine, OpReadN 3] =
     Some (outs, b') \<and> validate b' = Some () \<and> int (length (buf b')) \<le> 4"
  by (rule buffer_never_panics) (simp_all add: maxcap_def chunk_ok_def)

end
