(* ===== verification/StreamReader.thy ===== *)
theory StreamReader
  imports StreamRefinement
begin

text \<open>
  The reader of \<^verbatim>\<open>assembly/reader/reader.go\<close>, which feeds reassembled TCP data into a buffer, and the
  stand-in source of \<^verbatim>\<open>protocol/model/dummy.go\<close>.  A protocol consumer sees both through the interface
  \<open>ConsumerSource\<close> of \<^verbatim>\<open>protocol/model/consumer.go\<close>, stated here as the locale \<open>consumer_source\<close>.
\<close>

section \<open>The interface\<close>

text \<open>
  What a consumer may rely on: no call panics while the invariant holds, every call keeps it, no
  call adds bytes, and a successful read consumes at least one byte.
\<close>

locale consumer_source =
  fixes invar :: "'s \<Rightarrow> bool"
    and size_of :: "'s \<Rightarrow> nat"
    and readLine :: "'s \<Rightarrow> ((byte list \<times> go_error option) \<times> 's) option"
    and readN :: "'s \<Rightarrow> int \<Rightarrow> ((byte list \<times> go_error option) \<times> 's) option"
    and peekN :: "'s \<Rightarrow> int \<Rightarrow> (byte list \<times> go_error option) option"
    and indexAny :: "'s \<Rightarrow> string \<Rightarrow> (int \<times> go_error option) option"
    and discard :: "'s \<Rightarrow> int \<Rightarrow> ((int \<times> go_error option) \<times> 's) option"
    and truncate :: "'s \<Rightarrow> 's"
    and reset :: "'s \<Rightarrow> 's"
    and close :: "'s \<Rightarrow> 's"
  assumes readLine_ok: "invar s \<Longrightarrow> \<exists>out err s'. readLine s = Some ((out, err), s') \<and> invar s' \<and>
      size_of s' \<le> size_of s \<and> (err = None \<longrightarrow> size_of s' < size_of s)"
    and readN_ok: "\<lbrakk> invar s; 0 < n \<rbrakk> \<Longrightarrow> \<exists>out err s'. readN s n = Some ((out, err), s') \<and> invar s' \<and>
      size_of s' \<le> size_of s \<and> (err = None \<longrightarrow> length out = nat n \<and> size_of s' < size_of s)"
    and peekN_ok: "\<lbrakk> invar s; 0 \<le> n \<rbrakk> \<Longrightarrow> \<exists>out err. peekN s n = Some (out, err) \<and> (err = None \<longrightarrow> length out = nat n)"
    and indexAny_ok: "invar s \<Longrightarrow> \<exists>pos err. indexAny s cs = Some (pos, err) \<and> (err = None \<longrightarrow> 0 \<le> pos \<and> pos < maxcap)"
    and discard_ok: "invar s \<Longrightarrow> \<exists>n' err s'. discard s n = Some ((n', err), s') \<and> invar s' \<and> size_of s' \<le> size_of s"
    and truncate_ok: "invar s \<Longrightarrow> invar (truncate s) \<and> size_of (truncate s) \<le> size_of s"
    and reset_ok: "invar s \<Longrightarrow> invar (reset s) \<and> size_of (reset s) \<le> size_of s"
    and close_ok: "invar s \<Longrightarrow> invar (close s) \<and> size_of (close s) \<le> size_of s"
begin

text \<open>Reading up to and including a delimiter, the way the text protocol reads words.\<close>

lemma word_ok:
  assumes "invar s"
  shows "\<exists>out err s'. (do { (p, err) \<leftarrow> indexAny s cs;
      case err of Some e \<Rightarrow> Some (([], Some e), s) | None \<Rightarrow> readN s (gint (p + 1)) }) = Some ((out, err), s') \<and>
    invar s' \<and> size_of s' \<le> size_of s \<and> (err = None \<longrightarrow> out \<noteq> [] \<and> size_of s' < size_of s)"
proof -
  obtain p err where p: "indexAny s cs = Some (p, err)" "err = None \<longrightarrow> 0 \<le> p \<and> p < maxcap"
    using indexAny_ok [OF assms] by blast
  show ?thesis
  proof (cases err)
    case None
    with p have "gint (p + 1) = p + 1" "0 < p + 1"
      by (auto simp: maxcap_def int64_def intro!: gint_id)
    moreover from readN_ok [OF assms this(2)] obtain out err' s' where
      "readN s (p + 1) = Some ((out, err'), s')" "invar s'" "size_of s' \<le> size_of s"
      "err' = None \<longrightarrow> length out = nat (p + 1) \<and> size_of s' < size_of s" by blast
    ultimately show ?thesis using p None by (cases out) auto
  next
    case (Some e)
    with p assms show ?thesis by simp
  qed
qed

end

section \<open>The reader\<close>

record Reassembly =
  Bytes :: "byte list"
  Skip :: int
  Start :: bool
  End :: bool
  Seen :: int

record Reader =
  rbuf :: Buffer
  closed :: bool
  eof :: bool
  rerr :: "go_error option"

definition BufferSize :: int where
  "BufferSize = 32 * 1024"

definition Reader_New :: Reader where
  "Reader_New = \<lparr>rbuf = NewBuffer BufferSize, closed = False, eof = False, rerr = None\<rparr>"

fun Reassembled_loop :: "Reader \<Rightarrow> Reassembly list \<Rightarrow> Reader option" where
  "Reassembled_loop r [] = Some r"
| "Reassembled_loop r (x # rs) =
     do { (b, err) \<leftarrow> Buffer_Write (rbuf r) (Skip x) (Bytes x);
          let r = r\<lparr>rbuf := b\<rparr>;
          if err \<noteq> None then Some (r\<lparr>rerr := err\<rparr>) else Reassembled_loop r rs }"

definition Reader_Reassembled :: "Reader \<Rightarrow> Reassembly list \<Rightarrow> Reader option" where
  "Reader_Reassembled r rs = (if closed r \<or> rerr r \<noteq> None then Some r else Reassembled_loop r rs)"

definition Reader_ReassemblyComplete :: "Reader \<Rightarrow> Reader" where
  "Reader_ReassemblyComplete r = r\<lparr>eof := True\<rparr>"

definition Reader_Reset :: "Reader \<Rightarrow> Reader" where
  "Reader_Reset r = r\<lparr>rbuf := Buffer_Reset (rbuf r), closed := False, eof := False, rerr := None\<rparr>"

definition Reader_Truncate :: "Reader \<Rightarrow> Reader" where
  "Reader_Truncate r = r\<lparr>rbuf := Buffer_Reset (rbuf r)\<rparr>"

definition Reader_Discard :: "Reader \<Rightarrow> int \<Rightarrow> ((int \<times> go_error option) \<times> Reader) option" where
  "Reader_Discard r n =
     (if rerr r \<noteq> None then Some ((0, rerr r), r)
      else do { b \<leftarrow> Buffer_Discard (rbuf r) n; Some ((n, None), r\<lparr>rbuf := b\<rparr>) })"

text \<open>At the end of the stream a short read becomes \<open>io.ErrUnexpectedEOF\<close>.\<close>

definition eof_error :: "Reader \<Rightarrow> go_error option \<Rightarrow> go_error option" where
  "eof_error r err = (if err = Some ErrShortRead \<and> eof r then Some ErrUnexpectedEOF else err)"

definition Reader_ReadN :: "Reader \<Rightarrow> int \<Rightarrow> ((byte list \<times> go_error option) \<times> Reader) option" where
  "Reader_ReadN r n =
     (if rerr r \<noteq> None then Some (([], rerr r), r)
      else do { ((out, err), b) \<leftarrow> Buffer_ReadN (rbuf r) n;
                Some ((out, eof_error r err), r\<lparr>rbuf := b\<rparr>) })"

text \<open>\<open>Read(p)\<close> for a \<open>p\<close> of length \<open>l\<close>: the count, the error and the bytes copied into \<open>p\<close>.\<close>

definition Reader_Read :: "Reader \<Rightarrow> nat \<Rightarrow> ((nat \<times> go_error option \<times> byte list) \<times> Reader) option" where
  "Reader_Read r l =
     do { ((out, err), r) \<leftarrow> Reader_ReadN r (int l);
          let err = (if err = Some ErrShortRead then None else err);
          Some (if err \<noteq> None then ((0, err, []), r) else ((length out, err, out), r)) }"

definition Reader_IndexAny :: "Reader \<Rightarrow> string \<Rightarrow> (int \<times> go_error option) option" where
  "Reader_IndexAny r chars =
     (if rerr r \<noteq> None then Some (-1, rerr r)
      else do { (p, err) \<leftarrow> Buffer_IndexAny (rbuf r) chars; Some (p, eof_error r err) })"

definition Reader_PeekN :: "Reader \<Rightarrow> int \<Rightarrow> (byte list \<times> go_error option) option" where
  "Reader_PeekN r n =
     (if rerr r \<noteq> None then Some ([], rerr r)
      else do { (out, err) \<leftarrow> Buffer_PeekN (rbuf r) n; Some (out, eof_error r err) })"

definition Reader_ReadLine :: "Reader \<Rightarrow> ((byte list \<times> go_error option) \<times> Reader) option" where
  "Reader_ReadLine r =
     (if rerr r \<noteq> None then Some (([], rerr r), r)
      else do { ((out, err), b) \<leftarrow> Buffer_ReadLine (rbuf r);
                Some ((out, eof_error r err), r\<lparr>rbuf := b\<rparr>) })"

definition Reader_Close :: "Reader \<Rightarrow> Reader" where
  "Reader_Close r = r\<lparr>closed := True, rbuf := Buffer_Reset (rbuf r)\<rparr>"

section \<open>The dummy source\<close>

definition Dummy_Discard :: "int \<Rightarrow> int \<times> go_error option" where
  "Dummy_Discard n = (0, None)"

definition Dummy_ReadN :: "int \<Rightarrow> byte list \<times> go_error option" where
  "Dummy_ReadN n = ([], Some EOF)"

definition Dummy_IndexAny :: "string \<Rightarrow> int \<times> go_error option" where
  "Dummy_IndexAny chars = (-1, Some EOF)"

definition Dummy_PeekN :: "int \<Rightarrow> byte list \<times> go_error option" where
  "Dummy_PeekN n = ([], Some EOF)"

definition Dummy_ReadLine :: "byte list \<times> go_error option" where
  "Dummy_ReadLine = ([], Some EOF)"

section \<open>Sources\<close>

text \<open>A \<open>ConsumerSource\<close> value is a reader or the shared \<open>eofSource\<close>.\<close>

datatype Source = ReaderSource Reader | EofSource

fun Source_Reassembled :: "Source \<Rightarrow> Reassembly list \<Rightarrow> Source option" where
  "Source_Reassembled (ReaderSource r) rs = map_option ReaderSource (Reader_Reassembled r rs)"
| "Source_Reassembled EofSource rs = Some EofSource"

fun Source_ReassemblyComplete :: "Source \<Rightarrow> Source" where
  "Source_ReassemblyComplete (ReaderSource r) = ReaderSource (Reader_ReassemblyComplete r)"
| "Source_ReassemblyComplete EofSource = EofSource"

fun Source_Reset :: "Source \<Rightarrow> Source" where
  "Source_Reset (ReaderSource r) = ReaderSource (Reader_Reset r)"
| "Source_Reset EofSource = EofSource"

fun Source_Truncate :: "Source \<Rightarrow> Source" where
  "Source_Truncate (ReaderSource r) = ReaderSource (Reader_Truncate r)"
| "Source_Truncate EofSource = EofSource"

fun Source_Close :: "Source \<Rightarrow> Source" where
  "Source_Close (ReaderSource r) = ReaderSource (Reader_Close r)"
| "Source_Close EofSource = EofSource"

fun Source_Discard :: "Source \<Rightarrow> int \<Rightarrow> ((int \<times> go_error option) \<times> Source) option" where
  "Source_Discard (ReaderSource r) n = map_option (map_prod id ReaderSource) (Reader_Discard r n)"
| "Source_Discard EofSource n = Some (Dummy_Discard n, EofSource)"

fun Source_ReadN :: "Source \<Rightarrow> int \<Rightarrow> ((byte list \<times> go_error option) \<times> Source) option" where
  "Source_ReadN (ReaderSource r) n = map_option (map_prod id ReaderSource) (Reader_ReadN r n)"
| "Source_ReadN EofSource n = Some (Dummy_ReadN n, EofSource)"

fun Source_IndexAny :: "Source \<Rightarrow> string \<Rightarrow> (int \<times> go_error option) option" where
  "Source_IndexAny (ReaderSource r) chars = Reader_IndexAny r chars"
| "Source_IndexAny EofSource chars = Some (Dummy_IndexAny chars)"

fun Source_PeekN :: "Source \<Rightarrow> int \<Rightarrow> (byte list \<times> go_error option) option" where
  "Source_PeekN (ReaderSource r) n = Reader_PeekN r n"
| "Source_PeekN EofSource n = Some (Dummy_PeekN n)"

fun Source_ReadLine :: "Source \<Rightarrow> ((byte list \<times> go_error option) \<times> Source) option" where
  "Source_ReadLine (ReaderSource r) = map_option (map_prod id ReaderSource) (Reader_ReadLine r)"
| "Source_ReadLine EofSource = Some (Dummy_ReadLine, EofSource)"

section \<open>The interface holds\<close>

definition reader_safe :: "Reader \<Rightarrow> bool" where
  "reader_safe r \<longleftrightarrow> buf_safe (rbuf r) \<and> bcap (rbuf r) = BufferSize"

definition reader_size :: "Reader \<Rightarrow> nat" where
  "reader_size r = length (buf (rbuf r))"

fun source_safe :: "Source \<Rightarrow> bool" where
  "source_safe (ReaderSource r) = reader_safe r"
| "source_safe EofSource = True"

fun source_size :: "Source \<Rightarrow> nat" where
  "source_size (ReaderSource r) = reader_size r"
| "source_size EofSource = 0"

lemma Reset_facts: "buf (Buffer_Reset b) = []" "bcap (Buffer_Reset b) = bcap b"
  by (simp_all add: Buffer_Reset_def)

lemmas reader_defs = reader_safe_def reader_size_def

interpretation reader: consumer_source reader_safe reader_size Reader_ReadLine Reader_ReadN Reader_PeekN
  Reader_IndexAny Reader_Discard Reader_Truncate Reader_Reset Reader_Close
proof
  fix r :: Reader and n :: int and cs :: string
  assume safe: "reader_safe r"
  then have b: "buf_safe (rbuf r)" and c: "bcap (rbuf r) = BufferSize" by (auto simp: reader_safe_def)
  show "\<exists>out err s'. Reader_ReadLine r = Some ((out, err), s') \<and> reader_safe s' \<and>
      reader_size s' \<le> reader_size r \<and> (err = None \<longrightarrow> reader_size s' < reader_size r)"
    using Buffer_ReadLine_safe [OF b] safe
    by (auto simp: Reader_ReadLine_def reader_defs eof_error_def)
  show "\<exists>out err s'. Reader_ReadN r n = Some ((out, err), s') \<and> reader_safe s' \<and> reader_size s' \<le> reader_size r \<and>
      (err = None \<longrightarrow> length out = nat n \<and> reader_size s' < reader_size r)" if "0 < n"
    using Buffer_ReadN_safe [OF b that] safe
    by (auto simp: Reader_ReadN_def reader_defs eof_error_def)
  show "\<exists>out err. Reader_PeekN r n = Some (out, err) \<and> (err = None \<longrightarrow> length out = nat n)" if "0 \<le> n"
    using Buffer_PeekN_total [OF b that] by (auto simp: Reader_PeekN_def eof_error_def)
  show "\<exists>pos err. Reader_IndexAny r cs = Some (pos, err) \<and> (err = None \<longrightarrow> 0 \<le> pos \<and> pos < maxcap)"
    using Buffer_IndexAny_total [OF b, of cs] by (auto simp: Reader_IndexAny_def eof_error_def)
  show "\<exists>n' err s'. Reader_Discard r n = Some ((n', err), s') \<and> reader_safe s' \<and> reader_size s' \<le> reader_size r"
    using Buffer_Discard_safe [OF b, of n] safe by (auto simp: Reader_Discard_def reader_defs)
  show "reader_safe (Reader_Truncate r) \<and> reader_size (Reader_Truncate r) \<le> reader_size r"
    and "reader_safe (Reader_Reset r) \<and> reader_size (Reader_Reset r) \<le> reader_size r"
    and "reader_safe (Reader_Close r) \<and> reader_size (Reader_Close r) \<le> reader_size r"
    using b c by (auto simp: Reader_Truncate_def Reader_Reset_def Reader_Close_def reader_defs Reset_facts
        buf_safe_Reset)
qed

lemmas dummy_defs = Dummy_Discard_def Dummy_ReadN_def Dummy_IndexAny_def Dummy_PeekN_def Dummy_ReadLine_def

interpretation src: consumer_source source_safe source_size Source_ReadLine Source_ReadN Source_PeekN
  Source_IndexAny Source_Discard Source_Truncate Source_Reset Source_Close
proof
  fix s :: Source and n :: int and cs :: string
  assume safe: "source_safe s"
  show "\<exists>out err s'. Source_ReadLine s = Some ((out, err), s') \<and> source_safe s' \<and>
      source_size s' \<le> source_size s \<and> (err = None \<longrightarrow> source_size s' < source_size s)"
    using safe reader.readLine_ok by (cases s) (fastforce simp: dummy_defs)+
  show "\<exists>out err s'. Source_ReadN s n = Some ((out, err), s') \<and> source_safe s' \<and> source_size s' \<le> source_size s \<and>
      (err = None \<longrightarrow> length out = nat n \<and> source_size s' < source_size s)" if "0 < n"
    using safe that reader.readN_ok by (cases s) (fastforce simp: dummy_defs)+
  show "\<exists>out err. Source_PeekN s n = Some (out, err) \<and> (err = None \<longrightarrow> length out = nat n)" if "0 \<le> n"
    using safe that reader.peekN_ok by (cases s) (auto simp: dummy_defs)
  show "\<exists>pos err. Source_IndexAny s cs = Some (pos, err) \<and> (err = None \<longrightarrow> 0 \<le> pos \<and> pos < maxcap)"
    using safe reader.indexAny_ok by (cases s) (auto simp: dummy_defs)
  show "\<exists>n' err s'. Source_Discard s n = Some ((n', err), s') \<and> source_safe s' \<and> source_size s' \<le> source_size s"
    using safe reader.discard_ok by (cases s) (fastforce simp: dummy_defs)+
  show "source_safe (Source_Truncate s) \<and> source_size (Source_Truncate s) \<le> source_size s"
    and "source_safe (Source_Reset s) \<and> source_size (Source_Reset s) \<le> source_size s"
    and "source_safe (Source_Close s) \<and> source_size (Source_Close s) \<le> source_size s"
    using safe reader.truncate_ok reader.reset_ok reader.close_ok by (cases s; auto)+
qed

section \<open>Feeding\<close>

definition reassembly_ok :: "Reassembly \<Rightarrow> bool" where
  "reassembly_ok x \<longleftrightarrow> chunk_ok (Skip x) (Bytes x)"

lemma Reassembled_loop_safe:
  "\<lbrakk> reader_safe r; \<forall>x\<in>set rs. reassembly_ok x \<rbrakk> \<Longrightarrow> \<exists>r'. Reassembled_loop r rs = Some r' \<and> reader_safe r'"
proof (induction rs arbitrary: r)
  case (Cons x rs)
  obtain b err where b: "Buffer_Write (rbuf r) (Skip x) (Bytes x) = Some (b, err)" "buf_safe b"
    "bcap b = bcap (rbuf r)"
    using Buffer_Write_safe [of "rbuf r" "Skip x" "Bytes x"] Cons.prems
    by (auto simp: reader_safe_def reassembly_ok_def)
  then have "reader_safe (r\<lparr>rbuf := b\<rparr>)" using Cons.prems(1) by (simp add: reader_safe_def)
  with Cons b show ?case by (cases err) (auto simp: reader_safe_def)
qed simp

lemma Source_Reassembled_safe [safe_intros]:
  "\<lbrakk> source_safe s; \<forall>x\<in>set rs. reassembly_ok x \<rbrakk> \<Longrightarrow> \<exists>s'. Source_Reassembled s rs = Some s' \<and> source_safe s'"
  using Reassembled_loop_safe [of _ rs] by (cases s) (fastforce simp: Reader_Reassembled_def)+

lemma Source_ReassemblyComplete_safe [safe_intros]:
  "source_safe s \<Longrightarrow> source_safe (Source_ReassemblyComplete s)"
  by (cases s) (auto simp: Reader_ReassemblyComplete_def reader_safe_def)

lemma reader_safe_New [safe_intros]: "reader_safe Reader_New"
  by (simp add: reader_safe_def Reader_New_def buf_safe_NewBuffer BufferSize_def maxcap_def)
    (simp add: NewBuffer_def)

section \<open>Properties\<close>

text \<open>The calls a protocol makes on a reader, with the error each of them reports.\<close>

datatype reader_op =
    RReassembled "Reassembly list" | RTruncate | RDiscard int | RReadN int | RPeekN int | RIndexAny string | RReadLine

fun reader_step :: "Reader \<Rightarrow> reader_op \<Rightarrow> (go_error option \<times> byte list \<times> Reader) option" where
  "reader_step r (RReassembled rs) = do { r \<leftarrow> Reader_Reassembled r rs; Some (rerr r, [], r) }"
| "reader_step r RTruncate = Some (rerr r, [], Reader_Truncate r)"
| "reader_step r (RDiscard n) = do { ((_, err), r) \<leftarrow> Reader_Discard r n; Some (err, [], r) }"
| "reader_step r (RReadN n) = do { ((out, err), r) \<leftarrow> Reader_ReadN r n; Some (err, out, r) }"
| "reader_step r (RPeekN n) = do { (out, err) \<leftarrow> Reader_PeekN r n; Some (err, out, r) }"
| "reader_step r (RIndexAny cs) = do { (_, err) \<leftarrow> Reader_IndexAny r cs; Some (err, [], r) }"
| "reader_step r RReadLine = do { ((out, err), r) \<leftarrow> Reader_ReadLine r; Some (err, out, r) }"

fun reader_run :: "Reader \<Rightarrow> reader_op list \<Rightarrow> ((go_error option \<times> byte list) list \<times> Reader) option" where
  "reader_run r [] = Some ([], r)"
| "reader_run r (x # xs) =
     do { (err, out, r) \<leftarrow> reader_step r x; (outs, r) \<leftarrow> reader_run r xs; Some ((err, out) # outs, r) }"

lemma reader_step_sticky:
  "rerr r = Some e \<Longrightarrow> \<exists>r'. reader_step r x = Some (Some e, [], r') \<and> rerr r' = Some e"
  by (cases x) (simp_all add: Reader_Reassembled_def Reader_Truncate_def Reader_Discard_def Reader_ReadN_def
      Reader_PeekN_def Reader_IndexAny_def Reader_ReadLine_def)

lemma reader_run_sticky:
  "rerr r = Some e \<Longrightarrow> \<exists>r'. reader_run r xs = Some (replicate (length xs) (Some e, []), r') \<and> rerr r' = Some e"
proof (induction xs arbitrary: r)
  case (Cons x xs)
  from reader_step_sticky [OF Cons.prems, of x] obtain r1 where "reader_step r x = Some (Some e, [], r1)" "rerr r1 = Some e"
    by blast
  with Cons.IH [of r1] show ?case by auto
qed simp

text \<open>
  C30.  An overrun is reported, not papered over: when a segment does not fit behind the unread data, the reader drops
  it and from then on every call, until \<open>Reset\<close>, answers with \<open>io.ErrShortWrite\<close> and delivers no data.
\<close>

theorem overrun_is_sticky:
  assumes "refines (rbuf r) c" and "bcap (rbuf r) = BufferSize" and "\<not> closed r" and "rerr r = None"
    and "chunk_ok (Skip x) (Bytes x)" and "blen (rbuf r) + max 0 (Skip x) + int (length (Bytes x)) \<le> maxint"
    and "\<not> fits BufferSize (feed c (Skip x) (Bytes x))"
  shows "\<exists>r1 r2. Reader_Reassembled r [x] = Some r1 \<and> rbuf r1 = rbuf r \<and>
    reader_run r1 ops = Some (replicate (length ops) (Some ErrShortWrite, []), r2)"
proof -
  have "Reader_Reassembled r [x] = Some (r\<lparr>rbuf := rbuf r, rerr := Some ErrShortWrite\<rparr>)"
    using Buffer_Write_refines [OF assms(1,5,6)] assms(2-4,7) by (simp add: Reader_Reassembled_def fits_def)
  with reader_run_sticky [of "r\<lparr>rbuf := rbuf r, rerr := Some ErrShortWrite\<rparr>" ErrShortWrite ops] show ?thesis by auto
qed

definition huge :: Reassembly where
  "huge = \<lparr>Bytes = replicate 40000 (CHR ''x''), Skip = 0, Start = False, End = False, Seen = 0\<rparr>"

theorem overrun_is_sticky_witness:
  "\<exists>r1 r2. Reader_Reassembled Reader_New [huge] = Some r1 \<and> rbuf r1 = rbuf Reader_New \<and>
    reader_run r1 [RReadLine, RReassembled [], RReadN 1] = Some (replicate 3 (Some ErrShortWrite, []), r2)"
proof -
  have "refines (rbuf Reader_New) \<lparr>seen = [], pos = 0\<rparr>"
    by (simp add: Reader_New_def refines_NewBuffer BufferSize_def maxcap_def)
  moreover have "\<not> fits BufferSize (feed \<lparr>seen = [], pos = 0\<rparr> (Skip huge) (Bytes huge))"
    by (simp add: fits_def feed_def pending_def BufferSize_def huge_def)
  ultimately show ?thesis
    using overrun_is_sticky [of Reader_New "\<lparr>seen = [], pos = 0\<rparr>" huge "[RReadLine, RReassembled [], RReadN 1]"]
    by (simp add: Reader_New_def NewBuffer_def huge_def chunk_ok_def maxcap_def maxint_def numeral_3_eq_3)
qed

end
