(* ===== verification/ConsumerModel.thy ===== *)
theory ConsumerModel
  imports StreamReader
begin

text \<open>
  The protocol-independent consumer of \<^verbatim>\<open>protocol/model/consumer.go\<close>: it owns the two readers of a
  conversation, batches events for its handler and is driven by the TCP assembler through its client
  and server streams.

  The handler is a callback; its calls are recorded, in order, in the field \<open>handled\<close>.  Readers given
  back to the \<open>sync.Pool\<close> are recorded in \<open>released\<close>.
\<close>

section \<open>Data\<close>

datatype EventType = EventUnknown | EventGetHit | EventGetMiss

record Event =
  EType :: EventType
  Key :: string
  Size :: int

datatype RunFn = RunLoop | RunNothing

record 'st Consumer =
  handled :: "Event list list"
  ClientReader :: Source
  ServerReader :: Source
  Run :: RunFn
  State :: "'st option"
  eventBuf :: "Event list"
  released :: "Reader list"

section \<open>Operations\<close>

text \<open>\<open>bufferPool.Get()\<close> hands out a recycled reader if there is one and a new reader otherwise.\<close>

fun bufferPool_Get :: "Reader list \<Rightarrow> Reader \<times> Reader list" where
  "bufferPool_Get [] = (Reader_New, [])"
| "bufferPool_Get (r # rs) = (r, rs)"

definition Consumer_New :: "Reader list \<Rightarrow> 'st Consumer \<times> Reader list" where
  "Consumer_New pool =
     (let (cr, pool) = bufferPool_Get pool; (sr, pool) = bufferPool_Get pool in
      (\<lparr>handled = [], ClientReader = ReaderSource cr, ServerReader = ReaderSource sr, Run = RunNothing,
        State = None, eventBuf = [], released = []\<rparr>, pool))"

definition eventBufCap :: nat where
  "eventBufCap = 8"

definition FlushEvents :: "('st, 'z) Consumer_scheme \<Rightarrow> ('st, 'z) Consumer_scheme" where
  "FlushEvents c = c\<lparr>handled := handled c @ [eventBuf c], eventBuf := []\<rparr>"

definition AddEvent :: "('st, 'z) Consumer_scheme \<Rightarrow> Event \<Rightarrow> ('st, 'z) Consumer_scheme" where
  "AddEvent c evt =
     (let c = c\<lparr>eventBuf := eventBuf c @ [evt]\<rparr> in
      if length (eventBuf c) = eventBufCap then FlushEvents c else c)"

definition release_client :: "('st, 'z) Consumer_scheme \<Rightarrow> ('st, 'z) Consumer_scheme" where
  "release_client c =
     (case ClientReader c of
        EofSource \<Rightarrow> c
      | ReaderSource r \<Rightarrow> c\<lparr>released := released c @ [Reader_Reset r], ClientReader := EofSource\<rparr>)"

definition release_server :: "('st, 'z) Consumer_scheme \<Rightarrow> ('st, 'z) Consumer_scheme" where
  "release_server c =
     (case ServerReader c of
        EofSource \<Rightarrow> c
      | ReaderSource r \<Rightarrow> c\<lparr>released := released c @ [Reader_Reset r], ServerReader := EofSource\<rparr>)"

definition Consumer_Close :: "('st, 'z) Consumer_scheme \<Rightarrow> ('st, 'z) Consumer_scheme" where
  "Consumer_Close c = (release_server (release_client c))\<lparr>Run := RunNothing\<rparr>"

text \<open>The stream views.  \<open>run\<close> is what calling the consumer's \<open>Run\<close> field does.\<close>

fun ClientStream_Reassembled ::
  "(('st, 'z) Consumer_scheme \<Rightarrow> ('st, 'z) Consumer_scheme option) \<Rightarrow> ('st, 'z) Consumer_scheme \<Rightarrow>
   Reassembly list \<Rightarrow> ('st, 'z) Consumer_scheme option" where
  "ClientStream_Reassembled run c [] = Some c"
| "ClientStream_Reassembled run c (r # rs) =
     do { s \<leftarrow> Source_Reassembled (ClientReader c) [r];
          c \<leftarrow> run (c\<lparr>ClientReader := s\<rparr>);
          ClientStream_Reassembled run c rs }"

fun ServerStream_Reassembled ::
  "(('st, 'z) Consumer_scheme \<Rightarrow> ('st, 'z) Consumer_scheme option) \<Rightarrow> ('st, 'z) Consumer_scheme \<Rightarrow>
   Reassembly list \<Rightarrow> ('st, 'z) Consumer_scheme option" where
  "ServerStream_Reassembled run c [] = Some c"
| "ServerStream_Reassembled run c (r # rs) =
     do { s \<leftarrow> Source_Reassembled (ServerReader c) [r];
          c \<leftarrow> run (c\<lparr>ServerReader := s\<rparr>);
          ServerStream_Reassembled run c rs }"

definition ClientStream_ReassemblyComplete :: "('st, 'z) Consumer_scheme \<Rightarrow> ('st, 'z) Consumer_scheme" where
  "ClientStream_ReassemblyComplete c =
     release_client (FlushEvents (c\<lparr>ClientReader := Source_ReassemblyComplete (ClientReader c)\<rparr>))"

definition ServerStream_ReassemblyComplete :: "('st, 'z) Consumer_scheme \<Rightarrow> ('st, 'z) Consumer_scheme" where
  "ServerStream_ReassemblyComplete c =
     release_server (FlushEvents (c\<lparr>ServerReader := Source_ReassemblyComplete (ServerReader c)\<rparr>))"

section \<open>Events are neither lost nor reordered\<close>

definition all_events :: "('st, 'z) Consumer_scheme \<Rightarrow> Event list" where
  "all_events c = concat (handled c) @ eventBuf c"

lemma all_events_Flush [simp]: "all_events (FlushEvents c) = all_events c"
  by (simp add: all_events_def FlushEvents_def)

lemma all_events_AddEvent [simp]: "all_events (AddEvent c e) = all_events c @ [e]"
  by (simp add: all_events_def AddEvent_def FlushEvents_def Let_def)

lemma all_events_update [simp]:
  "all_events (c\<lparr>ClientReader := s\<rparr>) = all_events c" "all_events (c\<lparr>ServerReader := s\<rparr>) = all_events c"
  "all_events (c\<lparr>State := st\<rparr>) = all_events c" "all_events (c\<lparr>Run := r\<rparr>) = all_events c"
  "all_events (c\<lparr>released := rs\<rparr>) = all_events c"
  by (simp_all add: all_events_def)

lemma AddEvent_fields [simp]:
  "ClientReader (AddEvent c e) = ClientReader c" "ServerReader (AddEvent c e) = ServerReader c"
  "State (AddEvent c e) = State c" "Run (AddEvent c e) = Run c" "released (AddEvent c e) = released c"
  by (simp_all add: AddEvent_def FlushEvents_def Let_def)

lemma FlushEvents_fields [simp]:
  "ClientReader (FlushEvents c) = ClientReader c" "ServerReader (FlushEvents c) = ServerReader c"
  "State (FlushEvents c) = State c" "Run (FlushEvents c) = Run c" "released (FlushEvents c) = released c"
  "eventBuf (FlushEvents c) = []"
  by (simp_all add: FlushEvents_def)

lemma release_fields [simp]:
  "ClientReader (release_client c) = EofSource" "ServerReader (release_client c) = ServerReader c"
  "ServerReader (release_server c) = EofSource" "ClientReader (release_server c) = ClientReader c"
  "State (release_client c) = State c" "State (release_server c) = State c"
  "Run (release_client c) = Run c" "Run (release_server c) = Run c"
  "eventBuf (release_client c) = eventBuf c" "eventBuf (release_server c) = eventBuf c"
  "handled (release_client c) = handled c" "handled (release_server c) = handled c"
  by (simp_all add: release_client_def release_server_def split: Source.splits)

lemma AddEvent_buffer: "length (eventBuf c) < eventBufCap \<Longrightarrow> length (eventBuf (AddEvent c e)) < eventBufCap"
  by (simp add: AddEvent_def FlushEvents_def Let_def eventBufCap_def)

text \<open>A recycled reader is as good as new.\<close>

lemma Reader_Reset_New: "reader_safe r \<Longrightarrow> Reader_Reset r = Reader_New"
  by (simp add: Reader_Reset_def Reader_New_def Buffer_Reset_def NewBuffer_def reader_safe_def)

section \<open>Properties\<close>

text \<open>A sequence of \<open>AddEvent\<close> calls.\<close>

definition add_events :: "('st, 'z) Consumer_scheme \<Rightarrow> Event list \<Rightarrow> ('st, 'z) Consumer_scheme" where
  "add_events c evts = foldl AddEvent c evts"

lemma AddEvent_handled: "\<exists>bs. handled (AddEvent c e) = handled c @ bs \<and> (\<forall>b\<in>set bs. length b = eventBufCap)"
  by (cases "length (eventBuf c @ [e]) < eventBufCap") (simp_all add: AddEvent_def FlushEvents_def Let_def)

lemma add_events_batches:
  "length (eventBuf c) < eventBufCap \<Longrightarrow> all_events (add_events c evts) = all_events c @ evts \<and>
     length (eventBuf (add_events c evts)) < eventBufCap \<and>
     (\<exists>bs. handled (add_events c evts) = handled c @ bs \<and> (\<forall>b\<in>set bs. length b = eventBufCap))"
proof (induction evts arbitrary: c)
  case (Cons e evts)
  obtain bs where "handled (add_events (AddEvent c e) evts) = handled (AddEvent c e) @ bs"
    "\<forall>b\<in>set bs. length b = eventBufCap"
    using Cons AddEvent_buffer by blast
  moreover obtain bs' where "handled (AddEvent c e) = handled c @ bs'" "\<forall>b\<in>set bs'. length b = eventBufCap"
    using AddEvent_handled by blast
  ultimately have "\<exists>bs. handled (add_events (AddEvent c e) evts) = handled c @ bs \<and> (\<forall>b\<in>set bs. length b = eventBufCap)"
    by (intro exI [of _ "bs' @ bs"]) auto
  with Cons.IH [OF AddEvent_buffer [OF Cons.prems]] show ?case by (simp add: add_events_def)
qed (simp add: add_events_def)



end
