(* ===== verification/Strconv.thy ===== *)
theory Strconv
  imports Prelude
begin

text \<open>
  The parts of Go's \<open>strconv\<close> and \<open>bytes\<close> packages that the program calls: decimal conversion in both
  directions, splitting and trimming.  They are the standard library of the language, modelled as
  documented; the round trip below connects the two conversions.
\<close>

section \<open>Decimal conversion\<close>

definition is_digit :: "char \<Rightarrow> bool" where
  "is_digit c \<longleftrightarrow> (48 :: nat) \<le> of_char c \<and> (of_char c :: nat) \<le> 57"

definition digit_val :: "char \<Rightarrow> int" where
  "digit_val c = int (of_char c) - 48"

definition digit_char :: "nat \<Rightarrow> char" where
  "digit_char d = char_of (48 + d)"

text \<open>The loop of \<open>strconv.ParseUint\<close> for base 10 and 64 bits.\<close>

fun ParseUint_loop :: "int \<Rightarrow> string \<Rightarrow> go_error + int" where
  "ParseUint_loop n [] = Inr n"
| "ParseUint_loop n (c # cs) =
     (if \<not> is_digit c then Inl ErrSyntax
      else let n1 = 10 * n + digit_val c in
        if n1 \<ge> 18446744073709551616 then Inl ErrRange else ParseUint_loop n1 cs)"

definition ParseUint :: "string \<Rightarrow> go_error + int" where
  "ParseUint s = (if s = [] then Inl ErrSyntax else ParseUint_loop 0 s)"

definition Atoi :: "string \<Rightarrow> go_error + int" where
  "Atoi s =
     (case s of [] \<Rightarrow> Inl ErrSyntax
      | c # cs \<Rightarrow>
          let neg = (c = CHR ''-''); digits = (if c = CHR ''-'' \<or> c = CHR ''+'' then cs else s) in
          case ParseUint digits of Inl e \<Rightarrow> Inl e
          | Inr un \<Rightarrow>
              if \<not> neg \<and> un \<ge> 9223372036854775808 then Inl ErrRange
              else if neg \<and> un > 9223372036854775808 then Inl ErrRange
              else Inr (if neg then - un else un))"

fun Utoa :: "nat \<Rightarrow> string" where
  "Utoa n = (if n < 10 then [digit_char n] else Utoa (n div 10) @ [digit_char (n mod 10)])"

declare Utoa.simps [simp del]

definition Itoa :: "int \<Rightarrow> string" where
  "Itoa i = (if i < 0 then CHR ''-'' # Utoa (nat (- i)) else Utoa (nat i))"

lemma of_char_digit_char: "d < 10 \<Longrightarrow> (of_char (digit_char d) :: nat) = 48 + d"
  by (simp add: digit_char_def)

lemma is_digit_digit_char [simp]: "d < 10 \<Longrightarrow> is_digit (digit_char d)"
  by (simp add: is_digit_def of_char_digit_char)

lemma digit_val_digit_char [simp]: "d < 10 \<Longrightarrow> digit_val (digit_char d) = int d"
  by (simp add: digit_val_def of_char_digit_char)

lemma ParseUint_loop_append:
  "ParseUint_loop n (xs @ ys) =
     (case ParseUint_loop n xs of Inl e \<Rightarrow> Inl e | Inr m \<Rightarrow> ParseUint_loop m ys)"
  by (induction xs arbitrary: n) (auto simp: Let_def)

lemma Utoa_digits: "set (Utoa n) \<subseteq> Collect is_digit \<and> Utoa n \<noteq> []"
proof (induction n rule: Utoa.induct)
  case (1 n)
  then show ?case by (auto simp: Utoa.simps [of n])
qed

lemma ParseUint_loop_Utoa: "n < 18446744073709551616 \<Longrightarrow> ParseUint_loop 0 (Utoa n) = Inr (int n)"
proof (induction n rule: Utoa.induct)
  case (1 n)
  show ?case
  proof (cases "n < 10")
    case True
    then show ?thesis by (subst Utoa.simps) simp
  next
    case False
    with 1 have "ParseUint_loop 0 (Utoa (n div 10)) = Inr (int (n div 10))" by simp
    moreover have "10 * int (n div 10) + int (n mod 10) = int n" by presburger
    ultimately show ?thesis
      using False 1(2) by (subst Utoa.simps) (simp add: ParseUint_loop_append Let_def del: mult_div_mod_eq)
  qed
qed

lemma hd_Utoa: "Utoa n = c # cs \<Longrightarrow> c \<noteq> CHR ''-'' \<and> c \<noteq> CHR ''+''"
  using Utoa_digits [of n] by (auto simp: is_digit_def)

lemma Atoi_Itoa: "int64 i \<Longrightarrow> Atoi (Itoa i) = Inr i"
proof (cases "i < 0")
  case True
  assume "int64 i"
  with True have "ParseUint (Utoa (nat (- i))) = Inr (- i)"
    using Utoa_digits [of "nat (- i)"] by (simp add: ParseUint_def ParseUint_loop_Utoa int64_def)
  with True \<open>int64 i\<close> show ?thesis by (simp add: Atoi_def Itoa_def int64_def)
next
  case False
  assume "int64 i"
  obtain c cs where u: "Utoa (nat i) = c # cs" using Utoa_digits [of "nat i"] by (cases "Utoa (nat i)") auto
  from False \<open>int64 i\<close> have "ParseUint (Utoa (nat i)) = Inr i"
    using Utoa_digits [of "nat i"] by (simp add: ParseUint_def ParseUint_loop_Utoa int64_def)
  with False \<open>int64 i\<close> u hd_Utoa [OF u] show ?thesis by (simp add: Atoi_def Itoa_def int64_def)
qed

lemma ParseUint_loop_nonneg: "\<lbrakk> ParseUint_loop n s = Inr m; 0 \<le> n \<rbrakk> \<Longrightarrow> 0 \<le> m"
proof (induction s arbitrary: n)
  case (Cons c s)
  have "0 \<le> 10 * n + digit_val c" if "is_digit c"
    using that Cons.prems(2) by (simp add: digit_val_def is_digit_def)
  with Cons show ?case by (auto simp: Let_def split: if_splits)
qed simp

lemma Atoi_int64: "Atoi s = Inr i \<Longrightarrow> int64 i"
  by (auto simp: Atoi_def ParseUint_def int64_def Let_def simp del: ParseUint_loop.simps
      dest!: ParseUint_loop_nonneg split: list.splits sum.splits if_splits)

section \<open>Splitting and trimming\<close>

text \<open>\<open>bytes.Split(s, sep)\<close> for a one-byte separator.\<close>

fun bytes_Split :: "char \<Rightarrow> string \<Rightarrow> string list" where
  "bytes_Split sep [] = [[]]"
| "bytes_Split sep (c # cs) =
     (if c = sep then [] # bytes_Split sep cs
      else case bytes_Split sep cs of [] \<Rightarrow> [[c]] | f # fs \<Rightarrow> (c # f) # fs)"

text \<open>\<open>bytes.TrimRight(s, cutset)\<close> for an ASCII cutset.\<close>

definition bytes_TrimRight :: "string \<Rightarrow> string \<Rightarrow> string" where
  "bytes_TrimRight s cutset = rev (dropWhile (\<lambda>c. c \<in> set cutset) (rev s))"

lemma bytes_Split_nonempty [simp]: "bytes_Split sep s \<noteq> []"
  by (induction s) (auto split: list.splits)

lemma bytes_Split_nosep: "sep \<notin> set s \<Longrightarrow> bytes_Split sep s = [s]"
  by (induction s) auto

lemma bytes_Split_append: "sep \<notin> set s \<Longrightarrow> bytes_Split sep (s @ sep # t) = s # bytes_Split sep t"
  by (induction s) auto

end
