(* ===== verification/Mctext.thy ===== *)
theory Mctext
  imports ConsumerModel Strconv
begin

text \<open>
  The memcached text protocol consumer of \<^verbatim>\<open>protocol/mctext/consumer.go\<close>.  The \<open>State\<close> function value of
  the consumer is one of the constants of \<open>McState\<close>; calling it is \<open>call_state\<close>.  The loops that may,
  a priori, run forever (\<open>run\<close> and the one in \<open>handleGet\<close>) are partial functions whose \<^const>\<open>None\<close> result
  covers both a panic and divergence; the theory proves that neither happens.  Debug logging is
  compiled out by \<open>debuglevel = 0\<close> and not modelled.
\<close>

section \<open>Data\<close>

datatype McState =
    PeekMagicByte | ReadCommand | ReadArgs | HandleGet | HandleSet | HandleQuit | HandleUnknown
  | DiscardResponse | AfterQuit

record McConsumer = "McState Consumer" +
  cmd :: string
  args :: "string list"

definition crlf :: string where
  "crlf = [CR, LF]"

definition word_delims :: string where
  "word_delims = [CHR '' '', LF]"

definition is_alpha :: "char \<Rightarrow> bool" where
  "is_alpha c \<longleftrightarrow> (65 \<le> (of_char c :: nat) \<and> (of_char c :: nat) \<le> 90) \<or>
                 (97 \<le> (of_char c :: nat) \<and> (of_char c :: nat) \<le> 122)"

text \<open>The regular expression \<^verbatim>\<open>^[a-zA-Z]+$\<close>.\<close>

definition asciiRe_Match :: "string \<Rightarrow> bool" where
  "asciiRe_Match s \<longleftrightarrow> s \<noteq> [] \<and> list_all is_alpha s"

definition NewConsumer :: "Reader list \<Rightarrow> McConsumer \<times> Reader list" where
  "NewConsumer pool =
     (let (mc, pool) = (Consumer_New pool :: McState Consumer \<times> Reader list) in
      (Consumer.extend (mc\<lparr>Run := RunLoop, State := Some PeekMagicByte\<rparr>) (McConsumer.fields [] []), pool))"

section \<open>The states\<close>

type_synonym outcome = "(go_error option \<times> McConsumer) option"

definition peekMagicByte :: "McConsumer \<Rightarrow> outcome" where
  "peekMagicByte c =
     (let c = c\<lparr>ServerReader := Source_Truncate (ServerReader c)\<rparr> in
      do { (firstByte, err) \<leftarrow> Source_PeekN (ClientReader c) 1;
           case err of
             Some (ErrLostData _) \<Rightarrow>
               Some (Some ErrShortRead, c\<lparr>ClientReader := Source_Truncate (ClientReader c)\<rparr>)
           | Some e \<Rightarrow> Some (Some e, c)
           | None \<Rightarrow>
               do { b \<leftarrow> index_at firstByte 0;
                    if b = CHR 0x80 then Some (Some EOF, Consumer_Close c)
                    else Some (None, c\<lparr>State := Some ReadCommand\<rparr>) } })"

definition commandState :: "string \<Rightarrow> McState option" where
  "commandState s =
     (if s = ''get'' \<or> s = ''gets'' then Some HandleGet
      else if s = ''set'' \<or> s = ''add'' \<or> s = ''replace'' \<or> s = ''append'' \<or> s = ''prepend'' \<or> s = ''cas''
      then Some HandleSet
      else if s = ''quit'' then Some HandleQuit
      else None)"

text \<open>\<open>IndexAny\<close> for the next delimiter and \<open>ReadN\<close> up to and including it.\<close>

definition nextWord :: "Source \<Rightarrow> ((byte list \<times> go_error option) \<times> Source) option" where
  "nextWord s =
     do { (p, err) \<leftarrow> Source_IndexAny s word_delims;
          case err of Some e \<Rightarrow> Some (([], Some e), s) | None \<Rightarrow> Source_ReadN s (gint (p + 1)) }"

definition readCommand :: "McConsumer \<Rightarrow> outcome" where
  "readCommand c =
     (let c = c\<lparr>args := [], ServerReader := Source_Truncate (ServerReader c)\<rparr> in
      do { ((word, err), s) \<leftarrow> nextWord (ClientReader c);
           let c = c\<lparr>ClientReader := s\<rparr>;
           if err \<noteq> None then Some (err, c)
           else
             let c = c\<lparr>cmd := bytes_TrimRight word (CHR '' '' # crlf)\<rparr> in
             if \<not> asciiRe_Match (cmd c) then Some (Some ErrProtocolDesync, c)
             else if commandState (cmd c) \<noteq> None then Some (None, c\<lparr>State := Some ReadArgs\<rparr>)
             else Some (None, c\<lparr>State := Some HandleUnknown\<rparr>) })"

definition readArgs :: "McConsumer \<Rightarrow> outcome" where
  "readArgs c =
     (let c = c\<lparr>ServerReader := Source_Truncate (ServerReader c)\<rparr> in
      do { ((word, err), s) \<leftarrow> nextWord (ClientReader c);
           let c = c\<lparr>ClientReader := s\<rparr>;
           if err \<noteq> None then Some (err, c)
           else do {
             delim \<leftarrow> index_at word (int (length word) - 1);
             front \<leftarrow> slice_to (int (length word) - 1) word;
             let c = c\<lparr>args := args c @ [bytes_TrimRight front [CR]]\<rparr>;
             if delim = CHR '' '' then Some (None, c)
             else Some (None, c\<lparr>State := commandState (cmd c)\<rparr>) } })"

definition discardResponse :: "McConsumer \<Rightarrow> outcome" where
  "discardResponse c =
     (let c = c\<lparr>State := Some DiscardResponse\<rparr> in
      do { ((line, err), s) \<leftarrow> Source_ReadLine (ServerReader c);
           let c = c\<lparr>ServerReader := s\<rparr>;
           if err \<noteq> None then Some (err, c) else Some (None, c\<lparr>State := Some ReadCommand\<rparr>) })"

text \<open>A \<open>VALUE\<close> line: the key and the length of the value that follows.\<close>

definition value_line :: "string \<Rightarrow> (string \<times> string) option" where
  "value_line line =
     (let fields = bytes_Split (CHR '' '') line in
      if length fields \<ge> 4 \<and> fields ! 0 = ''VALUE'' then Some (fields ! 1, fields ! 3) else None)"

partial_function (option) handleGet_loop :: "McConsumer \<Rightarrow> outcome" where
  "handleGet_loop c =
     do { ((line, err), s) \<leftarrow> Source_ReadLine (ServerReader c);
          let c = c\<lparr>ServerReader := s\<rparr>;
          if err \<noteq> None then Some (err, c)
          else case value_line line of
            None \<Rightarrow> Some (None, c\<lparr>State := Some ReadCommand\<rparr>)
          | Some (key, sizeField) \<Rightarrow>
              (case Atoi sizeField of
                 Inl e \<Rightarrow> Some (Some e, c)
               | Inr sz \<Rightarrow>
                   let c = AddEvent c \<lparr>EType = EventGetHit, Key = key, Size = sz\<rparr> in
                   do { ((n, err), s) \<leftarrow> Source_Discard (ServerReader c) (gint (sz + int (length crlf)));
                        let c = c\<lparr>ServerReader := s\<rparr>;
                        if err \<noteq> None then Some (err, c) else handleGet_loop c }) }"

definition handleGet :: "McConsumer \<Rightarrow> outcome" where
  "handleGet c = (if length (args c) < 1 then discardResponse c else handleGet_loop c)"

definition handleSet :: "McConsumer \<Rightarrow> outcome" where
  "handleSet c =
     (if length (args c) < 4 then discardResponse c
      else case Atoi (args c ! 3) of
        Inl e \<Rightarrow> discardResponse c
      | Inr sz \<Rightarrow>
          do { ((n, err), s) \<leftarrow> Source_Discard (ClientReader c) (gint (sz + int (length crlf)));
               let c = c\<lparr>ClientReader := s\<rparr>;
               if err \<noteq> None then Some (err, c) else discardResponse c })"

definition handleQuit :: "McConsumer \<Rightarrow> outcome" where
  "handleQuit c =
     Some (Some EOF, c\<lparr>ClientReader := Source_Close (ClientReader c),
                       ServerReader := Source_Close (ServerReader c), State := Some AfterQuit\<rparr>)"

definition handleUnknown :: "McConsumer \<Rightarrow> outcome" where
  "handleUnknown c = discardResponse c"

declare handleGet_loop.simps [code]

section \<open>The driver\<close>

definition call_state :: "McConsumer \<Rightarrow> outcome" where
  "call_state c =
     (case State c of
        None \<Rightarrow> None
      | Some PeekMagicByte \<Rightarrow> peekMagicByte c
      | Some ReadCommand \<Rightarrow> readCommand c
      | Some ReadArgs \<Rightarrow> readArgs c
      | Some HandleGet \<Rightarrow> handleGet c
      | Some HandleSet \<Rightarrow> handleSet c
      | Some HandleQuit \<Rightarrow> handleQuit c
      | Some HandleUnknown \<Rightarrow> handleUnknown c
      | Some DiscardResponse \<Rightarrow> discardResponse c
      | Some AfterQuit \<Rightarrow> Some (Some EOF, c))"

definition resync :: "McConsumer \<Rightarrow> McConsumer" where
  "resync c = c\<lparr>ClientReader := Source_Reset (ClientReader c), ServerReader := Source_Reset (ServerReader c),
                State := Some ReadCommand\<rparr>"

partial_function (option) mc_run :: "McConsumer \<Rightarrow> McConsumer option" where
  "mc_run c =
     do { (err, c) \<leftarrow> call_state c;
          case err of
            None \<Rightarrow> mc_run c
          | Some e \<Rightarrow> if e = ErrShortRead \<or> e = EOF then Some c else Some (resync c) }"

declare mc_run.simps [code]

definition call_Run :: "McConsumer \<Rightarrow> McConsumer option" where
  "call_Run c = (case Run c of RunLoop \<Rightarrow> mc_run c | RunNothing \<Rightarrow> Some c)"

text \<open>What the TCP assembler does to a conversation.\<close>

datatype StreamCall =
    ClientReassembled "Reassembly list" | ServerReassembled "Reassembly list"
  | ClientComplete | ServerComplete

fun stream_call :: "McConsumer \<Rightarrow> StreamCall \<Rightarrow> McConsumer option" where
  "stream_call c (ClientReassembled rs) = ClientStream_Reassembled call_Run c rs"
| "stream_call c (ServerReassembled rs) = ServerStream_Reassembled call_Run c rs"
| "stream_call c ClientComplete = Some (ClientStream_ReassemblyComplete c)"
| "stream_call c ServerComplete = Some (ServerStream_ReassemblyComplete c)"

fun conversation :: "McConsumer \<Rightarrow> StreamCall list \<Rightarrow> McConsumer option" where
  "conversation c [] = Some c"
| "conversation c (x # xs) = do { c \<leftarrow> stream_call c x; conversation c xs }"

section \<open>Safety and termination\<close>

text \<open>
  The invariant of a consumer between calls.  \<open>readArgs\<close> is only ever entered with a command that has a
  handler, so the state it installs is never \<open>nil\<close>; readers go back to the pool as good as new.
\<close>

definition base_safe :: "McConsumer \<Rightarrow> bool" where
  "base_safe c \<longleftrightarrow> source_safe (ClientReader c) \<and> source_safe (ServerReader c) \<and>
     length (eventBuf c) < eventBufCap \<and> (\<forall>r\<in>set (released c). r = Reader_New)"

definition mc_safe :: "McConsumer \<Rightarrow> bool" where
  "mc_safe c \<longleftrightarrow> base_safe c \<and> State c \<noteq> None \<and> (State c = Some ReadArgs \<longrightarrow> commandState (cmd c) \<noteq> None)"

definition data_size :: "McConsumer \<Rightarrow> nat" where
  "data_size c = source_size (ClientReader c) + source_size (ServerReader c)"

text \<open>The bytes still buffered bound the number of further state calls.\<close>

definition mc_measure :: "McConsumer \<Rightarrow> nat" where
  "mc_measure c = 2 * data_size c + (if State c = Some PeekMagicByte then 1 else 0)"

text \<open>What every state function guarantees.\<close>

definition good_step :: "McConsumer \<Rightarrow> outcome \<Rightarrow> bool" where
  "good_step c r \<longleftrightarrow> (\<exists>err c'. r = Some (err, c') \<and> mc_safe c' \<and> (err = None \<longrightarrow> mc_measure c' < mc_measure c))"

lemma good_step_Some [simp]:
  "good_step c (Some (err, c')) \<longleftrightarrow> mc_safe c' \<and> (err = None \<longrightarrow> mc_measure c' < mc_measure c)"
  by (auto simp: good_step_def)

lemmas step_defs = mc_safe_def mc_measure_def data_size_def

lemma base_safe_sources [simp]:
  "base_safe (c\<lparr>ClientReader := s\<rparr>) \<longleftrightarrow>
     source_safe s \<and> source_safe (ServerReader c) \<and> length (eventBuf c) < eventBufCap \<and>
     (\<forall>r\<in>set (released c). r = Reader_New)"
  "base_safe (c\<lparr>ServerReader := s\<rparr>) \<longleftrightarrow>
     source_safe (ClientReader c) \<and> source_safe s \<and> length (eventBuf c) < eventBufCap \<and>
     (\<forall>r\<in>set (released c). r = Reader_New)"
  "base_safe (c\<lparr>State := st\<rparr>) = base_safe c" "base_safe (c\<lparr>args := a\<rparr>) = base_safe c"
  "base_safe (c\<lparr>cmd := w\<rparr>) = base_safe c" "base_safe (c\<lparr>Run := f\<rparr>) = base_safe c"
  by (auto simp: base_safe_def)

lemma base_safeD:
  assumes "base_safe c"
  shows "source_safe (ClientReader c)" "source_safe (ServerReader c)"
    "length (eventBuf c) < eventBufCap" "\<forall>r\<in>set (released c). r = Reader_New"
  using assms by (auto simp: base_safe_def)

lemma base_safe_AddEvent: "base_safe c \<Longrightarrow> base_safe (AddEvent c e)"
  by (simp add: base_safe_def AddEvent_buffer)

lemma release_new: "source_safe (ReaderSource r) \<Longrightarrow> Reader_Reset r = Reader_New"
  by (simp add: Reader_Reset_New)

lemma base_safe_release:
  "base_safe c \<Longrightarrow> base_safe (release_client c)" "base_safe c \<Longrightarrow> base_safe (release_server c)"
  by (auto simp: base_safe_def release_client_def release_server_def Reader_Reset_New split: Source.splits)

lemma base_safe_Close: "base_safe c \<Longrightarrow> base_safe (Consumer_Close c)"
  by (simp add: Consumer_Close_def base_safe_release)

lemma discardResponse_good:
  assumes "base_safe c" and "c' = c \<or> (\<exists>s. c' = c\<lparr>ClientReader := s\<rparr> \<and> source_safe s \<and> source_size s \<le> source_size (ClientReader c))"
  shows "good_step c (discardResponse c')"
proof -
  have safe: "source_safe (ServerReader c)" by (rule base_safeD [OF assms(1)])
  obtain line err s where "Source_ReadLine (ServerReader c) = Some ((line, err), s)" "source_safe s"
    "source_size s \<le> source_size (ServerReader c)" "err = None \<longrightarrow> source_size s < source_size (ServerReader c)"
    using src.readLine_ok [OF safe] by blast
  with assms show ?thesis
    by (cases err) (auto simp: discardResponse_def step_defs base_safeD)
qed

lemma nextWord_ok:
  "source_safe s \<Longrightarrow> \<exists>out err s'. nextWord s = Some ((out, err), s') \<and> source_safe s' \<and>
     source_size s' \<le> source_size s \<and> (err = None \<longrightarrow> out \<noteq> [] \<and> source_size s' < source_size s)"
  unfolding nextWord_def by (rule src.word_ok)

lemma readCommand_good:
  assumes "base_safe c" and "State c = Some ReadCommand"
  shows "good_step c (readCommand c)"
proof -
  note sf = base_safeD [OF assms(1)]
  have t: "source_safe (Source_Truncate (ServerReader c))"
    "source_size (Source_Truncate (ServerReader c)) \<le> source_size (ServerReader c)"
    using src.truncate_ok [OF sf(2)] by auto
  obtain out err s where "nextWord (ClientReader c) = Some ((out, err), s)" "source_safe s"
    "source_size s \<le> source_size (ClientReader c)"
    "err = None \<longrightarrow> out \<noteq> [] \<and> source_size s < source_size (ClientReader c)"
    using nextWord_ok [OF sf(1)] by blast
  with sf t assms(2) show ?thesis
    by (cases err) (auto simp: readCommand_def Let_def step_defs)
qed

lemma readArgs_good:
  assumes "base_safe c" and "State c = Some ReadArgs" and "commandState (cmd c) \<noteq> None"
  shows "good_step c (readArgs c)"
proof -
  note sf = base_safeD [OF assms(1)]
  have t: "source_safe (Source_Truncate (ServerReader c))"
    "source_size (Source_Truncate (ServerReader c)) \<le> source_size (ServerReader c)"
    using src.truncate_ok [OF sf(2)] by auto
  obtain out err s where w: "nextWord (ClientReader c) = Some ((out, err), s)" "source_safe s"
    "source_size s \<le> source_size (ClientReader c)"
    "err = None \<longrightarrow> out \<noteq> [] \<and> source_size s < source_size (ClientReader c)"
    using nextWord_ok [OF sf(1)] by blast
  have "commandState (cmd c) \<noteq> Some ReadArgs" "commandState (cmd c) \<noteq> Some PeekMagicByte"
    by (auto simp: commandState_def)
  with w sf t assms(2,3) show ?thesis
    by (cases err; cases out) (auto simp: readArgs_def Let_def step_defs)
qed

lemma peekMagicByte_good:
  assumes "base_safe c" and "State c = Some PeekMagicByte"
  shows "good_step c (peekMagicByte c)"
proof -
  note sf = base_safeD [OF assms(1)]
  have t: "source_safe (Source_Truncate (ServerReader c))" "source_safe (Source_Truncate (ClientReader c))"
    "source_size (Source_Truncate (ServerReader c)) \<le> source_size (ServerReader c)"
    using src.truncate_ok [OF sf(1)] src.truncate_ok [OF sf(2)] by auto
  obtain out err where p: "Source_PeekN (ClientReader c) 1 = Some (out, err)" "err = None \<longrightarrow> length out = 1"
    using src.peekN_ok [OF sf(1), of 1] by auto
  have "base_safe (Consumer_Close (c\<lparr>ServerReader := Source_Truncate (ServerReader c)\<rparr>))"
    using sf t by (intro base_safe_Close) simp
  then have "mc_safe (Consumer_Close (c\<lparr>ServerReader := Source_Truncate (ServerReader c)\<rparr>))"
    using assms(2) by (simp add: mc_safe_def Consumer_Close_def)
  with p sf t assms(2) show ?thesis
    by (cases err) (auto simp: peekMagicByte_def Let_def step_defs split: go_error.splits)
qed

lemma AddEvent_more [simp]: "cmd (AddEvent c e) = cmd c" "args (AddEvent c e) = args c"
  by (simp_all add: AddEvent_def FlushEvents_def Let_def)

lemma handleGet_loop_good:
  "base_safe c \<Longrightarrow> \<exists>err c'. handleGet_loop c = Some (err, c') \<and> base_safe c' \<and>
     ClientReader c' = ClientReader c \<and> cmd c' = cmd c \<and> Run c' = Run c \<and>
     source_size (ServerReader c') \<le> source_size (ServerReader c) \<and>
     State c' = (if err = None then Some ReadCommand else State c) \<and>
     (err = None \<longrightarrow> source_size (ServerReader c') < source_size (ServerReader c))"
proof (induction "source_size (ServerReader c)" arbitrary: c rule: less_induct)
  case less
  note sf = base_safeD [OF less.prems]
  obtain line err s where l: "Source_ReadLine (ServerReader c) = Some ((line, err), s)" "source_safe s"
    "source_size s \<le> source_size (ServerReader c)" "err = None \<longrightarrow> source_size s < source_size (ServerReader c)"
    using src.readLine_ok [OF sf(2)] by blast
  show ?case
  proof (cases "err = None \<and> (\<exists>k f sz. value_line line = Some (k, f) \<and> Atoi f = Inr sz)")
    case False
    have "handleGet_loop c = Some (None, c\<lparr>ServerReader := s, State := Some ReadCommand\<rparr>) \<and> err = None \<or>
        (\<exists>e. handleGet_loop c = Some (Some e, c\<lparr>ServerReader := s\<rparr>))"
      using False l(1) by (subst (1 2) handleGet_loop.simps)
        (cases err; cases "value_line line"; auto simp: Let_def split: sum.splits)
    with l sf show ?thesis by auto
  next
    case True
    then obtain k f sz where v: "err = None" "value_line line = Some (k, f)" "Atoi f = Inr sz" by blast
    define c1 where "c1 = AddEvent (c\<lparr>ServerReader := s\<rparr>) \<lparr>EType = EventGetHit, Key = k, Size = sz\<rparr>"
    have c1: "base_safe c1" unfolding c1_def using l(2) sf by (intro base_safe_AddEvent) simp
    obtain n err2 s2 where d: "Source_Discard s (gint (sz + int (length crlf))) = Some ((n, err2), s2)" "source_safe s2"
      "source_size s2 \<le> source_size s"
      using src.discard_ok [OF l(2)] by blast
    define c2 where "c2 = c1\<lparr>ServerReader := s2\<rparr>"
    have c2: "base_safe c2" using base_safeD [OF c1] d(2) by (simp add: c2_def)
    have same: "ClientReader c2 = ClientReader c" "cmd c2 = cmd c" "Run c2 = Run c" "State c2 = State c"
      "ServerReader c2 = s2" by (simp_all add: c2_def c1_def)
    have eq: "handleGet_loop c = (if err2 \<noteq> None then Some (err2, c2) else handleGet_loop c2)"
      using l v d by (subst handleGet_loop.simps) (simp add: c1_def c2_def Let_def)
    show ?thesis
    proof (cases err2)
      case None
      have "source_size (ServerReader c2) < source_size (ServerReader c)" using l(4) v d same by simp
      from less.hyps [OF this c2] eq None same this show ?thesis by fastforce
    next
      case (Some e)
      with eq c2 same d(3) l(3) show ?thesis by simp
    qed
  qed
qed

lemma handleGet_good:
  assumes "base_safe c" and "State c = Some HandleGet"
  shows "good_step c (handleGet c)"
proof (cases "length (args c) < 1")
  case True
  with discardResponse_good [OF assms(1), of c] show ?thesis by (simp add: handleGet_def)
next
  case False
  with handleGet_loop_good [OF assms(1)] assms(2) show ?thesis
    by (auto simp: handleGet_def step_defs)
qed

lemma handleSet_good:
  assumes "base_safe c" and "State c = Some HandleSet"
  shows "good_step c (handleSet c)"
proof -
  note sf = base_safeD [OF assms(1)] and dr = discardResponse_good [OF assms(1)]
  have "good_step c (do { ((n, err), s) \<leftarrow> Source_Discard (ClientReader c) (gint (sz + int (length crlf)));
      let c = c\<lparr>ClientReader := s\<rparr>;
      if err \<noteq> None then Some (err, c) else discardResponse c })" for sz
  proof -
    obtain n err s where d: "Source_Discard (ClientReader c) (gint (sz + int (length crlf))) = Some ((n, err), s)"
      "source_safe s" "source_size s \<le> source_size (ClientReader c)"
      using src.discard_ok [OF sf(1)] by blast
    with dr [of "c\<lparr>ClientReader := s\<rparr>"] sf assms(2) show ?thesis by (cases err) (auto simp: mc_safe_def)
  qed
  then show ?thesis using dr [of c] by (simp add: handleSet_def split: sum.splits)
qed

lemma handleQuit_good: "base_safe c \<Longrightarrow> good_step c (handleQuit c)"
  using src.close_ok by (auto simp: handleQuit_def mc_safe_def base_safe_def)

lemma call_state_good:
  assumes "mc_safe c"
  shows "good_step c (call_state c)"
proof -
  from assms obtain st where b: "base_safe c" "State c = Some st"
    "st = ReadArgs \<longrightarrow> commandState (cmd c) \<noteq> None" by (auto simp: mc_safe_def)
  note goods = peekMagicByte_good readCommand_good readArgs_good handleGet_good handleSet_good handleQuit_good
    discardResponse_good [where c' = c and c = c]
  from b goods assms show ?thesis
    by (cases st) (simp_all add: call_state_def handleUnknown_def)
qed

lemma resync_safe: "base_safe c \<Longrightarrow> mc_safe (resync c)"
  using src.reset_ok by (auto simp: resync_def mc_safe_def base_safe_def)

lemma mc_run_safe: "mc_safe c \<Longrightarrow> \<exists>c'. mc_run c = Some c' \<and> mc_safe c'"
proof (induction "mc_measure c" arbitrary: c rule: less_induct)
  case less
  obtain err c1 where s: "call_state c = Some (err, c1)" "mc_safe c1"
    "err = None \<longrightarrow> mc_measure c1 < mc_measure c"
    using call_state_good [OF less.prems] by (auto simp: good_step_def)
  show ?case
  proof (cases err)
    case None
    with s less.hyps [of c1] show ?thesis by (subst mc_run.simps) simp
  next
    case (Some e)
    with s resync_safe [of c1] show ?thesis by (subst mc_run.simps) (auto simp: mc_safe_def)
  qed
qed

lemma call_Run_safe: "mc_safe c \<Longrightarrow> \<exists>c'. call_Run c = Some c' \<and> mc_safe c'"
  using mc_run_safe by (auto simp: call_Run_def split: RunFn.splits)

lemma ClientStream_safe:
  "\<lbrakk> mc_safe c; \<forall>x\<in>set rs. reassembly_ok x \<rbrakk>
   \<Longrightarrow> \<exists>c'. ClientStream_Reassembled call_Run c rs = Some c' \<and> mc_safe c'"
proof (induction rs arbitrary: c)
  case (Cons r rs)
  obtain s where s: "Source_Reassembled (ClientReader c) [r] = Some s" "source_safe s"
    using Source_Reassembled_safe [of "ClientReader c" "[r]"] Cons.prems by (auto simp: mc_safe_def base_safe_def)
  then have "mc_safe (c\<lparr>ClientReader := s\<rparr>)" using Cons.prems(1) by (simp add: mc_safe_def base_safe_def)
  from call_Run_safe [OF this] obtain c1 where "call_Run (c\<lparr>ClientReader := s\<rparr>) = Some c1" "mc_safe c1" by blast
  with s Cons show ?case by simp
qed simp

lemma ServerStream_safe:
  "\<lbrakk> mc_safe c; \<forall>x\<in>set rs. reassembly_ok x \<rbrakk>
   \<Longrightarrow> \<exists>c'. ServerStream_Reassembled call_Run c rs = Some c' \<and> mc_safe c'"
proof (induction rs arbitrary: c)
  case (Cons r rs)
  obtain s where s: "Source_Reassembled (ServerReader c) [r] = Some s" "source_safe s"
    using Source_Reassembled_safe [of "ServerReader c" "[r]"] Cons.prems by (auto simp: mc_safe_def base_safe_def)
  then have "mc_safe (c\<lparr>ServerReader := s\<rparr>)" using Cons.prems(1) by (simp add: mc_safe_def base_safe_def)
  from call_Run_safe [OF this] obtain c1 where "call_Run (c\<lparr>ServerReader := s\<rparr>) = Some c1" "mc_safe c1" by blast
  with s Cons show ?case by simp
qed simp

lemma Complete_safe:
  assumes "mc_safe c"
  shows "mc_safe (ClientStream_ReassemblyComplete c)" and "mc_safe (ServerStream_ReassemblyComplete c)"
proof -
  have more: "cmd (release_client x) = cmd x" "cmd (release_server x) = cmd x" "cmd (FlushEvents x) = cmd x"
    for x :: McConsumer
    by (simp_all add: release_client_def release_server_def FlushEvents_def split: Source.splits)
  have b: "base_safe (FlushEvents (c\<lparr>ClientReader := Source_ReassemblyComplete (ClientReader c)\<rparr>))"
    "base_safe (FlushEvents (c\<lparr>ServerReader := Source_ReassemblyComplete (ServerReader c)\<rparr>))"
    using assms Source_ReassemblyComplete_safe
    by (auto simp: mc_safe_def base_safe_def eventBufCap_def)
  show "mc_safe (ClientStream_ReassemblyComplete c)" "mc_safe (ServerStream_ReassemblyComplete c)"
    using assms base_safe_release(1) [OF b(1)] base_safe_release(2) [OF b(2)]
    by (simp_all add: ClientStream_ReassemblyComplete_def ServerStream_ReassemblyComplete_def mc_safe_def more)
qed

fun call_ok :: "StreamCall \<Rightarrow> bool" where
  "call_ok (ClientReassembled rs) = (\<forall>x\<in>set rs. reassembly_ok x)"
| "call_ok (ServerReassembled rs) = (\<forall>x\<in>set rs. reassembly_ok x)"
| "call_ok _ = True"

lemma stream_call_safe: "\<lbrakk> mc_safe c; call_ok x \<rbrakk> \<Longrightarrow> \<exists>c'. stream_call c x = Some c' \<and> mc_safe c'"
  by (cases x) (auto intro: ClientStream_safe ServerStream_safe Complete_safe)

lemma conversation_safe:
  "\<lbrakk> mc_safe c; \<forall>x\<in>set xs. call_ok x \<rbrakk> \<Longrightarrow> \<exists>c'. conversation c xs = Some c' \<and> mc_safe c'"
proof (induction xs arbitrary: c)
  case (Cons x xs)
  then obtain c1 where "stream_call c x = Some c1" "mc_safe c1" using stream_call_safe by fastforce
  with Cons show ?case by simp
qed simp

lemma NewConsumer_safe:
  assumes "\<forall>r\<in>set pool. r = Reader_New"
  shows "mc_safe (fst (NewConsumer pool)) \<and> (\<forall>r\<in>set (snd (NewConsumer pool)). r = Reader_New)"
proof -
  have g: "fst (bufferPool_Get p) = Reader_New \<and> (\<forall>r\<in>set (snd (bufferPool_Get p)). r = Reader_New)"
    if "\<forall>r\<in>set p. r = Reader_New" for p
    using that by (cases p) auto
  from g [OF assms] g [of "snd (bufferPool_Get pool)"] show ?thesis
    by (auto simp: NewConsumer_def Consumer_New_def Let_def split_beta mc_safe_def base_safe_def
        Consumer.defs McConsumer.defs eventBufCap_def reader_safe_New)
qed

section \<open>Consumers that no longer look at their data\<close>

text \<open>A consumer whose events are final: closed (\<open>Run\<close> does nothing) or past a \<open>quit\<close>.\<close>

definition finished :: "McConsumer \<Rightarrow> bool" where
  "finished c \<longleftrightarrow> Run c = RunNothing \<or> State c = Some AfterQuit"

lemma call_Run_finished: "finished c \<Longrightarrow> call_Run c = Some c"
  by (auto simp: finished_def call_Run_def call_state_def mc_run.simps [of c] split: RunFn.splits)

lemma finished_update [simp]:
  "finished (c\<lparr>ClientReader := s\<rparr>) = finished c" "finished (c\<lparr>ServerReader := s\<rparr>) = finished c"
  "finished (release_client c) = finished c" "finished (release_server c) = finished c"
  "finished (FlushEvents c) = finished c"
  by (simp_all add: finished_def)

lemma all_events_release [simp]:
  "all_events (release_client c) = all_events c" "all_events (release_server c) = all_events c"
  by (simp_all add: all_events_def)

lemma ClientStream_finished:
  "\<lbrakk> finished c; ClientStream_Reassembled call_Run c rs = Some c' \<rbrakk> \<Longrightarrow> finished c' \<and> all_events c' = all_events c"
proof (induction rs arbitrary: c)
  case (Cons r rs)
  then obtain s where "ClientStream_Reassembled call_Run (c\<lparr>ClientReader := s\<rparr>) rs = Some c'"
    by (auto simp: call_Run_finished bind_eq_Some_conv)
  with Cons.IH [of "c\<lparr>ClientReader := s\<rparr>"] Cons.prems(1) show ?case by simp
qed simp

lemma ServerStream_finished:
  "\<lbrakk> finished c; ServerStream_Reassembled call_Run c rs = Some c' \<rbrakk> \<Longrightarrow> finished c' \<and> all_events c' = all_events c"
proof (induction rs arbitrary: c)
  case (Cons r rs)
  then obtain s where "ServerStream_Reassembled call_Run (c\<lparr>ServerReader := s\<rparr>) rs = Some c'"
    by (auto simp: call_Run_finished bind_eq_Some_conv)
  with Cons.IH [of "c\<lparr>ServerReader := s\<rparr>"] Cons.prems(1) show ?case by simp
qed simp

lemma stream_call_finished: "\<lbrakk> finished c; stream_call c x = Some c' \<rbrakk> \<Longrightarrow> finished c' \<and> all_events c' = all_events c"
  by (cases x) (auto simp: ClientStream_ReassemblyComplete_def ServerStream_ReassemblyComplete_def
      dest: ClientStream_finished ServerStream_finished)

lemma conversation_finished:
  "\<lbrakk> finished c; conversation c xs = Some c' \<rbrakk> \<Longrightarrow> finished c' \<and> all_events c' = all_events c"
proof (induction xs arbitrary: c)
  case (Cons x xs)
  then obtain c1 where "stream_call c x = Some c1" "conversation c1 xs = Some c'" by (auto simp: bind_eq_Some_conv)
  with Cons stream_call_finished [of c x c1] show ?case by auto
qed simp

section \<open>Properties\<close>

text \<open>
  C8.  Whatever the peers send, with whatever loss, and in whatever order the assembler calls the two
  streams: the consumer neither panics nor loops forever, its state function is never \<open>nil\<close>, its event buffer
  never reaches its capacity between calls, and every reader it gives back to the pool is as good as new.
\<close>

theorem conversation_total:
  assumes "\<forall>r\<in>set pool. r = Reader_New" and "\<forall>x\<in>set xs. call_ok x"
  shows "\<exists>c'. conversation (fst (NewConsumer pool)) xs = Some c' \<and> State c' \<noteq> None \<and>
    length (eventBuf c') < eventBufCap \<and> (\<forall>r\<in>set (released c'). r = Reader_New)"
  using conversation_safe [of "fst (NewConsumer pool)" xs] NewConsumer_safe [OF assms(1)] assms(2)
  by (auto simp: mc_safe_def base_safe_def)

definition stray_calls :: "StreamCall list" where
  "stray_calls =
     [ServerReassembled [\<lparr>Bytes = ''VALUE '', Skip = 12, Start = False, End = False, Seen = 0\<rparr>],
      ClientReassembled [\<lparr>Bytes = ''get x'', Skip = -1, Start = True, End = False, Seen = 0\<rparr>],
      ClientComplete, ServerComplete]"

theorem conversation_total_witness:
  "\<exists>c'. conversation (fst (NewConsumer [Reader_New])) stray_calls = Some c' \<and> State c' \<noteq> None \<and>
    length (eventBuf c') < eventBufCap \<and> (\<forall>r\<in>set (released c'). r = Reader_New)"
  by (rule conversation_total) (auto simp: stray_calls_def reassembly_ok_def chunk_ok_def maxcap_def)

text \<open>
  C29.  After \<open>quit\<close> the consumer is silent: once \<open>handleQuit\<close> has run, no further traffic on the connection, and
  neither end of the streams, adds an event.
\<close>

theorem quit_silences:
  assumes "handleQuit c = Some (err, c1)" and "conversation c1 xs = Some c'"
  shows "err = Some EOF \<and> all_events c' = all_events c"
  using assms conversation_finished [of c1 xs c'] by (auto simp: handleQuit_def finished_def)

definition quitting :: McConsumer where
  "quitting = (fst (NewConsumer []))\<lparr>State := Some HandleQuit\<rparr>"

theorem quit_silences_witness:
  "\<exists>c1 c'. handleQuit quitting = Some (Some EOF, c1) \<and>
     conversation c1 (stray_calls @ [ServerComplete]) = Some c' \<and> all_events c' = all_events quitting"
proof -
  obtain c1 where c1: "handleQuit quitting = Some (Some EOF, c1)" by (simp add: handleQuit_def)
  have q: "mc_safe quitting"
    using NewConsumer_safe [of "[]"] by (simp add: quitting_def mc_safe_def)
  have "mc_safe c1" using handleQuit_good [of quitting] q c1 by (simp add: mc_safe_def [of quitting])
  moreover have "\<forall>x\<in>set (stray_calls @ [ServerComplete]). call_ok x"
    by (auto simp: stray_calls_def reassembly_ok_def chunk_ok_def maxcap_def)
  ultimately obtain c' where "conversation c1 (stray_calls @ [ServerComplete]) = Some c'"
    using conversation_safe by blast
  with quit_silences [OF c1 this] c1 show ?thesis by blast
qed

end
