(* ===== verification/MctextSession.thy ===== *)
theory MctextSession
  imports Mctext
begin

text \<open>
  Functional correctness of the text protocol consumer on a \<open>get\<close> exchange, independent of how TCP
  cs the bytes into segments.
\<close>

section \<open>Readers over a lossless stream\<close>

text \<open>A usable reader that has received exactly the bytes \<open>P\<close> and stands at position \<open>p\<close>.\<close>

definition lossless :: "byte list \<Rightarrow> nat \<Rightarrow> cursor" where
  "lossless P p = \<lparr>seen = map Some P, pos = p\<rparr>"

definition reading :: "Source \<Rightarrow> byte list \<Rightarrow> nat \<Rightarrow> bool" where
  "reading s P p \<longleftrightarrow> (\<exists>r. s = ReaderSource r \<and> rerr r = None \<and> \<not> closed r \<and> \<not> eof r \<and>
     bcap (rbuf r) = BufferSize \<and> refines (rbuf r) (lossless P p))"

lemma pending_lossless [simp]: "pending (lossless P p) = map Some (drop p P)"
  by (simp add: pending_def lossless_def drop_map)

lemma ready_lossless [simp]: "ready (lossless P p) = drop p P"
  by (simp add: ready_def comp_def takeWhile_map)

lemma received_map_Some [simp]: "received (map Some d) = d"
  by (simp add: received_def comp_def)

lemma advance_lossless [simp]: "advance (lossless P p) n = lossless P (p + n)"
  by (simp add: advance_def lossless_def)

lemma feed_lossless [simp]: "feed (lossless P p) 0 d = lossless (P @ d) p"
  by (simp add: feed_def lossless_def chunk_stream_def)

lemma refines_lossless_small:
  assumes "refines b (lossless P p)" and "bcap b = BufferSize"
  shows "blen b < maxint" and "length (drop p P) \<le> 32768" and "bdiscard b = int (p - length P)"
proof -
  have "buf b = drop p P" using refines_buf [OF assms(1)] by simp
  moreover have "int (length (buf b)) \<le> BufferSize"
    using buf_safe_blocks(5) [OF refines_safe [OF assms(1)]] assms(2) by simp
  ultimately show "length (drop p P) \<le> 32768" by (simp add: BufferSize_def)
  then show "blen b < maxint" using refines_blen [OF assms(1)] by (simp add: maxint_def)
  show "bdiscard b = int (p - length P)"
    using refines_bdiscard [OF assms(1)] by (simp add: lossless_def)
qed

lemma reading_ReadLine_short:
  assumes "reading s P p" and "LF \<notin> set (drop p P)"
  shows "Source_ReadLine s = Some (([], Some ErrShortRead), s)"
proof -
  obtain r where r: "s = ReaderSource r" "rerr r = None" "\<not> eof r" "bcap (rbuf r) = BufferSize"
    "refines (rbuf r) (lossless P p)" using assms(1) by (auto simp: reading_def)
  have "Buffer_ReadLine (rbuf r) = Some (([], Some ErrShortRead), rbuf r)"
    using Buffer_ReadLine_refines [OF r(5) refines_lossless_small(1) [OF r(5,4)]] assms(2) by simp
  with r show ?thesis by (simp add: Reader_ReadLine_def eof_error_def)
qed

lemma reading_ReadLine_line:
  assumes "reading s P p" and "drop p P = l @ LF # rest" and "LF \<notin> set l"
  shows "\<exists>s'. Source_ReadLine s = Some ((trim_cr l, None), s') \<and> reading s' P (p + length l + 1)"
proof -
  obtain r where r: "s = ReaderSource r" "rerr r = None" "\<not> eof r" "\<not> closed r" "bcap (rbuf r) = BufferSize"
    "refines (rbuf r) (lossless P p)" using assms(1) by (auto simp: reading_def)
  have tw: "takeWhile (\<lambda>x. x \<noteq> LF) (drop p P) = l"
    using assms(2,3) by (subst assms(2), subst takeWhile_append2) auto
  obtain b' where "Buffer_ReadLine (rbuf r) = Some ((trim_cr l, None), b')"
    "refines b' (lossless P (p + length l + 1))" "bcap b' = BufferSize"
    using Buffer_ReadLine_refines [OF r(6) refines_lossless_small(1) [OF r(6,5)]] assms(2) r(5) tw
    by (auto simp: add.assoc)
  with r show ?thesis
    by (simp add: Reader_ReadLine_def eof_error_def reading_def)
qed

lemma reading_Discard:
  assumes "reading s P p" and "p \<le> length P" and "0 \<le> n" and "n \<le> maxint"
  shows "\<exists>s'. Source_Discard s n = Some ((n, None), s') \<and> reading s' P (p + nat n)"
proof -
  obtain r where r: "s = ReaderSource r" "rerr r = None" "\<not> eof r" "\<not> closed r" "bcap (rbuf r) = BufferSize"
    "refines (rbuf r) (lossless P p)" using assms(1) by (auto simp: reading_def)
  have "bdiscard (rbuf r) = 0" using refines_lossless_small(3) [OF r(6,5)] assms(2) by simp
  then obtain b' where "Buffer_Discard (rbuf r) n = Some b'" "refines b' (lossless P (p + nat n))" "bcap b' = BufferSize"
    using Buffer_Discard_refines [OF r(6) assms(3)] assms(4) r(5) by auto
  with r show ?thesis by (simp add: Reader_Discard_def reading_def)
qed

text \<open>A segment without loss.\<close>

definition segment :: "byte list \<Rightarrow> Reassembly" where
  "segment d = \<lparr>Bytes = d, Skip = 0, Start = False, End = False, Seen = 0\<rparr>"

lemma reading_Reassembled:
  assumes "reading s P p" and "length (drop p (P @ d)) \<le> 32768" and "length d \<le> 32768"
  shows "\<exists>s'. Source_Reassembled s [segment d] = Some s' \<and> reading s' (P @ d) p"
proof -
  obtain r where r: "s = ReaderSource r" "rerr r = None" "\<not> eof r" "\<not> closed r" "bcap (rbuf r) = BufferSize"
    "refines (rbuf r) (lossless P p)" using assms(1) by (auto simp: reading_def)
  have "blen (rbuf r) \<le> 32768"
    using refines_blen [OF r(6)] refines_lossless_small(2) [OF r(6,5)] by simp
  then have "blen (rbuf r) + max 0 0 + int (length d) \<le> maxint"
    using assms(3) by (simp add: maxint_def)
  moreover have "chunk_ok 0 d" using assms(3) by (simp add: chunk_ok_def maxcap_def)
  ultimately obtain b' where "Buffer_Write (rbuf r) 0 d = Some (b', None)" "refines b' (lossless (P @ d) p)"
    "bcap b' = BufferSize"
    using Buffer_Write_refines [OF r(6), of 0 d] assms(2) r(5) by (auto simp: BufferSize_def)
  with r show ?thesis by (simp add: Reader_Reassembled_def segment_def reading_def)
qed

lemma reading_empty [simp]: "reading s P p \<Longrightarrow> reading (Source_Truncate s) [] 0"
  using refines_Reset by (fastforce simp: reading_def Reader_Truncate_def lossless_def Buffer_Reset_def)

lemma reading_PeekN:
  assumes "reading s P p"
  shows "Source_PeekN s 1 = Some (if drop p P = [] then ([], Some ErrShortRead) else ([P ! p], None))"
proof -
  obtain r where r: "s = ReaderSource r" "rerr r = None" "\<not> eof r" "refines (rbuf r) (lossless P p)"
    using assms by (auto simp: reading_def)
  have "Buffer_PeekN (rbuf r) 1 = Some (if drop p P = [] then ([], Some ErrShortRead) else ([P ! p], None))"
    using Buffer_PeekN_refines [OF r(4), of 1] by (cases "p < length P") (auto simp: Cons_nth_drop_Suc [symmetric])
  with r show ?thesis by (simp add: Reader_PeekN_def eof_error_def)
qed

lemma reading_IndexAny:
  assumes "reading s P p"
  shows "Source_IndexAny s cs = Some (if \<exists>x\<in>set (drop p P). x \<in> set cs
    then (int (length (takeWhile (\<lambda>x. x \<notin> set cs) (drop p P))), None) else (-1, Some ErrShortRead))"
proof -
  obtain r where r: "s = ReaderSource r" "rerr r = None" "\<not> eof r" "refines (rbuf r) (lossless P p)"
    using assms by (auto simp: reading_def)
  have "Buffer_IndexAny (rbuf r) cs = Some (if \<exists>x\<in>set (drop p P). x \<in> set cs
    then (int (length (takeWhile (\<lambda>x. x \<notin> set cs) (drop p P))), None) else (-1, Some ErrShortRead))"
    using Buffer_IndexAny_refines [OF r(4), of cs] by (auto split: if_splits)
  with r show ?thesis by (auto simp: Reader_IndexAny_def eof_error_def)
qed

lemma reading_ReadN:
  assumes "reading s P p" and "0 < n" and "n \<le> length (drop p P)"
  shows "\<exists>s'. Source_ReadN s (int n) = Some ((take n (drop p P), None), s') \<and> reading s' P (p + n)"
proof -
  obtain r where r: "s = ReaderSource r" "rerr r = None" "\<not> eof r" "\<not> closed r" "bcap (rbuf r) = BufferSize"
    "refines (rbuf r) (lossless P p)" using assms(1) by (auto simp: reading_def)
  obtain b' where "Buffer_ReadN (rbuf r) (int n) = Some ((take n (drop p P), None), b')"
    "refines b' (lossless P (p + n))" "bcap b' = BufferSize"
    using Buffer_ReadN_refines [OF r(6) _ refines_lossless_small(1) [OF r(6,5)], of "int n"] assms(2,3) r(5)
    by (cases "int n \<le> int (length P) - int p") auto
  with r show ?thesis by (simp add: Reader_ReadN_def eof_error_def reading_def)
qed

definition is_delim :: "char \<Rightarrow> bool" where
  "is_delim x \<longleftrightarrow> x = CHR '' '' \<or> x = LF"

lemma set_word_delims: "x \<in> set word_delims \<longleftrightarrow> is_delim x"
  by (auto simp: word_delims_def is_delim_def)

lemma reading_nextWord_short:
  assumes "reading s P p" and "\<forall>x\<in>set (drop p P). \<not> is_delim x"
  shows "nextWord s = Some (([], Some ErrShortRead), s)"
  using assms reading_IndexAny [OF assms(1), of word_delims] by (auto simp: nextWord_def set_word_delims)

lemma reading_nextWord_word:
  assumes "reading s P p" and "drop p P = w @ d # rest" and "\<forall>x\<in>set w. \<not> is_delim x" and "is_delim d"
  shows "\<exists>s'. nextWord s = Some ((w @ [d], None), s') \<and> reading s' P (p + length w + 1)"
proof -
  have tw: "takeWhile (\<lambda>x. x \<notin> set word_delims) (drop p P) = w"
    unfolding assms(2) using assms(3,4) by (subst takeWhile_append2) (auto simp: set_word_delims)
  have i: "Source_IndexAny s word_delims = Some (int (length w), None)"
    using reading_IndexAny [OF assms(1), of word_delims] assms(2,4) tw by (auto simp: set_word_delims)
  have len: "length (drop p P) \<le> 32768"
    using assms(1) refines_lossless_small(2) by (auto simp: reading_def)
  then have g: "gint (int (length w) + 1) = int (length w + 1)"
    using assms(2) by (subst gint_id) (auto simp: int64_def)
  have "length w + 1 \<le> length (drop p P)" unfolding assms(2) by simp
  from reading_ReadN [OF assms(1) _ this] assms(2) i g show ?thesis by (simp add: nextWord_def add.assoc)
qed

section \<open>The exchanges of the protocol\<close>

text \<open>
  A retrieval with the values of its reply, as key, flags and data, or a storage command with its
  arguments, the data block and the line of the reply.
\<close>

datatype exchange =
    Retrieval string "string list" "(string \<times> string \<times> byte list) list"
  | Storage string "string list" "byte list" string

fun args_bytes :: "string list \<Rightarrow> byte list" where
  "args_bytes [] = []"
| "args_bytes [w] = w @ crlf"
| "args_bytes (w # v # ws) = w @ CHR '' '' # args_bytes (v # ws)"

definition header :: "string \<Rightarrow> string list \<Rightarrow> byte list" where
  "header w ws = w @ CHR '' '' # args_bytes ws"

fun value_head :: "string \<times> string \<times> byte list \<Rightarrow> byte list" where
  "value_head (k, f, d) =
     ''VALUE'' @ CHR '' '' # k @ CHR '' '' # f @ CHR '' '' # Itoa (int (length d)) @ [CR]"

definition value_bytes :: "string \<times> string \<times> byte list \<Rightarrow> byte list" where
  "value_bytes v = value_head v @ LF # snd (snd v) @ crlf"

definition response :: "(string \<times> string \<times> byte list) list \<Rightarrow> byte list" where
  "response vs = concat (map value_bytes vs) @ ''END'' @ crlf"

fun hit :: "string \<times> string \<times> byte list \<Rightarrow> Event" where
  "hit (k, f, d) = \<lparr>EType = EventGetHit, Key = k, Size = int (length d)\<rparr>"

fun request_of :: "exchange \<Rightarrow> byte list" where
  "request_of (Retrieval w ws vs) = header w ws"
| "request_of (Storage w ws d reply) = header w ws @ d @ crlf"

fun reply_of :: "exchange \<Rightarrow> byte list" where
  "reply_of (Retrieval w ws vs) = response vs"
| "reply_of (Storage w ws d reply) = reply @ crlf"

fun hits_of :: "exchange \<Rightarrow> Event list" where
  "hits_of (Retrieval w ws vs) = map hit vs"
| "hits_of (Storage w ws d reply) = []"

text \<open>
  Words are free of separators, storage commands announce the length of their data, and a line and
  a segment (of at most \<open>S\<close> bytes) together fit into the buffer of a reader.
\<close>

definition clean_word :: "string \<Rightarrow> bool" where
  "clean_word w \<longleftrightarrow> CHR '' '' \<notin> set w \<and> LF \<notin> set w \<and> CR \<notin> set w"

fun value_ok :: "nat \<Rightarrow> string \<times> string \<times> byte list \<Rightarrow> bool" where
  "value_ok S (k, f, d) \<longleftrightarrow> clean_word k \<and> clean_word f \<and> int (length d) + 2 \<le> maxint \<and>
     length (value_head (k, f, d)) + S \<le> 32768"

fun exchange_ok :: "nat \<Rightarrow> exchange \<Rightarrow> bool" where
  "exchange_ok S (Retrieval w ws vs) \<longleftrightarrow> w \<in> {''get'', ''gets''} \<and> ws \<noteq> [] \<and> list_all clean_word ws \<and>
     length (header w ws) + S \<le> 32768 \<and> list_all (value_ok S) vs"
| "exchange_ok S (Storage w ws d reply) \<longleftrightarrow>
     w \<in> {''set'', ''add'', ''replace'', ''append'', ''prepend'', ''cas''} \<and> 4 \<le> length ws \<and> list_all clean_word ws \<and>
     length (header w ws) + S \<le> 32768 \<and> ws ! 3 = Itoa (int (length d)) \<and> int (length d) + 2 \<le> maxint \<and>
     LF \<notin> set reply \<and> length reply + 2 + S \<le> 32768"

section \<open>The request\<close>

lemma mc_run_continue: "call_state c = Some (None, c') \<Longrightarrow> mc_run c = mc_run c'"
  by (subst mc_run.simps) simp

lemma mc_run_wait: "call_state c = Some (Some ErrShortRead, c') \<Longrightarrow> mc_run c = Some c'"
  by (subst mc_run.simps) simp

lemma all_events_args [simp]: "all_events (c\<lparr>args := a\<rparr>) = all_events c" "all_events (c\<lparr>cmd := w\<rparr>) = all_events c"
  by (simp_all add: all_events_def)

text \<open>What a step of the parser leaves alone, and the state it leaves the server's reader in.\<close>

definition keeps :: "McConsumer \<Rightarrow> McConsumer \<Rightarrow> bool" where
  "keeps c c' \<longleftrightarrow> Run c' = Run c \<and> all_events c' = all_events c \<and> reading (ServerReader c') [] 0"

lemma keeps_trans: "\<lbrakk> keeps a b; keeps b c \<rbrakk> \<Longrightarrow> keeps a c"
  by (simp add: keeps_def)

lemma bytes_TrimRight_keep: "\<forall>x\<in>set w. x \<notin> set cs \<Longrightarrow> bytes_TrimRight w cs = w"
  by (cases w rule: rev_cases) (auto simp: bytes_TrimRight_def)

lemma bytes_TrimRight_drop: "c \<in> set cs \<Longrightarrow> bytes_TrimRight (w @ [c]) cs = bytes_TrimRight w cs"
  by (simp add: bytes_TrimRight_def)

lemma clean_word_delim: "clean_word w \<Longrightarrow> \<forall>x\<in>set w. \<not> is_delim x"
  by (auto simp: clean_word_def is_delim_def)

lemma incomplete_set:
  assumes "xs @ R = u @ d # T" and "length xs \<le> length u"
  shows "set xs \<subseteq> set u"
proof -
  have "xs = take (length xs) u" using arg_cong [OF assms(1), of "take (length xs)"] assms(2) by simp
  then show ?thesis by (metis set_take_subset)
qed

lemma complete_prefix: "\<lbrakk> xs @ R = u @ T; length u \<le> length xs \<rbrakk> \<Longrightarrow> \<exists>rest. xs = u @ rest"
  by (metis append_eq_append_conv_if append_take_drop_id)

lemma drop_consumed: "drop p F = u @ T \<Longrightarrow> drop (p + length u) F = T"
  by (metis add.commute append_eq_conv_conj drop_drop)

lemma readArgs_short:
  assumes "reading (ClientReader c) P p" and "\<forall>x\<in>set (drop p P). \<not> is_delim x" and "reading (ServerReader c) Q q"
  shows "\<exists>c'. readArgs c = Some (Some ErrShortRead, c') \<and> keeps c c' \<and> ClientReader c' = ClientReader c \<and>
    State c' = State c \<and> args c' = args c \<and> cmd c' = cmd c"
  using assms by (simp add: readArgs_def reading_nextWord_short keeps_def)

lemma readArgs_word:
  assumes "reading (ClientReader c) P p" and "reading (ServerReader c) Q q" and "clean_word w"
    and "drop p P = w @ (if d = LF then [CR, LF] else [d]) @ rest" and "is_delim d"
  shows "\<exists>c'. readArgs c = Some (None, c') \<and> keeps c c' \<and> cmd c' = cmd c \<and> args c' = args c @ [w] \<and>
    State c' = (if d = LF then commandState (cmd c) else State c) \<and>
    reading (ClientReader c') P (p + length (w @ (if d = LF then [CR, LF] else [d])))"
proof -
  define v where "v = w @ (if d = LF then [CR] else [])"
  have "bytes_TrimRight w [CR] = w" using assms(3) by (intro bytes_TrimRight_keep) (auto simp: clean_word_def)
  then have v: "drop p P = v @ d # rest" "bytes_TrimRight v [CR] = w"
    "w @ (if d = LF then [CR, LF] else [d]) = v @ [d]"
    using assms(4) by (simp_all add: v_def bytes_TrimRight_drop)
  have nd: "\<forall>x\<in>set v. \<not> is_delim x"
    using clean_word_delim [OF assms(3)] by (cases "d = LF") (auto simp: v_def is_delim_def)
  obtain s' where "nextWord (ClientReader c) = Some ((v @ [d], None), s')" "reading s' P (p + length v + 1)"
    using reading_nextWord_word [OF assms(1) v(1) nd assms(5)] by blast
  moreover have "index_at (v @ [d]) (int (length (v @ [d])) - 1) = Some d"
    "slice_to (int (length (v @ [d])) - 1) (v @ [d]) = Some v" by (simp_all add: index_at_def slice_to_def)
  ultimately have "readArgs c = Some (None, c\<lparr>ServerReader := Source_Truncate (ServerReader c), ClientReader := s',
      args := args c @ [w], State := if d = LF then commandState (cmd c) else State c\<rparr>)"
    using assms(5) v(2) by (cases "d = LF") (simp_all add: readArgs_def is_delim_def del: length_append)
  moreover have "length (w @ (if d = LF then [CR, LF] else [d])) = length v + 1" unfolding v(3) by simp
  ultimately show ?thesis
    using assms(2) \<open>reading s' P (p + length v + 1)\<close> by (simp add: keeps_def add.assoc)
qed

text \<open>
  The argument words of a request of which \<open>P\<close> has arrived, \<open>R\<close> is still missing, and \<open>T\<close> follows the
  header: either the header is complete and the command's handler comes next, or the parser waits
  in front of an incomplete word.
\<close>

definition args_done :: "McConsumer \<Rightarrow> string list \<Rightarrow> byte list \<Rightarrow> byte list \<Rightarrow> byte list \<Rightarrow> McConsumer \<Rightarrow> bool" where
  "args_done c ws P R T c' \<longleftrightarrow> keeps c c' \<and> State c' = commandState (cmd c) \<and> cmd c' = cmd c \<and> args c' = args c @ ws \<and>
     (\<exists>p'. reading (ClientReader c') P p' \<and> p' \<le> length P \<and> drop p' (P @ R) = T)"

definition args_wait :: "McConsumer \<Rightarrow> string list \<Rightarrow> byte list \<Rightarrow> byte list \<Rightarrow> byte list \<Rightarrow> McConsumer \<Rightarrow> bool" where
  "args_wait c ws P R T c' \<longleftrightarrow> keeps c c' \<and> State c' = Some ReadArgs \<and> cmd c' = cmd c \<and>
     (\<exists>p' ws1 ws2. ws = ws1 @ ws2 \<and> ws2 \<noteq> [] \<and> args c' = args c @ ws1 \<and> reading (ClientReader c') P p' \<and>
        p' \<le> length P \<and> drop p' (P @ R) = args_bytes ws2 @ T \<and> length (drop p' P) < length (args_bytes ws2))"

lemma args_shift:
  assumes "keeps c c1" and "cmd c1 = cmd c" and "args c1 = args c @ [w]"
  shows "args_done c1 ws P R T c' \<Longrightarrow> args_done c (w # ws) P R T c'"
    and "args_wait c1 ws P R T c' \<Longrightarrow> args_wait c (w # ws) P R T c'"
proof -
  show "args_done c1 ws P R T c' \<Longrightarrow> args_done c (w # ws) P R T c'"
    using assms by (simp add: args_done_def keeps_def del: drop_append)
  show "args_wait c1 ws P R T c' \<Longrightarrow> args_wait c (w # ws) P R T c'"
    using assms unfolding args_wait_def keeps_def by (metis append_Cons append_Nil append_assoc)
qed

lemma mc_run_args_wait:
  assumes "ws \<noteq> []" and "State c = Some ReadArgs" and "reading (ClientReader c) P p" and "p \<le> length P"
    and "reading (ServerReader c) Q q" and "drop p (P @ R) = args_bytes ws @ T"
    and "\<forall>x\<in>set (drop p P). \<not> is_delim x" and "length (drop p P) < length (args_bytes ws)"
  shows "\<exists>c'. args_wait c ws P R T c' \<and> mc_run c = Some c'"
proof -
  from readArgs_short [OF assms(3,7,5)] obtain c' where c': "readArgs c = Some (Some ErrShortRead, c')"
    "keeps c c'" "ClientReader c' = ClientReader c" "State c' = State c" "args c' = args c" "cmd c' = cmd c" by blast
  then have "mc_run c = Some c'" using assms(2) by (intro mc_run_wait) (simp add: call_state_def)
  moreover have "args_wait c ws P R T c'"
    unfolding args_wait_def using c' assms by (intro conjI exI [of _ p] exI [of _ "[]"] exI [of _ ws]) (simp_all del: drop_append)
  ultimately show ?thesis by blast
qed

lemma mc_run_args_word:
  assumes "State c = Some ReadArgs" and "reading (ClientReader c) P p" and "reading (ServerReader c) Q q" and "clean_word w" and "is_delim d"
  defines "word \<equiv> w @ (if d = LF then [CR, LF] else [d])"
  assumes "drop p (P @ R) = word @ T" and "length word \<le> length (drop p P)"
  shows "\<exists>c'. mc_run c = mc_run c' \<and> keeps c c' \<and> cmd c' = cmd c \<and> args c' = args c @ [w] \<and>
    State c' = (if d = LF then commandState (cmd c) else Some ReadArgs) \<and>
    reading (ClientReader c') P (p + length word) \<and> drop (p + length word) (P @ R) = T"
proof -
  have "drop p P @ drop (p - length P) R = word @ T" using assms(7) by simp
  then obtain rest where d: "drop p P = w @ (if d = LF then [CR, LF] else [d]) @ rest"
    using complete_prefix [of "drop p P" _ word T] assms(8) by (auto simp: word_def)
  obtain c' where c': "readArgs c = Some (None, c')" "keeps c c'" "cmd c' = cmd c" "args c' = args c @ [w]"
    "State c' = (if d = LF then commandState (cmd c) else Some ReadArgs)" "reading (ClientReader c') P (p + length word)"
    using readArgs_word [OF assms(2-4) d assms(5)] assms(1) by (auto simp: word_def)
  have "mc_run c = mc_run c'" using c'(1) assms(1) by (intro mc_run_continue) (simp add: call_state_def)
  moreover have "drop (p + length word) (P @ R) = T" using drop_consumed [of p "P @ R" word] assms(7) by (simp del: drop_append)
  ultimately show ?thesis using c' by blast
qed

lemma mc_run_args:
  assumes "ws \<noteq> []" and "State c = Some ReadArgs" and "reading (ClientReader c) P p" and "p \<le> length P"
    and "reading (ServerReader c) Q q" and "list_all clean_word ws" and "drop p (P @ R) = args_bytes ws @ T"
  shows "\<exists>c'. args_done c ws P R T c' \<and> mc_run c = mc_run c' \<or> args_wait c ws P R T c' \<and> mc_run c = Some c'"
  using assms
proof (induction ws arbitrary: c p Q q rule: args_bytes.induct)
  case (2 w)
  note pr = "2.prems"
  show ?case
  proof (cases "length (drop p P) < length (w @ crlf)")
    case True
    have "drop p P @ R = (w @ [CR]) @ LF # T" using pr by (simp add: crlf_def)
    then have "set (drop p P) \<subseteq> set (w @ [CR])" using True by (intro incomplete_set) (simp_all add: crlf_def)
    then have "\<forall>x\<in>set (drop p P). \<not> is_delim x" using clean_word_delim [of w] pr(6) by (auto simp: is_delim_def)
    from mc_run_args_wait [OF pr(1-5,7) this] True show ?thesis by auto
  next
    case False
    moreover have "clean_word w" "is_delim LF" using pr(6) by (auto simp: is_delim_def)
    moreover have "p + length (w @ crlf) \<le> length P" using False pr(4) by simp
    ultimately show ?thesis using mc_run_args_word [OF pr(2,3,5), of w LF R T] pr(7) by (auto simp: args_done_def crlf_def simp del: drop_append)
  qed
next
  case (3 w v ws)
  note pr = "3.prems"
  show ?case
  proof (cases "length (drop p P) \<le> length w")
    case True
    have "drop p P @ R = w @ CHR '' '' # args_bytes (v # ws) @ T" using pr by simp
    then have "set (drop p P) \<subseteq> set w" using True by (intro incomplete_set)
    then have "\<forall>x\<in>set (drop p P). \<not> is_delim x" using clean_word_delim [of w] pr(6) by auto
    from mc_run_args_wait [OF pr(1-5,7) this] True show ?thesis by auto
  next
    case False
    moreover have "clean_word w" "is_delim (CHR '' '')" using pr(6) by (auto simp: is_delim_def)
    ultimately obtain c' where c': "mc_run c = mc_run c'" "keeps c c'" "cmd c' = cmd c" "args c' = args c @ [w]" "State c' = Some ReadArgs"
      "reading (ClientReader c') P (p + length w + 1)" "drop (p + length w + 1) (P @ R) = args_bytes (v # ws) @ T"
      using mc_run_args_word [OF pr(2,3,5), of w "CHR '' ''" R "args_bytes (v # ws) @ T"] pr(7) by (auto simp del: drop_append)
    moreover have "p + length w + 1 \<le> length P" using False pr(4) by simp
    moreover have "reading (ServerReader c') [] 0" using c'(2) by (simp add: keeps_def)
    ultimately obtain c'' where
      "args_done c' (v # ws) P R T c'' \<and> mc_run c' = mc_run c'' \<or> args_wait c' (v # ws) P R T c'' \<and> mc_run c' = Some c''"
      using "3.IH" [OF _ c'(5,6)] pr(6) by fastforce
    with args_shift [OF c'(2-4)] c'(1) show ?thesis by metis
  qed
qed simp

text \<open>
  A consumer in the middle of a request \<open>header w ws @ T\<close>: \<open>P\<close> are all bytes the client has sent so far,
  \<open>R\<close> those of the request that are still to come.
\<close>

definition parsing :: "McConsumer \<Rightarrow> byte list \<Rightarrow> byte list \<Rightarrow> string \<Rightarrow> string list \<Rightarrow> byte list \<Rightarrow> nat \<Rightarrow> bool" where
  "parsing c P R w ws T p \<longleftrightarrow> reading (ClientReader c) P p \<and> p \<le> length P \<and> (\<exists>Q q. reading (ServerReader c) Q q) \<and>
     ((State c = Some PeekMagicByte \<or> State c = Some ReadCommand) \<and> drop p (P @ R) = header w ws @ T \<or>
      State c = Some ReadArgs \<and> cmd c = w \<and>
        (\<exists>ws1 ws2. ws = ws1 @ ws2 \<and> ws2 \<noteq> [] \<and> args c = ws1 \<and> drop p (P @ R) = args_bytes ws2 @ T))"

definition parsed :: "McConsumer \<Rightarrow> byte list \<Rightarrow> byte list \<Rightarrow> string \<Rightarrow> string list \<Rightarrow> byte list \<Rightarrow> bool" where
  "parsed c P R w ws T \<longleftrightarrow> State c = commandState w \<and> cmd c = w \<and> args c = ws \<and> reading (ServerReader c) [] 0 \<and>
     (\<exists>p. reading (ClientReader c) P p \<and> p \<le> length P \<and> drop p (P @ R) = T)"

definition known_command :: "string \<Rightarrow> bool" where
  "known_command w \<longleftrightarrow> w \<in> {''get'', ''gets'', ''set'', ''add'', ''replace'', ''append'', ''prepend'', ''cas''}"

lemma known_command_facts:
  assumes "known_command w"
  shows "clean_word w" and "asciiRe_Match w" and "commandState w \<noteq> None" and "w \<noteq> []" and "hd w \<noteq> CHR 0x80"
  using assms unfolding known_command_def
  by (auto simp: clean_word_def asciiRe_Match_def is_alpha_def commandState_def)

lemma length_args_bytes_suffix: "ws2 \<noteq> [] \<Longrightarrow> length (args_bytes ws2) \<le> length (args_bytes (ws1 @ ws2))"
proof (induction ws1)
  case (Cons w ws1)
  obtain v vs where "ws1 @ ws2 = v # vs" using Cons.prems by (cases "ws1 @ ws2") auto
  with Cons show ?case by simp
qed simp

lemma readCommand_short:
  assumes "State c = Some ReadCommand" and "reading (ClientReader c) P p" and "reading (ServerReader c) Q q"
    and "\<forall>x\<in>set (drop p P). \<not> is_delim x"
  shows "\<exists>c'. mc_run c = Some c' \<and> keeps c c' \<and> State c' = State c \<and> ClientReader c' = ClientReader c"
proof -
  have "\<exists>c'. readCommand c = Some (Some ErrShortRead, c') \<and> keeps c c' \<and> State c' = State c \<and>
      ClientReader c' = ClientReader c"
    using assms by (simp add: readCommand_def reading_nextWord_short keeps_def)
  with assms(1) mc_run_wait [of c] show ?thesis by (auto simp: call_state_def)
qed

lemma readCommand_word:
  assumes "State c = Some ReadCommand" and "reading (ClientReader c) P p" and "reading (ServerReader c) Q q"
    and "known_command w" and "drop p P = w @ CHR '' '' # rest"
  shows "\<exists>c'. mc_run c = mc_run c' \<and> keeps c c' \<and> State c' = Some ReadArgs \<and> cmd c' = w \<and> args c' = [] \<and>
    reading (ClientReader c') P (p + length w + 1)"
proof -
  note k = known_command_facts [OF assms(4)]
  obtain s' where s': "nextWord (ClientReader c) = Some ((w @ [CHR '' ''], None), s')"
    "reading s' P (p + length w + 1)"
    using reading_nextWord_word [OF assms(2,5) clean_word_delim [OF k(1)]] by (auto simp: is_delim_def)
  have "bytes_TrimRight w (CHR '' '' # crlf) = w"
    using k(1) by (intro bytes_TrimRight_keep) (auto simp: clean_word_def crlf_def)
  then have "\<exists>c'. readCommand c = Some (None, c') \<and> keeps c c' \<and> State c' = Some ReadArgs \<and> cmd c' = w \<and>
      args c' = [] \<and> ClientReader c' = s'"
    using s' k assms(3) by (simp add: readCommand_def bytes_TrimRight_drop keeps_def)
  then obtain c' where c': "readCommand c = Some (None, c')" "keeps c c'" "State c' = Some ReadArgs" "cmd c' = w"
    "args c' = []" "ClientReader c' = s'" by blast
  then have "mc_run c = mc_run c'" using assms(1) by (intro mc_run_continue) (simp add: call_state_def)
  with c' s'(2) show ?thesis by blast
qed

lemma peek_short:
  assumes "State c = Some PeekMagicByte" and "reading (ClientReader c) P p" and "reading (ServerReader c) Q q"
    and "drop p P = []"
  shows "\<exists>c'. mc_run c = Some c' \<and> keeps c c' \<and> State c' = State c \<and> ClientReader c' = ClientReader c"
proof -
  have "\<exists>c'. peekMagicByte c = Some (Some ErrShortRead, c') \<and> keeps c c' \<and> State c' = State c \<and>
      ClientReader c' = ClientReader c"
    using assms reading_PeekN [OF assms(2)] by (simp add: peekMagicByte_def keeps_def)
  with assms(1) mc_run_wait [of c] show ?thesis by (auto simp: call_state_def)
qed

lemma peek_byte:
  assumes "State c = Some PeekMagicByte" and "reading (ClientReader c) P p" and "reading (ServerReader c) Q q"
    and "drop p P = x # rest" and "x \<noteq> CHR 0x80"
  shows "\<exists>c'. mc_run c = mc_run c' \<and> keeps c c' \<and> State c' = Some ReadCommand \<and> ClientReader c' = ClientReader c"
proof -
  have "P ! p = x" using assms(4) by (metis append_take_drop_id list.distinct(1) drop_all
    hd_drop_conv_nth linorder_not_le list.sel(1))
  then have "\<exists>c'. peekMagicByte c = Some (None, c') \<and> keeps c c' \<and> State c' = Some ReadCommand \<and>
      ClientReader c' = ClientReader c"
    using assms reading_PeekN [OF assms(2)] by (simp add: peekMagicByte_def keeps_def index_at_def)
  with assms(1) mc_run_continue [of c] show ?thesis by (auto simp: call_state_def)
qed

definition progress :: "McConsumer \<Rightarrow> byte list \<Rightarrow> byte list \<Rightarrow> string \<Rightarrow> string list \<Rightarrow> byte list \<Rightarrow> bool" where
  "progress c P R w ws T \<longleftrightarrow> (\<exists>c'. keeps c c' \<and>
     (parsed c' P R w ws T \<and> mc_run c = mc_run c' \<or>
      (\<exists>p. parsing c' P R w ws T p \<and> length (drop p P) < length (header w ws)) \<and> R \<noteq> [] \<and> mc_run c = Some c'))"

lemma progress_step: "\<lbrakk> progress c1 P R w ws T; keeps c c1; mc_run c = mc_run c1 \<rbrakk> \<Longrightarrow> progress c P R w ws T"
  unfolding progress_def by (metis keeps_trans)

lemma progress_wait:
  assumes "mc_run c = Some c1" and "keeps c c1" and "parsing c1 P R w ws T p" and "length (drop p P) < length (header w ws)"
    and "R \<noteq> []"
  shows "progress c P R w ws T"
  using assms unfolding progress_def by blast

lemma progress_args:
  assumes "parsing c P R w ws T p" and "State c = Some ReadArgs" and "list_all clean_word ws"
  shows "progress c P R w ws T"
proof -
  obtain ws1 ws2 Q q where a: "cmd c = w" "ws = ws1 @ ws2" "ws2 \<noteq> []" "args c = ws1"
    "drop p (P @ R) = args_bytes ws2 @ T" "reading (ClientReader c) P p" "p \<le> length P" "reading (ServerReader c) Q q"
    using assms(1,2) by (auto simp: parsing_def)
  have "list_all clean_word ws2" using assms(3) a(2) by simp
  from mc_run_args [OF a(3) assms(2) a(6,7,8) this a(5)]
  consider c' where "args_done c ws2 P R T c'" "mc_run c = mc_run c'"
    | c' where "args_wait c ws2 P R T c'" "mc_run c = Some c'" by blast
  then show ?thesis
  proof cases
    case 1
    with a have "keeps c c'" "parsed c' P R w ws T" by (auto simp: args_done_def parsed_def keeps_def)
    with 1 show ?thesis unfolding progress_def by blast
  next
    case 2
    then obtain p' v1 v2 where v: "keeps c c'" "State c' = Some ReadArgs" "cmd c' = w" "ws2 = v1 @ v2" "v2 \<noteq> []"
      "args c' = args c @ v1" "reading (ClientReader c') P p'" "p' \<le> length P"
      "drop p' (P @ R) = args_bytes v2 @ T" "length (drop p' P) < length (args_bytes v2)"
      unfolding args_wait_def a(1) by blast
    have "parsing c' P R w ws T p'"
      unfolding parsing_def using v a(2,4) by (auto simp: keeps_def simp del: drop_append)
    moreover have "length (drop p' P) < length (header w ws)"
      using v(10) length_args_bytes_suffix [OF v(5), of "ws1 @ v1"] by (simp add: header_def a(2) v(4))
    moreover have "R \<noteq> []" using v(9,10) by (auto dest: arg_cong [of _ _ length])
    ultimately show ?thesis using 2(2) v(1) progress_wait by blast
  qed
qed

lemma progress_command:
  assumes "parsing c P R w ws T p" and "State c = Some ReadCommand" and "known_command w" and "ws \<noteq> []"
    and "list_all clean_word ws"
  shows "progress c P R w ws T"
proof -
  obtain Q q where a: "drop p (P @ R) = w @ CHR '' '' # args_bytes ws @ T" "reading (ClientReader c) P p" "p \<le> length P"
    "reading (ServerReader c) Q q"
    using assms(1,2) by (auto simp: parsing_def header_def)
  have e: "drop p P @ R = w @ CHR '' '' # args_bytes ws @ T" using a by simp
  show ?thesis
  proof (cases "length (drop p P) \<le> length w")
    case True
    then have "set (drop p P) \<subseteq> set w" by (intro incomplete_set [OF e])
    then have "\<forall>x\<in>set (drop p P). \<not> is_delim x"
      using clean_word_delim [OF known_command_facts(1) [OF assms(3)]] by auto
    from readCommand_short [OF assms(2) a(2,4) this] obtain c' where c': "mc_run c = Some c'" "keeps c c'"
      "State c' = State c" "ClientReader c' = ClientReader c" by blast
    have "parsing c' P R w ws T p"
      using assms(1,2) c' by (auto simp: parsing_def keeps_def)
    moreover have "length (drop p P) < length (header w ws)" using True by (simp add: header_def)
    moreover have "R \<noteq> []" using True e by (auto dest: arg_cong [of _ _ length])
    ultimately show ?thesis using c' progress_wait by blast
  next
    case False
    then obtain rest where "drop p P = w @ CHR '' '' # rest"
      using complete_prefix [of "drop p P" R "w @ [CHR '' '']"] e by auto
    from readCommand_word [OF assms(2) a(2,4) assms(3) this] obtain c' where c': "mc_run c = mc_run c'" "keeps c c'"
      "State c' = Some ReadArgs" "cmd c' = w" "args c' = []" "reading (ClientReader c') P (p + length w + 1)" by blast
    have "drop (p + length w + 1) (P @ R) = args_bytes ws @ T"
      using drop_consumed [of p "P @ R" "w @ [CHR '' '']"] a(1) by (simp del: drop_append)
    moreover have "p + length w + 1 \<le> length P" using False a(3) by simp
    ultimately have "parsing c' P R w ws T (p + length w + 1)"
      using c' assms(4) by (auto simp: parsing_def keeps_def simp del: drop_append)
    from progress_step [OF progress_args [OF this c'(3) assms(5)] c'(2,1)] show ?thesis .
  qed
qed

lemma progress_all:
  assumes "parsing c P R w ws T p" and "known_command w" and "ws \<noteq> []" and "list_all clean_word ws"
  shows "progress c P R w ws T"
proof -
  consider "State c = Some PeekMagicByte" | "State c = Some ReadCommand" | "State c = Some ReadArgs"
    using assms(1) by (auto simp: parsing_def)
  then show ?thesis
  proof cases
    case 1
    obtain Q q where a: "drop p (P @ R) = header w ws @ T" "reading (ClientReader c) P p" "p \<le> length P"
      "reading (ServerReader c) Q q" using assms(1) 1 by (auto simp: parsing_def)
    have h: "header w ws = hd w # tl w @ CHR '' '' # args_bytes ws"
      using known_command_facts(4) [OF assms(2)] by (simp add: header_def)
    show ?thesis
    proof (cases "drop p P")
      case Nil
      from peek_short [OF 1 a(2,4) this] obtain c' where c': "mc_run c = Some c'" "keeps c c'"
        "State c' = State c" "ClientReader c' = ClientReader c" by blast
      moreover have "parsing c' P R w ws T p" using assms(1) c' 1 by (auto simp: parsing_def keeps_def)
      moreover have "R \<noteq> []" using a Nil h by auto
      ultimately show ?thesis using Nil h progress_wait [of c c' P R w ws T p] by simp
    next
      case (Cons x rest)
      then have "x = hd w" using a h by simp
      with known_command_facts(5) [OF assms(2)] have "x \<noteq> CHR 0x80" by simp
      from peek_byte [OF 1 a(2,4) Cons this] obtain c' where c': "mc_run c = mc_run c'" "keeps c c'"
        "State c' = Some ReadCommand" "ClientReader c' = ClientReader c" by blast
      have "parsing c' P R w ws T p" using a c' by (auto simp: parsing_def keeps_def)
      from progress_step [OF progress_command [OF this c'(3) assms(2-)] c'(2,1)] show ?thesis .
    qed
  qed (use assms progress_command progress_args in blast)+
qed

text \<open>The whole request has been understood; the consumer waits for the server.\<close>

definition awaiting :: "McConsumer \<Rightarrow> McState \<Rightarrow> byte list \<Rightarrow> byte list \<Rightarrow> bool" where
  "awaiting c st P R \<longleftrightarrow> State c = Some st \<and> (st = HandleGet \<and> args c \<noteq> [] \<or> st = DiscardResponse) \<and>
     reading (ClientReader c) P (length P + length R) \<and> reading (ServerReader c) [] 0"

lemma mc_run_awaiting:
  assumes "awaiting c st P R"
  shows "\<exists>c'. mc_run c = Some c' \<and> keeps c c' \<and> awaiting c' st P R"
proof -
  have s: "Source_ReadLine (ServerReader c) = Some (([], Some ErrShortRead), ServerReader c)"
    using assms by (intro reading_ReadLine_short [of _ "[]" 0]) (auto simp: awaiting_def)
  have "call_state c = Some (Some ErrShortRead, c\<lparr>ServerReader := ServerReader c, State := Some st\<rparr>)"
    using assms s by (auto simp: awaiting_def call_state_def handleGet_def handleGet_loop.simps discardResponse_def)
  from mc_run_wait [OF this] assms show ?thesis by (simp add: awaiting_def keeps_def)
qed

lemma parsed_retrieval:
  assumes "parsed c P R w ws []" and "w \<in> {''get'', ''gets''}" and "ws \<noteq> []"
  shows "\<exists>c'. mc_run c = Some c' \<and> keeps c c' \<and> awaiting c' HandleGet P R"
proof -
  obtain p where p: "reading (ClientReader c) P p" "p \<le> length P" "drop p (P @ R) = []"
    using assms(1) by (auto simp: parsed_def)
  then have "p = length P + length R" by simp
  with p assms have "awaiting c HandleGet P R" by (auto simp: parsed_def awaiting_def commandState_def)
  then show ?thesis by (rule mc_run_awaiting)
qed

lemma parsed_storage:
  assumes "parsed c P R w ws (d @ crlf)" and "w \<in> {''set'', ''add'', ''replace'', ''append'', ''prepend'', ''cas''}"
    and "4 \<le> length ws" and "ws ! 3 = Itoa (int (length d))" and "int (length d) + 2 \<le> maxint"
  shows "\<exists>c'. mc_run c = Some c' \<and> keeps c c' \<and> awaiting c' DiscardResponse P R"
proof -
  obtain p where p: "reading (ClientReader c) P p" "p \<le> length P" "drop p (P @ R) = d @ crlf"
    using assms(1) by (auto simp: parsed_def)
  have num: "Atoi (ws ! 3) = Inr (int (length d))" "gint (int (length d) + int (length crlf)) = int (length d + 2)"
    using assms(4,5) by (simp_all add: crlf_def maxint_def int64_def Atoi_Itoa gint_id)
  have "length (drop p (P @ R)) = length d + 2" using p(3) by (simp add: crlf_def)
  then have end_pos: "p + (length d + 2) = length P + length R" using p(2) by simp
  obtain s' where s': "Source_Discard (ClientReader c) (int (length d + 2)) = Some ((int (length d + 2), None), s')"
    "reading s' P (length P + length R)"
    using reading_Discard [OF p(1,2), of "int (length d + 2)"] assms(5) end_pos by (auto simp: nat_add_distrib)
  have server: "reading (ServerReader c) [] 0" using assms(1) by (simp add: parsed_def)
  have "Source_ReadLine (ServerReader c) = Some (([], Some ErrShortRead), ServerReader c)"
    using server by (intro reading_ReadLine_short) auto
  moreover have "State c = Some HandleSet" "args c = ws"
    using assms(1,2) by (auto simp: parsed_def commandState_def)
  ultimately have "call_state c = Some (Some ErrShortRead,
      c\<lparr>ClientReader := s', State := Some DiscardResponse, ServerReader := ServerReader c\<rparr>)"
    using num s'(1) assms(3) by (simp add: call_state_def handleSet_def discardResponse_def)
  from mc_run_wait [OF this] s'(2) server show ?thesis by (simp add: awaiting_def keeps_def)
qed

lemma call_Run_loop: "Run c = RunLoop \<Longrightarrow> call_Run c = mc_run c"
  by (simp add: call_Run_def)

lemma keeps_client: "keeps (c\<lparr>ClientReader := s\<rparr>) c' \<longleftrightarrow> keeps c c'"
  by (simp add: keeps_def)

lemma client_awaiting:
  "\<lbrakk> awaiting c st P (concat ds); Run c = RunLoop; \<forall>d\<in>set ds. length d \<le> 32768 \<rbrakk>
   \<Longrightarrow> \<exists>c'. ClientStream_Reassembled call_Run c (map segment ds) = Some c' \<and> keeps c c' \<and>
     awaiting c' st (P @ concat ds) []"
proof (induction ds arbitrary: c P)
  case Nil
  then show ?case by (auto simp: awaiting_def keeps_def)
next
  case (Cons d ds)
  have r: "reading (ClientReader c) P (length P + length (concat (d # ds)))" using Cons.prems by (simp add: awaiting_def)
  obtain s where s: "Source_Reassembled (ClientReader c) [segment d] = Some s"
    "reading s (P @ d) (length P + length (concat (d # ds)))"
    using reading_Reassembled [OF r, of d] Cons.prems(3) by auto
  have "awaiting (c\<lparr>ClientReader := s\<rparr>) st (P @ d) (concat ds)"
    using Cons.prems(1) s(2) by (simp add: awaiting_def add.assoc)
  from mc_run_awaiting [OF this] obtain c1 where c1: "mc_run (c\<lparr>ClientReader := s\<rparr>) = Some c1" "keeps c c1"
    "awaiting c1 st (P @ d) (concat ds)" by (auto simp: keeps_client)
  from Cons.IH [OF c1(3)] c1(2) Cons.prems(2,3) obtain c' where
    "ClientStream_Reassembled call_Run c1 (map segment ds) = Some c'" "keeps c1 c'"
    "awaiting c' st ((P @ d) @ concat ds) []" by (auto simp: keeps_def)
  with s(1) c1 Cons.prems(2) show ?case by (auto simp: call_Run_loop intro: keeps_trans)
qed

lemma client_request:
  assumes "parsing c P (concat ds) w ws T p" and "length (drop p P) < length (header w ws)" and "concat ds \<noteq> []"
    and "Run c = RunLoop" and "\<forall>d\<in>set ds. length d \<le> S" and "length (header w ws) + S \<le> 32768"
    and "known_command w" and "ws \<noteq> []" and "list_all clean_word ws"
    and handler: "\<And>c P R. parsed c P R w ws T \<Longrightarrow> \<exists>c'. mc_run c = Some c' \<and> keeps c c' \<and> awaiting c' st P R"
  shows "\<exists>c'. ClientStream_Reassembled call_Run c (map segment ds) = Some c' \<and> keeps c c' \<and>
    awaiting c' st (P @ concat ds) []"
  using assms(1-5)
proof (induction ds arbitrary: c P p)
  case (Cons d ds)
  have r: "reading (ClientReader c) P p" "p \<le> length P" using Cons.prems(1) by (auto simp: parsing_def)
  have len: "length d \<le> S" using Cons.prems(5) by simp
  have "length (drop p (P @ d)) \<le> 32768" "length d \<le> 32768"
    using Cons.prems(2) len assms(6) r(2) by auto
  from reading_Reassembled [OF r(1) this] obtain s where s: "Source_Reassembled (ClientReader c) [segment d] = Some s"
    "reading s (P @ d) p" by blast
  have "parsing (c\<lparr>ClientReader := s\<rparr>) (P @ d) (concat ds) w ws T p"
    using Cons.prems(1) s(2) by (auto simp: parsing_def)
  from progress_all [OF this assms(7-9)] obtain c1 where k: "keeps c c1" and
    "parsed c1 (P @ d) (concat ds) w ws T \<and> mc_run (c\<lparr>ClientReader := s\<rparr>) = mc_run c1 \<or>
     (\<exists>p. parsing c1 (P @ d) (concat ds) w ws T p \<and> length (drop p (P @ d)) < length (header w ws)) \<and>
        concat ds \<noteq> [] \<and> mc_run (c\<lparr>ClientReader := s\<rparr>) = Some c1"
    unfolding progress_def keeps_client by blast
  then consider "parsed c1 (P @ d) (concat ds) w ws T" "mc_run (c\<lparr>ClientReader := s\<rparr>) = mc_run c1"
    | p' where "parsing c1 (P @ d) (concat ds) w ws T p'" "length (drop p' (P @ d)) < length (header w ws)"
       "concat ds \<noteq> []" "mc_run (c\<lparr>ClientReader := s\<rparr>) = Some c1" by blast
  then show ?case
  proof cases
    case 1
    obtain c2 where c2: "mc_run (c\<lparr>ClientReader := s\<rparr>) = Some c2" "keeps c c2" "awaiting c2 st (P @ d) (concat ds)"
      using handler [OF 1(1)] 1(2) k keeps_trans by metis
    have "\<forall>d\<in>set ds. length d \<le> 32768" using Cons.prems(5) assms(6) by fastforce
    with client_awaiting [OF c2(3)] c2(2) Cons.prems(4) obtain c' where
      "ClientStream_Reassembled call_Run c2 (map segment ds) = Some c'" "keeps c2 c'"
      "awaiting c' st ((P @ d) @ concat ds) []" by (auto simp: keeps_def)
    with s(1) c2 Cons.prems(4) show ?thesis by (auto simp: call_Run_loop intro: keeps_trans)
  next
    case 2
    from Cons.IH [OF 2(1,2,3)] k Cons.prems(4,5) obtain c' where
      "ClientStream_Reassembled call_Run c1 (map segment ds) = Some c'" "keeps c1 c'"
      "awaiting c' st ((P @ d) @ concat ds) []" by (auto simp: keeps_def)
    with s(1) 2(4) k Cons.prems(4) show ?thesis by (auto simp: call_Run_loop intro: keeps_trans)
  qed
qed simp

section \<open>The reply\<close>

text \<open>Between two exchanges: everything sent so far has been consumed.\<close>

definition idle :: "McConsumer \<Rightarrow> bool" where
  "idle c \<longleftrightarrow> Run c = RunLoop \<and> (State c = Some PeekMagicByte \<or> State c = Some ReadCommand) \<and>
     (\<exists>P. reading (ClientReader c) P (length P)) \<and> (\<exists>Q q. reading (ServerReader c) Q q)"

text \<open>The end of the reply takes the consumer back to the next command, for which there is no data yet.\<close>

lemma mc_run_next_command:
  assumes "State c = Some ReadCommand" and "reading (ClientReader c) P (length P)" and "reading (ServerReader c) Q q"
    and "Run c = RunLoop"
  shows "\<exists>c'. mc_run c = Some c' \<and> idle c' \<and> all_events c' = all_events c"
proof -
  obtain c' where "mc_run c = Some c'" "keeps c c'" "State c' = State c" "ClientReader c' = ClientReader c"
    using readCommand_short [OF assms(1-3)] by auto
  with assms show ?thesis unfolding idle_def keeps_def by metis
qed

lemma trim_cr_snoc: "trim_cr (x @ [CR]) = x"
  by (simp add: trim_cr_def)

lemma value_line_head:
  assumes "value_ok S (k, f, d)"
  shows "value_line (trim_cr (value_head (k, f, d))) = Some (k, Itoa (int (length d)))"
    and "LF \<notin> set (value_head (k, f, d))"
proof -
  have dig: "set (Itoa (int (length d))) \<subseteq> Collect is_digit" using Utoa_digits by (simp add: Itoa_def)
  have no: "CHR '' '' \<notin> set k" "CHR '' '' \<notin> set f" "CHR '' '' \<notin> set (Itoa (int (length d)))"
    "LF \<notin> set k" "LF \<notin> set f" "LF \<notin> set (Itoa (int (length d)))"
    using assms dig by (auto simp: clean_word_def is_digit_def)
  then show "LF \<notin> set (value_head (k, f, d))" by auto
  have "trim_cr (value_head (k, f, d)) = ''VALUE'' @ CHR '' '' # k @ CHR '' '' # f @ CHR '' '' # Itoa (int (length d))"
    using trim_cr_snoc [of "''VALUE'' @ CHR '' '' # k @ CHR '' '' # f @ CHR '' '' # Itoa (int (length d))"] by simp
  moreover have "bytes_Split (CHR '' '') \<dots> = [''VALUE'', k, f, Itoa (int (length d))]"
    using no by (subst bytes_Split_append; simp add: bytes_Split_append bytes_Split_nosep)
  ultimately show "value_line (trim_cr (value_head (k, f, d))) = Some (k, Itoa (int (length d)))"
    by (simp add: value_line_def)
qed

lemma response_Cons: "response (v # vs) = value_head v @ LF # snd (snd v) @ crlf @ response vs"
  by (simp add: response_def value_bytes_def)

lemma value_line_END: "value_line (trim_cr (''END'' @ [CR])) = None"
  by (simp add: trim_cr_def value_line_def)

text \<open>
  The reply, of which \<open>P\<close> has arrived and \<open>R\<close> is missing: every value whose header line is complete has
  been reported and its data is skipped, arrived or not.
\<close>

definition replying :: "McConsumer \<Rightarrow> byte list \<Rightarrow> byte list \<Rightarrow> (string \<times> string \<times> byte list) list \<Rightarrow> bool" where
  "replying c P R vs \<longleftrightarrow> State c = Some HandleGet \<and> args c \<noteq> [] \<and> Run c = RunLoop \<and>
     (\<exists>p. reading (ServerReader c) P p \<and> drop p (P @ R) = response vs) \<and> (\<exists>Q. reading (ClientReader c) Q (length Q))"

definition stalled :: "McConsumer \<Rightarrow> byte list \<Rightarrow> bool" where
  "stalled c P \<longleftrightarrow> (\<exists>p. reading (ServerReader c) P p \<and> LF \<notin> set (drop p P))"

lemma handleGet_loop_short:
  assumes "reading (ServerReader c) P p" and "LF \<notin> set (drop p P)"
  shows "handleGet_loop c = Some (Some ErrShortRead, c\<lparr>ServerReader := ServerReader c\<rparr>)"
  using reading_ReadLine_short [OF assms] by (subst handleGet_loop.simps) simp

lemma handleGet_loop_value:
  assumes "reading (ServerReader c) P p" and "drop p P = value_head (k, f, d) @ LF # rest" and "value_ok S (k, f, d)"
  shows "\<exists>c'. handleGet_loop c = handleGet_loop c' \<and> State c' = State c \<and> args c' = args c \<and> Run c' = Run c \<and>
    ClientReader c' = ClientReader c \<and> all_events c' = all_events c @ [hit (k, f, d)] \<and>
    reading (ServerReader c') P (p + length (value_head (k, f, d)) + 1 + (length d + 2))"
proof -
  note v = value_line_head [OF assms(3)]
  have small: "int (length d) + 2 \<le> maxint" using assms(3) by simp
  obtain s1 where s1: "Source_ReadLine (ServerReader c) = Some ((trim_cr (value_head (k, f, d)), None), s1)"
    "reading s1 P (p + length (value_head (k, f, d)) + 1)"
    using reading_ReadLine_line [OF assms(1,2) v(2)] by blast
  have "length (value_head (k, f, d)) + 1 \<le> length (drop p P)" unfolding assms(2) by simp
  then have "p + length (value_head (k, f, d)) + 1 \<le> length P" by simp
  from reading_Discard [OF s1(2) this, of "int (length d + 2)"] small obtain s2 where
    s2: "Source_Discard s1 (int (length d + 2)) = Some ((int (length d + 2), None), s2)"
    "reading s2 P (p + length (value_head (k, f, d)) + 1 + (length d + 2))" by (auto simp: nat_add_distrib)
  have num: "Atoi (Itoa (int (length d))) = Inr (int (length d))"
    "gint (int (length d) + int (length crlf)) = int (length d + 2)"
    using small by (simp_all add: crlf_def maxint_def int64_def Atoi_Itoa gint_id)
  define c' where "c' = AddEvent (c\<lparr>ServerReader := s1\<rparr>) (hit (k, f, d))\<lparr>ServerReader := s2\<rparr>"
  have "handleGet_loop c = handleGet_loop c'"
    using s1(1) v(1) num s2(1) unfolding c'_def by (subst handleGet_loop.simps) simp
  with s2(2) show ?thesis by (intro exI [of _ c']) (simp add: c'_def)
qed

text \<open>How far one run gets: to the end of the reply, or to a header line that is still incomplete.\<close>

definition served :: "McConsumer \<Rightarrow> byte list \<Rightarrow> byte list \<Rightarrow> (string \<times> string \<times> byte list) list \<Rightarrow> McConsumer \<Rightarrow> bool" where
  "served c P R vs c' \<longleftrightarrow> idle c' \<and> R = [] \<and> all_events c' = all_events c @ map hit vs \<or>
     (\<exists>vs1 vs2. vs = vs1 @ vs2 \<and> replying c' P R vs2 \<and> stalled c' P \<and> all_events c' = all_events c @ map hit vs1)"

lemma call_state_replying: "replying c P R vs \<Longrightarrow> call_state c = handleGet_loop c"
  by (auto simp: replying_def call_state_def handleGet_def Suc_le_eq)

lemma mc_run_reply_wait:
  assumes "replying c P R vs" and "reading (ServerReader c) P p" and "LF \<notin> set (drop p P)"
  shows "\<exists>c'. mc_run c = Some c' \<and> served c P R vs c'"
proof -
  let ?c = "c\<lparr>ServerReader := ServerReader c\<rparr>"
  have "mc_run c = Some ?c" using handleGet_loop_short [OF assms(2,3)] call_state_replying [OF assms(1)] by (intro mc_run_wait) simp
  moreover have "replying ?c P R vs \<and> stalled ?c P" using assms by (auto simp: stalled_def)
  ultimately show ?thesis by (auto simp: served_def)
qed

lemma mc_run_reply_end:
  assumes "replying c P R []" and "reading (ServerReader c) P p" and "drop p (P @ R) = (''END'' @ [CR]) @ LF # []" and "LF \<in> set (drop p P)"
  shows "\<exists>c'. mc_run c = Some c' \<and> served c P R [] c'"
proof -
  obtain Q where Q: "reading (ClientReader c) Q (length Q)" "Run c = RunLoop" using assms(1) by (auto simp: replying_def)
  have e: "drop p P @ drop (p - length P) R = (''END'' @ [CR]) @ LF # []" using assms(3) by simp
  then have "\<not> length (drop p P) \<le> length (''END'' @ [CR])" using incomplete_set [OF e] assms(4) by auto
  then obtain rest where rest: "drop p P = (''END'' @ [CR, LF]) @ rest"
    using complete_prefix [of "drop p P" "drop (p - length P) R" "''END'' @ [CR, LF]" "[]"] e by auto
  have "p \<le> length P" using assms(4) by (cases "p \<le> length P") auto
  with e rest have "R = []" by simp
  obtain s where s: "Source_ReadLine (ServerReader c) = Some ((trim_cr (''END'' @ [CR]), None), s)"
    "reading s P (p + length (''END'' @ [CR]) + 1)"
    using reading_ReadLine_line [OF assms(2), of "''END'' @ [CR]" rest] rest by auto
  have "handleGet_loop c = Some (None, c\<lparr>ServerReader := s, State := Some ReadCommand\<rparr>)"
    using s(1) value_line_END by (subst handleGet_loop.simps) simp
  then have "mc_run c = mc_run (c\<lparr>ServerReader := s, State := Some ReadCommand\<rparr>)"
    using call_state_replying [OF assms(1)] by (intro mc_run_continue) simp
  moreover obtain c' where "mc_run (c\<lparr>ServerReader := s, State := Some ReadCommand\<rparr>) = Some c'" "idle c'" "all_events c' = all_events c"
    using mc_run_next_command [of "c\<lparr>ServerReader := s, State := Some ReadCommand\<rparr>" Q P] Q s(2) by fastforce
  ultimately show ?thesis using \<open>R = []\<close> by (auto simp: served_def)
qed

lemma mc_run_reply_value:
  assumes "replying c P R (v # vs)" and "reading (ServerReader c) P p" and "drop p (P @ R) = response (v # vs)"
    and "value_ok S v" and "LF \<in> set (drop p P)"
  shows "\<exists>c'. mc_run c = mc_run c' \<and> replying c' P R vs \<and> all_events c' = all_events c @ [hit v]"
proof -
  obtain k f d where v: "v = (k, f, d)" by (cases v)
  have r: "drop p (P @ R) = value_head v @ LF # d @ crlf @ response vs" using assms(3) by (simp add: response_Cons v)
  then have e: "drop p P @ drop (p - length P) R = value_head v @ LF # d @ crlf @ response vs" by simp
  then have "\<not> length (drop p P) \<le> length (value_head v)"
    using incomplete_set [OF e] value_line_head(2) [OF assms(4) [unfolded v]] assms(5) v by auto
  then obtain rest where "drop p P = value_head (k, f, d) @ LF # rest"
    using complete_prefix [of "drop p P" "drop (p - length P) R" "value_head v @ [LF]" "d @ crlf @ response vs"] e v by auto
  from handleGet_loop_value [OF assms(2) this assms(4) [unfolded v]] obtain c1 where
    c1: "handleGet_loop c = handleGet_loop c1" "State c1 = State c" "args c1 = args c" "Run c1 = Run c"
    "ClientReader c1 = ClientReader c" "all_events c1 = all_events c @ [hit v]"
    "reading (ServerReader c1) P (p + length (value_head v) + 1 + (length d + 2))" unfolding v by blast
  have "drop (p + length (value_head v) + 1 + (length d + 2)) (P @ R) = response vs"
    using drop_consumed [of p "P @ R" "value_head v @ LF # d @ crlf"] r by (simp add: crlf_def add.assoc del: drop_append)
  then have re: "replying c1 P R vs" using c1 assms(1) by (auto simp: replying_def simp del: drop_append)
  have "mc_run c = mc_run c1"
    using call_state_replying [OF assms(1)] call_state_replying [OF re] c1(1) by (subst (1 2) mc_run.simps) simp
  with re c1(6) show ?thesis by blast
qed

lemma mc_run_reply:
  assumes "replying c P R vs" and "list_all (value_ok S) vs"
  shows "\<exists>c'. mc_run c = Some c' \<and> served c P R vs c'"
  using assms
proof (induction vs arbitrary: c)
  case Nil
  then obtain p where p: "reading (ServerReader c) P p" "drop p (P @ R) = (''END'' @ [CR]) @ LF # []"
    by (auto simp: replying_def response_def crlf_def)
  with mc_run_reply_end [OF Nil.prems(1) p] mc_run_reply_wait [OF Nil.prems(1) p(1)] show ?case by blast
next
  case (Cons v vs)
  then obtain p where p: "reading (ServerReader c) P p" "drop p (P @ R) = response (v # vs)" by (auto simp: replying_def)
  show ?case
  proof (cases "LF \<in> set (drop p P)")
    case True
    with mc_run_reply_value [OF Cons.prems(1) p] Cons.prems(2) obtain c1 where
      c1: "mc_run c = mc_run c1" "replying c1 P R vs" "all_events c1 = all_events c @ [hit v]" by auto
    from Cons.IH [OF c1(2)] Cons.prems(2) obtain c' where "mc_run c1 = Some c'" "served c1 P R vs c'" by auto
    moreover from this(2) have "served c P R (v # vs) c'"
      using c1(3) unfolding served_def by (fastforce intro: exI [of _ "v # _"])
    ultimately show ?thesis using c1(1) by auto
  qed (rule mc_run_reply_wait [OF Cons.prems(1) p(1)])
qed

lemma server_quiet:
  "\<lbrakk> idle c; concat ds = [] \<rbrakk> \<Longrightarrow> \<exists>c'. ServerStream_Reassembled call_Run c (map segment ds) = Some c' \<and> idle c' \<and>
     all_events c' = all_events c"
proof (induction ds arbitrary: c)
  case (Cons d ds)
  then have d: "d = []" "concat ds = []" by auto
  obtain P Q q where a: "reading (ClientReader c) P (length P)" "reading (ServerReader c) Q q" "Run c = RunLoop"
    "State c = Some PeekMagicByte \<or> State c = Some ReadCommand" using Cons.prems(1) by (auto simp: idle_def)
  have "length (drop q (Q @ d)) \<le> 32768" using a(2) refines_lossless_small(2) by (auto simp: reading_def d)
  then obtain s where s: "Source_Reassembled (ServerReader c) [segment d] = Some s" "reading s (Q @ d) q"
    using reading_Reassembled [OF a(2), of d] d by auto
  define c1 where "c1 = c\<lparr>ServerReader := s\<rparr>"
  have c1: "reading (ClientReader c1) P (length P)" "reading (ServerReader c1) (Q @ d) q" "Run c1 = RunLoop"
    "State c1 = State c" "all_events c1 = all_events c" using a s by (auto simp: c1_def)
  have "\<exists>c'. mc_run c1 = Some c' \<and> keeps c1 c' \<and> State c' = State c1 \<and> ClientReader c' = ClientReader c1"
    using a(4) peek_short [OF _ c1(1,2)] readCommand_short [OF _ c1(1,2)] c1(4) by auto
  then obtain c2 where c2: "mc_run c1 = Some c2" "keeps c1 c2" "State c2 = State c" "ClientReader c2 = ClientReader c1"
    using c1(4) by auto
  then have "idle c2" using c1 a unfolding idle_def keeps_def by auto
  from Cons.IH [OF this d(2)] c2 c1(3,5) s(1) show ?case by (auto simp: call_Run_loop keeps_def c1_def)
qed simp

lemma reading_unique: "\<lbrakk> reading s P p; reading s P p' \<rbrakk> \<Longrightarrow> drop p P = drop p' P"
  using refines_buf by (metis Source.inject pending_lossless reading_def received_map_Some)

lemma stalled_bound:
  assumes "xs @ R = l @ LF # T" and "LF \<notin> set xs"
  shows "length xs \<le> length l"
proof (rule ccontr)
  assume "\<not> length xs \<le> length l"
  then obtain rest where "xs = (l @ [LF]) @ rest" using complete_prefix [of xs R "l @ [LF]" T] assms(1) by auto
  with assms(2) show False by simp
qed

lemma replying_bound:
  assumes "drop p (P @ R) = response vs" and "LF \<notin> set (drop p P)" and "list_all (value_ok S) vs" and "4 + S \<le> 32768"
  shows "length (drop p P) + S \<le> 32768"
proof (cases vs)
  case Nil
  then have "drop p P @ drop (p - length P) R = (''END'' @ [CR]) @ LF # []"
    using assms(1) by (simp add: response_def crlf_def)
  from stalled_bound [OF this assms(2)] assms(4) show ?thesis by simp
next
  case (Cons v vs')
  then have "drop p P @ drop (p - length P) R = value_head v @ LF # snd (snd v) @ crlf @ response vs'"
    using assms(1) by (simp add: response_Cons)
  from stalled_bound [OF this assms(2)] assms(3) Cons show ?thesis by (cases v) auto
qed

lemma response_LF: "LF \<in> set (response vs)"
  by (simp add: response_def crlf_def)

lemma server_response:
  assumes "replying c P (concat ds) vs" and "stalled c P" and "list_all (value_ok S) vs" and "4 + S \<le> 32768"
    and "\<forall>d\<in>set ds. length d \<le> S"
  shows "\<exists>c'. ServerStream_Reassembled call_Run c (map segment ds) = Some c' \<and> idle c' \<and>
    all_events c' = all_events c @ map hit vs"
  using assms(1-3,5)
proof (induction ds arbitrary: c P vs)
  case Nil
  obtain p p' where "reading (ServerReader c) P p" "drop p P = response vs"
    "reading (ServerReader c) P p'" "LF \<notin> set (drop p' P)"
    using Nil by (auto simp: replying_def stalled_def)
  then show ?case using response_LF reading_unique by metis
next
  case (Cons d ds)
  obtain p p' Q where a: "reading (ServerReader c) P p" "drop p (P @ concat (d # ds)) = response vs"
    "reading (ServerReader c) P p'" "LF \<notin> set (drop p' P)" "reading (ClientReader c) Q (length Q)"
    "State c = Some HandleGet" "args c \<noteq> []" "Run c = RunLoop"
    using Cons.prems(1,2) by (auto simp: replying_def stalled_def simp del: drop_append)
  have "drop p P = drop p' P" by (rule reading_unique [OF a(1,3)])
  with a(4) have nl: "LF \<notin> set (drop p P)" by simp
  have d: "length d \<le> S" "\<forall>d\<in>set ds. length d \<le> S" using Cons.prems(4) by auto
  from replying_bound [OF a(2) nl Cons.prems(3) assms(4)] d(1)
  have "length (drop p (P @ d)) \<le> 32768" "length d \<le> 32768" by auto
  from reading_Reassembled [OF a(1) this] obtain s where s: "Source_Reassembled (ServerReader c) [segment d] = Some s"
    "reading s (P @ d) p" by blast
  have "replying (c\<lparr>ServerReader := s\<rparr>) (P @ d) (concat ds) vs"
    using a s(2) by (auto simp: replying_def simp del: drop_append)
  from mc_run_reply [OF this Cons.prems(3)] obtain c1 where run: "mc_run (c\<lparr>ServerReader := s\<rparr>) = Some c1"
    and "served (c\<lparr>ServerReader := s\<rparr>) (P @ d) (concat ds) vs c1" by blast
  then consider "idle c1" "concat ds = []" "all_events c1 = all_events c @ map hit vs"
    | vs1 vs2 where "vs = vs1 @ vs2" "replying c1 (P @ d) (concat ds) vs2" "stalled c1 (P @ d)"
       "all_events c1 = all_events c @ map hit vs1" unfolding served_def by auto
  then show ?case
  proof cases
    case 1
    from server_quiet [OF 1(1,2)] 1(3) s(1) run a(8) show ?thesis by (auto simp: call_Run_loop)
  next
    case 2
    from Cons.IH [OF 2(2,3) _ d(2)] Cons.prems(3) 2(1,4) s(1) run a(8) show ?thesis by (auto simp: call_Run_loop)
  qed
qed

text \<open>The one-line reply of a storage command.\<close>

lemma mc_run_discard:
  assumes "State c = Some DiscardResponse" and "reading (ServerReader c) P 0" and "P @ R = l @ [LF]" and "LF \<notin> set l"
    and "reading (ClientReader c) Q (length Q)" and "Run c = RunLoop"
  shows "\<exists>c'. mc_run c = Some c' \<and> all_events c' = all_events c \<and>
    (if R = [] then idle c' else State c' = State c \<and> Run c' = Run c \<and> ServerReader c' = ServerReader c \<and> ClientReader c' = ClientReader c)"
proof (cases "R = []")
  case True
  then have "drop 0 P = l @ LF # []" using assms(3) by simp
  from reading_ReadLine_line [OF assms(2) this assms(4)] obtain s where
    s: "Source_ReadLine (ServerReader c) = Some ((trim_cr l, None), s)" "reading s P (0 + length l + 1)" by blast
  define c1 where "c1 = c\<lparr>State := Some ReadCommand, ServerReader := s\<rparr>"
  have "mc_run c = mc_run c1"
    using s(1) assms(1) by (intro mc_run_continue) (simp add: call_state_def discardResponse_def c1_def)
  moreover have "\<exists>c'. mc_run c1 = Some c' \<and> idle c' \<and> all_events c' = all_events c1"
    using assms s(2) by (intro mc_run_next_command) (auto simp: c1_def)
  ultimately show ?thesis using True by (auto simp: c1_def)
next
  case False
  then have "length P \<le> length l" using arg_cong [OF assms(3), of length] by (cases R) auto
  then have "set P \<subseteq> set l" using incomplete_set [of P R l LF "[]"] assms(3) by simp
  then have "Source_ReadLine (ServerReader c) = Some (([], Some ErrShortRead), ServerReader c)"
    using assms(4) by (intro reading_ReadLine_short [OF assms(2)]) auto
  then have "mc_run c = Some (c\<lparr>State := Some DiscardResponse, ServerReader := ServerReader c\<rparr>)"
    using assms(1) by (intro mc_run_wait) (simp add: call_state_def discardResponse_def)
  with False assms(1) show ?thesis by simp
qed

lemma server_line:
  assumes "State c = Some DiscardResponse" and "reading (ServerReader c) P 0" and "P @ concat ds = l @ [LF]" and "LF \<notin> set l"
    and "reading (ClientReader c) Q (length Q)" and "Run c = RunLoop" and "concat ds \<noteq> []"
    and "length l + 1 \<le> 32768"
  shows "\<exists>c'. ServerStream_Reassembled call_Run c (map segment ds) = Some c' \<and> idle c' \<and> all_events c' = all_events c"
  using assms
proof (induction ds arbitrary: c P)
  case (Cons d ds)
  have "length (P @ d) + length (concat ds) = length l + 1" using arg_cong [OF Cons.prems(3), of length] by simp
  then have "length (drop 0 (P @ d)) \<le> 32768" "length d \<le> 32768" using Cons.prems(8) by auto
  from reading_Reassembled [OF Cons.prems(2) this] obtain s where
    s: "Source_Reassembled (ServerReader c) [segment d] = Some s" "reading s (P @ d) 0" by blast
  have "(P @ d) @ concat ds = l @ [LF]" using Cons.prems(3) by simp
  with mc_run_discard [of "c\<lparr>ServerReader := s\<rparr>" "P @ d" "concat ds" l Q] Cons.prems(1,4,5,6) s(2) obtain c1 where
    c1: "mc_run (c\<lparr>ServerReader := s\<rparr>) = Some c1" "all_events c1 = all_events c"
    "if concat ds = [] then idle c1 else State c1 = State c \<and> Run c1 = Run c \<and> ServerReader c1 = s \<and> ClientReader c1 = ClientReader c"
    by (auto simp del: concat_eq_Nil_conv)
  have "\<exists>c'. ServerStream_Reassembled call_Run c1 (map segment ds) = Some c' \<and> idle c' \<and> all_events c' = all_events c1"
  proof (cases "concat ds = []")
    case True
    with c1(3) server_quiet show ?thesis by simp
  next
    case False
    with c1(3) Cons.prems s(2) show ?thesis by (intro Cons.IH [of c1 "P @ d"]) auto
  qed
  with s(1) c1 Cons.prems(6) show ?case by (auto simp: call_Run_loop)
qed simp

section \<open>Whole sessions\<close>

definition cut :: "nat \<Rightarrow> byte list \<Rightarrow> byte list list \<Rightarrow> bool" where
  "cut S data ds \<longleftrightarrow> concat ds = data \<and> (\<forall>d\<in>set ds. length d \<le> S)"

fun calls_of :: "exchange \<times> byte list list \<times> byte list list \<Rightarrow> StreamCall list" where
  "calls_of (x, ds, es) = [ClientReassembled (map segment ds), ServerReassembled (map segment es)]"

fun session_ok :: "nat \<Rightarrow> exchange \<times> byte list list \<times> byte list list \<Rightarrow> bool" where
  "session_ok S (x, ds, es) \<longleftrightarrow> exchange_ok S x \<and> cut S (request_of x) ds \<and> cut S (reply_of x) es"

lemma header_nonempty: "header w ws \<noteq> []"
  by (simp add: header_def)

lemma parsing_start:
  assumes "idle c" and "concat ds = header w ws @ T"
  shows "\<exists>P. parsing c P (concat ds) w ws T (length P) \<and> length (drop (length P) P) < length (header w ws) \<and> concat ds \<noteq> []"
proof -
  obtain P where "reading (ClientReader c) P (length P)" using assms(1) by (auto simp: idle_def)
  with assms header_nonempty [of w ws] show ?thesis
    by (intro exI [of _ P]) (auto simp: parsing_def idle_def simp del: concat_eq_Nil_conv)
qed

lemma exchange_retrieval:
  assumes "idle c" and "session_ok S (Retrieval w ws vs, ds, es)"
  shows "\<exists>c'. conversation c (calls_of (Retrieval w ws vs, ds, es)) = Some c' \<and> idle c' \<and>
    all_events c' = all_events c @ map hit vs"
proof -
  have ok: "w \<in> {''get'', ''gets''}" "ws \<noteq> []" "list_all clean_word ws" "length (header w ws) + S \<le> 32768"
    "list_all (value_ok S) vs" "concat ds = header w ws @ []" "\<forall>d\<in>set ds. length d \<le> S"
    "concat es = response vs" "\<forall>d\<in>set es. length d \<le> S"
    using assms(2) by (auto simp: cut_def)
  have run: "Run c = RunLoop" and k: "known_command w" using assms(1) ok(1) by (auto simp: idle_def known_command_def)
  obtain P where p: "parsing c P (concat ds) w ws [] (length P)" "length (drop (length P) P) < length (header w ws)"
    "concat ds \<noteq> []" using parsing_start [OF assms(1) ok(6)] by blast
  obtain c1 where c1: "ClientStream_Reassembled call_Run c (map segment ds) = Some c1" "keeps c c1"
    "awaiting c1 HandleGet (P @ concat ds) []"
    using client_request [OF p run ok(7,4) k ok(2,3) parsed_retrieval [OF _ ok(1,2)]] by blast
  have a: "State c1 = Some HandleGet" "args c1 \<noteq> []" "reading (ServerReader c1) [] 0" "Run c1 = RunLoop"
    "reading (ClientReader c1) (P @ concat ds) (length (P @ concat ds))"
    using c1(2,3) run by (auto simp: awaiting_def keeps_def)
  then have start: "replying c1 [] (concat es) vs" "stalled c1 []"
    unfolding replying_def stalled_def ok(8) by (metis append_Nil drop0, metis drop_Nil empty_iff empty_set)
  have "2 \<le> length (args_bytes ws)" using ok(2) by (induction ws rule: args_bytes.induct) (auto simp: crlf_def)
  then have "4 + S \<le> 32768" using ok(1,4) by (auto simp: header_def)
  from server_response [OF start ok(5) this ok(9)] c1(1,2) show ?thesis by (auto simp: keeps_def)
qed

lemma exchange_storage:
  assumes "idle c" and "session_ok S (Storage w ws d reply, ds, es)"
  shows "\<exists>c'. conversation c (calls_of (Storage w ws d reply, ds, es)) = Some c' \<and> idle c' \<and>
    all_events c' = all_events c"
proof -
  have ok: "w \<in> {''set'', ''add'', ''replace'', ''append'', ''prepend'', ''cas''}" "4 \<le> length ws" "list_all clean_word ws"
    "length (header w ws) + S \<le> 32768" "ws ! 3 = Itoa (int (length d))" "int (length d) + 2 \<le> maxint"
    "LF \<notin> set reply" "length reply + 2 + S \<le> 32768" "concat ds = header w ws @ (d @ crlf)"
    "\<forall>d\<in>set ds. length d \<le> S" "concat es = (reply @ [CR]) @ [LF]"
    using assms(2) by (auto simp: cut_def crlf_def)
  have run: "Run c = RunLoop" and k: "known_command w" using assms(1) ok(1) by (auto simp: idle_def known_command_def)
  have ne: "ws \<noteq> []" using ok(2) by auto
  obtain P where p: "parsing c P (concat ds) w ws (d @ crlf) (length P)"
    "length (drop (length P) P) < length (header w ws)" "concat ds \<noteq> []" using parsing_start [OF assms(1) ok(9)] by blast
  obtain c1 where c1: "ClientStream_Reassembled call_Run c (map segment ds) = Some c1" "keeps c c1"
    "awaiting c1 DiscardResponse (P @ concat ds) []"
    using client_request [OF p run ok(10,4) k ne ok(3) parsed_storage [OF _ ok(1,2,5,6)]] by blast
  have "State c1 = Some DiscardResponse" "reading (ServerReader c1) [] 0"
    "reading (ClientReader c1) (P @ concat ds) (length (P @ concat ds))"
    using c1(3) by (auto simp: awaiting_def)
  with server_line [of c1 "[]" es "reply @ [CR]" "P @ concat ds"] ok(7,8,11) c1(2) run
  obtain c' where "ServerStream_Reassembled call_Run c1 (map segment es) = Some c'" "idle c'" "all_events c' = all_events c1"
    by (auto simp: keeps_def simp del: concat_eq_Nil_conv)
  with c1(1,2) show ?thesis by (auto simp: keeps_def)
qed

lemma exchange_events:
  assumes "idle c" and "session_ok S x"
  shows "\<exists>c'. conversation c (calls_of x) = Some c' \<and> idle c' \<and> all_events c' = all_events c @ hits_of (fst x)"
proof -
  obtain y ds es where x: "x = (y, ds, es)" by (cases x)
  with assms exchange_retrieval [of c S _ _ _ ds es] exchange_storage [of c S _ _ _ _ ds es] show ?thesis by (cases y) simp_all
qed

lemma conversation_append: "conversation c (xs @ ys) = conversation c xs \<bind> (\<lambda>c'. conversation c' ys)"
proof (induction xs arbitrary: c)
  case (Cons x xs)
  then show ?case by (cases "stream_call c x") simp_all
qed simp

lemma session_events:
  "\<lbrakk> idle c; \<forall>x\<in>set xs. session_ok S x \<rbrakk> \<Longrightarrow> \<exists>c'. conversation c (concat (map calls_of xs)) = Some c' \<and> idle c' \<and>
     all_events c' = all_events c @ concat (map (hits_of \<circ> fst) xs)"
proof (induction xs arbitrary: c)
  case (Cons x xs)
  obtain c1 where c1: "conversation c (calls_of x) = Some c1" "idle c1" "all_events c1 = all_events c @ hits_of (fst x)"
    using exchange_events [OF Cons.prems(1), of S x] Cons.prems(2) by auto
  from Cons.IH [OF c1(2)] Cons.prems(2) c1 show ?case by (auto simp: conversation_append simp del: calls_of.simps)
qed simp

lemma idle_NewConsumer: "idle (fst (NewConsumer []))"
proof -
  have "reading (ReaderSource Reader_New) [] 0"
    using refines_NewBuffer [of BufferSize]
    by (auto simp: reading_def Reader_New_def lossless_def BufferSize_def NewBuffer_def maxcap_def)
  then show ?thesis
    by (auto simp: idle_def NewConsumer_def Consumer_New_def Consumer.defs McConsumer.defs intro!: exI [of _ "[]"])
qed

lemma all_events_NewConsumer: "all_events (fst (NewConsumer [])) = []"
  by (simp add: NewConsumer_def Consumer_New_def Consumer.defs McConsumer.defs all_events_def)

lemma complete_delivers:
  "handled (ServerStream_ReassemblyComplete (ClientStream_ReassemblyComplete c)) = handled c @ [eventBuf c, []]"
  by (simp add: ServerStream_ReassemblyComplete_def ClientStream_ReassemblyComplete_def FlushEvents_def)

section \<open>Properties\<close>

text \<open>
  C3.  The sniffer reports exactly the hits of the conversation.  For every sequence of well-formed retrieval and
  storage exchanges on a connection, and however TCP cuts requests and replies into segments (of at most \<open>S\<close> bytes,
  such that a line and a segment fit into a reader), the events handed to the handler by the end of the
  connection are the keys and value sizes of the retrieved values, in order, and nothing else.
\<close>

theorem sessions_report_hits:
  assumes "\<forall>x\<in>set xs. session_ok S x"
  shows "\<exists>c'. conversation (fst (NewConsumer [])) (concat (map calls_of xs) @ [ClientComplete, ServerComplete]) = Some c' \<and>
    concat (handled c') = concat (map (hits_of \<circ> fst) xs)"
proof -
  obtain c where c: "conversation (fst (NewConsumer [])) (concat (map calls_of xs)) = Some c"
    "all_events c = concat (map (hits_of \<circ> fst) xs)"
    using session_events [OF idle_NewConsumer assms] by (auto simp: all_events_NewConsumer)
  then show ?thesis by (simp add: conversation_append complete_delivers all_events_def)
qed

text \<open>Two retrievals and a storage in between, cut at arbitrary places.\<close>

definition sample_session :: "(exchange \<times> byte list list \<times> byte list list) list" where
  "sample_session =
     [(Retrieval ''get'' [''a'', ''b''] [(''b'', ''0'', ''hello'')],
       [''g'', [], ''et a '', ''b'' @ [CR], [LF]],
       [''VALUE b'', '' 0 5'' @ crlf @ ''he'', ''llo'', crlf @ ''EN'', ''D'' @ [CR], [LF]]),
      (Storage ''set'' [''a'', ''0'', ''0'', ''3''] ''x y'' ''STORED'',
       [''set a 0 0 3'' @ crlf @ ''x'', '' y'' @ [CR], [LF]], [''STORED'', crlf]),
      (Retrieval ''gets'' [''a''] [(''a'', ''7'', ''x y'')],
       [''gets a'' @ crlf], [''VALUE a 7 3'' @ crlf @ ''x y'' @ crlf @ ''END'' @ crlf])]"

lemma sample_session_ok: "list_all (session_ok 1460) sample_session"
proof -
  have i: "Itoa 5 = ''5''" "Itoa 3 = ''3''" by code_simp+
  show ?thesis
    by (simp add: sample_session_def cut_def header_def response_def value_bytes_def clean_word_def crlf_def maxint_def i)
qed

theorem sessions_report_hits_witness:
  "\<exists>c'. conversation (fst (NewConsumer [])) (concat (map calls_of sample_session) @ [ClientComplete, ServerComplete]) = Some c' \<and>
    concat (handled c') = [\<lparr>EType = EventGetHit, Key = ''b'', Size = 5\<rparr>, \<lparr>EType = EventGetHit, Key = ''a'', Size = 3\<rparr>]"
proof -
  have "concat (map (hits_of \<circ> fst) sample_session) =
    [\<lparr>EType = EventGetHit, Key = ''b'', Size = 5\<rparr>, \<lparr>EType = EventGetHit, Key = ''a'', Size = 3\<rparr>]"
    by (simp add: sample_session_def)
  with sessions_report_hits [of sample_session 1460] sample_session_ok show ?thesis by (simp add: list_all_iff)
qed

lemma resync_idle:
  assumes "mc_safe c" and "Run c = RunLoop" and "ClientReader c = ReaderSource r" and "ServerReader c = ReaderSource s"
  shows "idle (resync c)"
proof -
  have "reader_safe r" "reader_safe s" using assms by (auto simp: mc_safe_def base_safe_def)
  then have "Reader_Reset r = Reader_New" "Reader_Reset s = Reader_New" by (auto intro: Reader_Reset_New)
  moreover have "reading (ReaderSource Reader_New) [] 0"
    using refines_NewBuffer [of BufferSize]
    by (auto simp: reading_def Reader_New_def lossless_def BufferSize_def NewBuffer_def maxcap_def)
  ultimately show ?thesis using assms by (auto simp: idle_def resync_def intro!: exI [of _ "[]"])
qed

text \<open>
  C13.  Recovery.  When a state function fails with anything but a short read or the end of the stream (a gap in the
  stream, a malformed command, an unreadable length), the driver drops what is buffered and starts over, and
  every exchange from then on is reported in full.
\<close>

theorem recovery:
  assumes "mc_safe c" and "call_state c = Some (Some e, c1)" and "e \<noteq> ErrShortRead" and "e \<noteq> EOF" and "Run c1 = RunLoop"
    and "ClientReader c1 = ReaderSource r" and "ServerReader c1 = ReaderSource s" and "\<forall>x\<in>set xs. session_ok S x"
  shows "\<exists>c2 c'. mc_run c = Some c2 \<and> conversation c2 (concat (map calls_of xs)) = Some c' \<and>
    all_events c' = all_events c1 @ concat (map (hits_of \<circ> fst) xs)"
proof -
  have "mc_safe c1" using call_state_good [OF assms(1)] assms(2) by simp
  from session_events [OF resync_idle [OF this assms(5-7)] assms(8)] show ?thesis
    using assms(2-4) by (subst mc_run.simps) (auto simp: resync_def)
qed

definition desynced :: McConsumer where
  "desynced = (fst (NewConsumer []))\<lparr>State := Some ReadCommand, ClientReader :=
     ReaderSource (Reader_New\<lparr>rbuf := \<lparr>buf = ''!? '', blen = 3, bcap = BufferSize, blocks = [\<lparr>gap = 0, dataLen = 3\<rparr>], bdiscard = 0\<rparr>\<rparr>)\<rparr>"

theorem recovery_witness:
  "\<exists>c2 c'. mc_run desynced = Some c2 \<and> conversation c2 (concat (map calls_of sample_session)) = Some c' \<and>
    all_events c' = [\<lparr>EType = EventGetHit, Key = ''b'', Size = 5\<rparr>, \<lparr>EType = EventGetHit, Key = ''a'', Size = 3\<rparr>]"
proof -
  have "mc_safe desynced"
    using NewConsumer_safe [of "[]"] by (simp add: desynced_def mc_safe_def base_safe_def reader_safe_def Reader_New_def
        buf_safe_def block_ok_def maxcap_def BufferSize_def int64_def)
  moreover have "map_option (\<lambda>(e, c). (e, Run c, ClientReader c, ServerReader c, all_events c)) (call_state desynced) =
      Some (Some ErrProtocolDesync, RunLoop, ReaderSource Reader_New, ReaderSource Reader_New, [])" by code_simp
  then obtain c1 where "call_state desynced = Some (Some ErrProtocolDesync, c1)" "Run c1 = RunLoop"
    "ClientReader c1 = ReaderSource Reader_New" "ServerReader c1 = ReaderSource Reader_New" "all_events c1 = []" by auto
  moreover have "concat (map (hits_of \<circ> fst) sample_session) =
    [\<lparr>EType = EventGetHit, Key = ''b'', Size = 5\<rparr>, \<lparr>EType = EventGetHit, Key = ''a'', Size = 3\<rparr>]"
    by (simp add: sample_session_def)
  ultimately show ?thesis
    using recovery [of desynced ErrProtocolDesync c1 Reader_New Reader_New sample_session 1460] sample_session_ok
    by (simp add: list_all_iff)
qed

text \<open>
  C31.  A connection whose first client byte is the magic byte \<open>0x80\<close> of the binary protocol is given up at once: both
  readers go back to the pool, as good as new, and nothing that follows on the connection produces an event.
\<close>

theorem binary_ignored:
  assumes "length d < 32768" and "\<forall>x\<in>set xs. call_ok x"
  shows "\<exists>c1 c'. stream_call (fst (NewConsumer [])) (ClientReassembled [segment (CHR 0x80 # d)]) = Some c1 \<and>
    released c1 = [Reader_New, Reader_New] \<and> ClientReader c1 = EofSource \<and> ServerReader c1 = EofSource \<and>
    conversation c1 xs = Some c' \<and> all_events c' = []"
proof -
  define c where "c = fst (NewConsumer [])"
  have c: "ClientReader c = ReaderSource Reader_New" "ServerReader c = ReaderSource Reader_New" "Run c = RunLoop"
    "State c = Some PeekMagicByte" "released c = []" "all_events c = []" "mc_safe c"
    using NewConsumer_safe [of "[]"] by (auto simp: c_def NewConsumer_def Consumer_New_def Consumer.defs McConsumer.defs all_events_def)
  have r0: "reading (ReaderSource Reader_New) [] 0"
    using refines_NewBuffer [of BufferSize]
    by (auto simp: reading_def Reader_New_def lossless_def BufferSize_def NewBuffer_def maxcap_def)
  from reading_Reassembled [OF r0, of "CHR 0x80 # d"] assms(1) obtain s where
    s: "Source_Reassembled (ReaderSource Reader_New) [segment (CHR 0x80 # d)] = Some s" "reading s (CHR 0x80 # d) 0" by auto
  from s(2) obtain r where r: "s = ReaderSource r" "reader_safe r"
    by (auto simp: reading_def reader_safe_def dest: refines_safe)
  note r' = Reader_Reset_New [OF r(2)]
  have t: "Reader_Reset (Reader_Truncate Reader_New) = Reader_New"
    by (simp add: Reader_Reset_def Reader_Truncate_def Reader_New_def Buffer_Reset_def NewBuffer_def)
  define c1 where "c1 = Consumer_Close (c\<lparr>ClientReader := s, ServerReader := Source_Truncate (ServerReader c)\<rparr>)"
  have "call_state (c\<lparr>ClientReader := s\<rparr>) = Some (Some EOF, c1)"
    using reading_PeekN [OF s(2)] c by (simp add: call_state_def peekMagicByte_def index_at_def c1_def)
  then have "mc_run (c\<lparr>ClientReader := s\<rparr>) = Some c1" by (subst mc_run.simps) simp
  then have call: "stream_call c (ClientReassembled [segment (CHR 0x80 # d)]) = Some c1"
    using s(1) c by (auto simp: call_Run_loop)
  have c1: "released c1 = [Reader_New, Reader_New]" "ClientReader c1 = EofSource" "ServerReader c1 = EofSource"
    "all_events c1 = []" "finished c1"
    using c r(1) r' t by (simp_all add: c1_def Consumer_Close_def release_client_def release_server_def finished_def)
  have "call_ok (ClientReassembled [segment (CHR 0x80 # d)])"
    using assms(1) by (simp add: segment_def reassembly_ok_def chunk_ok_def maxcap_def)
  from stream_call_safe [OF c(7) this] call have "mc_safe c1" by simp
  from conversation_safe [OF this assms(2)] obtain c' where "conversation c1 xs = Some c'" by blast
  with conversation_finished [OF c1(5) this] c1 call show ?thesis unfolding c_def by auto
qed

theorem binary_ignored_witness:
  "\<exists>c1 c'. stream_call (fst (NewConsumer [])) (ClientReassembled [segment (CHR 0x80 # ''get a'' @ crlf)]) = Some c1 \<and>
    released c1 = [Reader_New, Reader_New] \<and> ClientReader c1 = EofSource \<and> ServerReader c1 = EofSource \<and>
    conversation c1 stray_calls = Some c' \<and> all_events c' = []"
  by (rule binary_ignored) (auto simp: crlf_def stray_calls_def reassembly_ok_def chunk_ok_def maxcap_def)


text \<open>
  C20.  A \<open>quit\<close> line alone is not acted upon: \<open>readCommand\<close> consumes the end of the line with the command, so
  \<open>readArgs\<close> waits for a word that the client never sends, and the readers stay open.
\<close>

theorem quit_line_not_handled:
  "map_option (\<lambda>c. (State c, cmd c, ClientReader c))
     (conversation (fst (NewConsumer [])) [ClientReassembled [segment (''quit'' @ crlf)]]) =
   Some (Some ReadArgs, ''quit'', ReaderSource Reader_New)"
  by code_simp

text \<open>
  C21.  A negative length in a \<open>VALUE\<close> line is accepted: the hit is reported with that size, and the reader is moved
  to a hole that was never in the stream, so that the rest of the reply is lost.
\<close>

theorem negative_length_accepted:
  "map_option (\<lambda>c. (State c, all_events c))
     (conversation (fst (NewConsumer []))
       [ClientReassembled [segment (''get a b'' @ crlf)],
        ServerReassembled [segment (''VALUE a 0 -20'' @ crlf @ ''x'' @ crlf @ ''VALUE b 0 1'' @ crlf @ ''y'' @ crlf @ ''END'' @ crlf)]]) =
   Some (Some ReadCommand, [\<lparr>EType = EventGetHit, Key = ''a'', Size = -20\<rparr>])"
  by code_simp

end
