(* ===== verification/Hotlist.thy ===== *)
theory Hotlist
  imports Prelude
begin

text \<open>
  The hot lists of \<^verbatim>\<open>hotlist/hotlist.go\<close> and \<^verbatim>\<open>hotlist/perfect.go\<close>.  An \<open>Item\<close> is any type with a weight, a
  parameter \<open>weight\<close> here.  The Go map is a map; the unspecified order in which Go iterates over it is an argument
  \<open>it\<close> of the operations that iterate.  Counters are 64-bit and wrap.

  The locale \<open>hot_list\<close> states what clients rely on: how the operations change the number of times an item has been
  added.  It is interpreted on the perfect hot list.
\<close>

section \<open>The interface\<close>

locale hot_list =
  fixes new :: 'h
    and addNWeighted :: "'h \<Rightarrow> 'a \<Rightarrow> int \<Rightarrow> 'h"
    and iterates :: "'it \<Rightarrow> 'h \<Rightarrow> bool"
    and reset :: "'it \<Rightarrow> 'h \<Rightarrow> 'h"
    and top :: "'it \<Rightarrow> 'h \<Rightarrow> int \<Rightarrow> 'e list option"
    and entry_item :: "'e \<Rightarrow> 'a"
    and entry_count :: "'e \<Rightarrow> int"
    and count_of :: "'h \<Rightarrow> 'a \<Rightarrow> int"
  assumes count_new: "count_of new x = 0"
    and count_add: "count_of (addNWeighted h x n) y = (if y = x then gint (count_of h y + n) else count_of h y)"
    and count_reset: "iterates it h \<Longrightarrow> count_of (reset it h) x = 0"
    and top_total: "\<lbrakk> iterates it h; 0 \<le> k \<rbrakk> \<Longrightarrow> \<exists>es. top it h k = Some es \<and> int (length es) \<le> k \<and>
          distinct (map entry_item es) \<and> (\<forall>e\<in>set es. entry_count e = count_of h (entry_item e))"
begin

definition addAll :: "'h \<Rightarrow> 'a list \<Rightarrow> 'h" where
  "addAll h xs = foldl (\<lambda>h x. addNWeighted h x 1) h xs"

lemma addAll_simps [simp]:
  "addAll h [] = h" "addAll h (x # xs) = addAll (addNWeighted h x 1) xs" "addAll h (xs @ ys) = addAll (addAll h xs) ys"
  by (simp_all add: addAll_def)

lemma count_addAll:
  assumes "int64 (count_of h y)"
  shows "count_of (addAll h xs) y = gint (count_of h y + int (count_list xs y))"
  using assms
proof (induction xs arbitrary: h)
  case Nil
  then show ?case by (simp add: gint_id)
next
  case (Cons x xs)
  have "int64 (count_of (addNWeighted h x 1) y)" using Cons.prems by (simp add: count_add int64_gint)
  from Cons.IH [OF this] show ?case by (simp add: count_add gint_add_left add.assoc)
qed

lemma count_addAll_new: "int64 (int (count_list xs y)) \<Longrightarrow> count_of (addAll new xs) y = int (count_list xs y)"
  using count_addAll [of new y xs] by (simp add: count_new gint_id int64_def)

text \<open>What a report built on the interface shows of items added one by one.\<close>

lemma top_addAll:
  assumes "iterates it (addAll new xs)" and "0 \<le> k" and "int64 (int (length xs))"
  shows "\<exists>es. top it (addAll new xs) k = Some es \<and> int (length es) \<le> k \<and> distinct (map entry_item es) \<and>
    (\<forall>e\<in>set es. entry_count e = int (count_list xs (entry_item e)))"
proof -
  have "int64 (int (count_list xs y))" for y
    using assms(3) count_le_length [of xs y] by (auto simp: int64_def)
  with top_total [OF assms(1,2)] show ?thesis by (simp add: count_addAll_new)
qed

end

section \<open>The perfect hot list\<close>

record 'a itemCount =
  item :: 'a
  icount :: int
  totalWeight :: int

definition itemCount_Item :: "'a itemCount \<Rightarrow> 'a" where
  "itemCount_Item ic = item ic"

definition itemCount_Count :: "'a itemCount \<Rightarrow> int" where
  "itemCount_Count ic = icount ic"

text \<open>\<open>descByTotalWeight.Less\<close>.  \<open>sort.Sort\<close> promises an ordered permutation; which one depends on the order of its
  input only through ties, and the input here is in the arbitrary order \<open>it\<close>.\<close>

definition Less :: "'a itemCount \<Rightarrow> 'a itemCount \<Rightarrow> bool" where
  "Less a b \<longleftrightarrow> totalWeight b < totalWeight a"

definition sort_Sort :: "'a itemCount list \<Rightarrow> 'a itemCount list" where
  "sort_Sort cs = sort_key (\<lambda>ic. - totalWeight ic) cs"

definition orderedTop :: "('a \<Rightarrow> int) \<Rightarrow> int \<Rightarrow> ('a \<times> int) list \<Rightarrow> 'a itemCount list option" where
  "orderedTop weight k it =
     (let k = (if int (length it) < k then int (length it) else k);
          ordered = map (\<lambda>(x, c). \<lparr>item = x, icount = c, totalWeight = gint (weight x * c)\<rparr>) it
      in slice_to k (sort_Sort ordered))"

type_synonym 'a perfectHotlist = "'a \<Rightarrow> int option"

definition NewPerfect :: "'a perfectHotlist" where
  "NewPerfect = Map.empty"

definition AddNWeighted :: "'a perfectHotlist \<Rightarrow> 'a \<Rightarrow> int \<Rightarrow> 'a perfectHotlist" where
  "AddNWeighted hl x n = hl(x \<mapsto> gint ((case hl x of None \<Rightarrow> 0 | Some c \<Rightarrow> c) + n))"

definition AddWeighted :: "'a perfectHotlist \<Rightarrow> 'a \<Rightarrow> 'a perfectHotlist" where
  "AddWeighted hl x = AddNWeighted hl x 1"

text \<open>\<open>Reset\<close> deletes every key the iteration meets.\<close>

definition Reset :: "('a \<times> int) list \<Rightarrow> 'a perfectHotlist \<Rightarrow> 'a perfectHotlist" where
  "Reset it hl = foldl (\<lambda>hl (k, _). hl(k := None)) hl it"

definition Top :: "('a \<Rightarrow> int) \<Rightarrow> ('a \<times> int) list \<Rightarrow> 'a perfectHotlist \<Rightarrow> int \<Rightarrow> 'a itemCount list option" where
  "Top weight it hl k = orderedTop weight k it"

text \<open>\<open>it\<close> is an order in which Go may iterate over the map.\<close>

definition iteration :: "('a \<times> int) list \<Rightarrow> 'a perfectHotlist \<Rightarrow> bool" where
  "iteration it hl \<longleftrightarrow> distinct (map fst it) \<and> map_of it = hl"

definition hl_count :: "'a perfectHotlist \<Rightarrow> 'a \<Rightarrow> int" where
  "hl_count hl x = (case hl x of None \<Rightarrow> 0 | Some c \<Rightarrow> c)"

lemma Reset_iteration: "iteration it hl \<Longrightarrow> Reset it hl = Map.empty"
proof -
  have gen: "foldl (\<lambda>hl (k, _). hl(k := None)) m it = (\<lambda>x. if x \<in> fst ` set it then None else m x)" for m :: "'a perfectHotlist"
    by (induction it arbitrary: m) auto
  assume "iteration it hl"
  then show ?thesis unfolding Reset_def gen iteration_def by (metis map_of_eq_None_iff)
qed

lemma sort_Sort_facts [simp]:
  "mset (sort_Sort cs) = mset cs" "set (sort_Sort cs) = set cs" "length (sort_Sort cs) = length cs"
  by (simp_all add: sort_Sort_def)

lemma sort_Sort_sorted: "sorted_wrt (\<lambda>a b. totalWeight a \<ge> totalWeight b) (sort_Sort cs)"
proof -
  have "sorted (map (\<lambda>ic. - totalWeight ic) (sort_Sort cs))" by (simp add: sort_Sort_def)
  then show ?thesis by (simp add: sorted_map)
qed

text \<open>
  The sort is one that \<open>sort.Sort\<close> may perform, and for a suitable iteration order it gives any result that
  \<open>sort.Sort\<close> may give.
\<close>

lemma sort_Sort_any:
  assumes "mset ds = mset cs" and "sorted_wrt (\<lambda>a b. \<not> Less b a) ds"
  shows "\<exists>cs'. mset cs' = mset cs \<and> sort_Sort cs' = ds"
proof (intro exI conjI)
  show "mset ds = mset cs" by fact
  have "sorted (map (\<lambda>ic. - totalWeight ic) ds)" using assms(2) by (simp add: sorted_map Less_def not_less)
  then show "sort_Sort ds = ds" by (simp add: sort_Sort_def sort_key_id_if_sorted)
qed

section \<open>The top entries\<close>

definition entries_of :: "('a \<Rightarrow> int) \<Rightarrow> ('a \<times> int) list \<Rightarrow> 'a itemCount list" where
  "entries_of weight it = map (\<lambda>(x, c). \<lparr>item = x, icount = c, totalWeight = gint (weight x * c)\<rparr>) it"

lemma item_entries_of [simp]: "map item (entries_of weight it) = map fst it"
  by (simp add: entries_of_def comp_def split_beta)

lemma orderedTop_eq:
  "0 \<le> k \<Longrightarrow> orderedTop weight k it = Some (take (nat k) (sort_Sort (entries_of weight it)))"
  by (auto simp: orderedTop_def entries_of_def slice_to_def Let_def)

lemma distinct_items_sort:
  assumes "distinct (map fst it)"
  shows "distinct (map item (sort_Sort (entries_of weight it)))"
proof -
  have "mset (map item (sort_Sort (entries_of weight it))) = mset (map fst it)"
    by (metis item_entries_of mset_map sort_Sort_facts(1))
  with assms show ?thesis by (metis mset_eq_imp_distinct_iff)
qed

lemma entries_of_iteration:
  assumes "iteration it hl"
  shows "e \<in> set (entries_of weight it) \<longleftrightarrow>
    hl (item e) = Some (icount e) \<and> totalWeight e = gint (weight (item e) * icount e)"
  using assms by (cases e) (auto simp: iteration_def entries_of_def)

lemma Top_correct:
  assumes "iteration it hl" and "0 \<le> k"
  shows "\<exists>es. Top weight it hl k = Some es \<and> int (length es) = min k (int (card (dom hl))) \<and>
    distinct (map item es) \<and> sorted_wrt (\<lambda>a b. totalWeight a \<ge> totalWeight b) es \<and>
    (\<forall>e\<in>set es. hl (item e) = Some (icount e) \<and> totalWeight e = gint (weight (item e) * icount e)) \<and>
    (\<forall>x c. hl x = Some c \<and> x \<notin> item ` set es \<longrightarrow> (\<forall>e\<in>set es. gint (weight x * c) \<le> totalWeight e))"
proof -
  define all where "all = sort_Sort (entries_of weight it)"
  define es where "es = take (nat k) all"
  have split: "all = es @ drop (nat k) all" by (simp add: es_def)
  have in_all: "e \<in> set all \<longleftrightarrow> hl (item e) = Some (icount e) \<and> totalWeight e = gint (weight (item e) * icount e)" for e
    by (simp add: all_def entries_of_iteration [OF assms(1)])
  have sub: "set es \<subseteq> set all" by (simp add: es_def set_take_subset)
  have d: "distinct (map item all)" using assms(1) by (simp add: all_def iteration_def distinct_items_sort)
  have s: "sorted_wrt (\<lambda>a b. totalWeight a \<ge> totalWeight b) (es @ drop (nat k) all)"
    using sort_Sort_sorted split by (metis all_def)
  have "card (dom hl) = length it"
    using assms(1) by (metis distinct_card dom_map_of_conv_image_fst iteration_def length_map set_map)
  then have "int (length es) = min k (int (card (dom hl)))"
    using assms(2) by (simp add: es_def all_def entries_of_def)
  moreover have "gint (weight x * c) \<le> totalWeight e" if "hl x = Some c" "x \<notin> item ` set es" "e \<in> set es" for x c e
  proof -
    have "\<lparr>item = x, icount = c, totalWeight = gint (weight x * c)\<rparr> \<in> set all" using that(1) in_all by simp
    then have "\<lparr>item = x, icount = c, totalWeight = gint (weight x * c)\<rparr> \<in> set (drop (nat k) all)"
      using that(2) split by (metis (no_types, lifting) Un_iff image_eqI itemCount.select_convs(1) set_append)
    with s that(3) show ?thesis by (fastforce simp: sorted_wrt_append)
  qed
  moreover have "Top weight it hl k = Some es" using assms(2) by (simp add: Top_def orderedTop_eq es_def all_def)
  moreover have "distinct (map item es)" using d by (metis distinct_append map_append split)
  ultimately show ?thesis using s in_all sub by (auto simp: sorted_wrt_append)
qed

interpretation perfect: hot_list NewPerfect AddNWeighted iteration Reset "Top weight" itemCount_Item itemCount_Count hl_count
  for weight
proof
  fix it and h :: "'a perfectHotlist" and x y :: 'a and n k :: int
  show "hl_count NewPerfect x = 0" by (simp add: hl_count_def NewPerfect_def)
  show "hl_count (AddNWeighted h x n) y = (if y = x then gint (hl_count h y + n) else hl_count h y)"
    by (simp add: hl_count_def AddNWeighted_def)
  show "hl_count (Reset it h) x = 0" if "iteration it h" using that by (simp add: hl_count_def Reset_iteration)
  show "\<exists>es. Top weight it h k = Some es \<and> int (length es) \<le> k \<and> distinct (map itemCount_Item es) \<and>
      (\<forall>e\<in>set es. itemCount_Count e = hl_count h (itemCount_Item e))" if "iteration it h" "0 \<le> k"
    using Top_correct [OF that, of weight]
    by (auto simp: hl_count_def itemCount_Item_def [abs_def] itemCount_Count_def)
qed

section \<open>Properties\<close>

lemma AddWeighted_addAll: "foldl AddWeighted hl xs = perfect.addAll hl xs"
  by (simp add: perfect.addAll_def AddWeighted_def [abs_def])

text \<open>
  C20.  \<open>Top(k)\<close> returns the \<open>k\<close> heaviest items (all of them when there are fewer), each once, with its count, heaviest
  first; no item left out outweighs one that is reported.  This holds for every order in which Go may iterate
  over the map, and a negative \<open>k\<close> panics.
\<close>

theorem top_is_heaviest:
  assumes "iteration it hl"
  shows "if k < 0 then Top weight it hl k = None
    else \<exists>es. Top weight it hl k = Some es \<and> int (length es) = min k (int (card (dom hl))) \<and>
      distinct (map item es) \<and> sorted_wrt (\<lambda>a b. totalWeight a \<ge> totalWeight b) es \<and>
      (\<forall>e\<in>set es. hl (item e) = Some (icount e) \<and> totalWeight e = gint (weight (item e) * icount e)) \<and>
      (\<forall>x c. hl x = Some c \<and> x \<notin> item ` set es \<longrightarrow> (\<forall>e\<in>set es. gint (weight x * c) \<le> totalWeight e))"
proof (cases "k < 0")
  case True
  then show ?thesis by (simp add: Top_def orderedTop_def slice_to_def)
next
  case False
  with Top_correct [OF assms, of k weight] show ?thesis by simp
qed

definition sample_hotlist :: "string perfectHotlist" where
  "sample_hotlist = foldl AddWeighted NewPerfect [''aa'', ''b'', ''aa'', ''ccc'']"

theorem top_is_heaviest_witness:
  "\<exists>es. Top (int \<circ> length) [(''ccc'', 1), (''aa'', 2), (''b'', 1)] sample_hotlist 2 = Some es \<and>
    int (length es) = min 2 (int (card (dom sample_hotlist))) \<and> distinct (map item es) \<and>
    sorted_wrt (\<lambda>a b. totalWeight a \<ge> totalWeight b) es \<and>
    (\<forall>e\<in>set es. sample_hotlist (item e) = Some (icount e) \<and> totalWeight e = gint ((int \<circ> length) (item e) * icount e)) \<and>
    (\<forall>x c. sample_hotlist x = Some c \<and> x \<notin> item ` set es \<longrightarrow> (\<forall>e\<in>set es. gint ((int \<circ> length) x * c) \<le> totalWeight e))"
proof -
  have "iteration [(''ccc'', 1), (''aa'', 2), (''b'', 1)] sample_hotlist"
    by (auto simp: iteration_def sample_hotlist_def AddWeighted_def AddNWeighted_def NewPerfect_def gint_id int64_def)
  from top_is_heaviest [OF this, of 2 "int \<circ> length"] show ?thesis by (simp del: length_map o_apply)
qed

text \<open>
  C30.  The perfect hot list counts exactly: after any sequence of \<open>AddWeighted\<close> calls on a fresh list, \<open>Top\<close> reports
  every entry with the number of times its item was added, and \<open>Reset\<close> forgets everything.
\<close>

theorem hotlist_counts:
  assumes "iteration it (foldl AddWeighted NewPerfect xs)" and "0 \<le> k" and "int64 (int (length xs))"
  shows "\<exists>es. Top weight it (foldl AddWeighted NewPerfect xs) k = Some es \<and> distinct (map item es) \<and>
    (\<forall>e\<in>set es. icount e = int (count_list xs (item e))) \<and> Reset it (foldl AddWeighted NewPerfect xs) = NewPerfect"
  using perfect.top_addAll [of it xs k weight] assms Reset_iteration [OF assms(1)]
  by (auto simp: AddWeighted_addAll itemCount_Item_def [abs_def] itemCount_Count_def NewPerfect_def)

theorem hotlist_counts_witness:
  "\<exists>es. Top (int \<circ> length) [(''b'', 1), (''aa'', 2)] (foldl AddWeighted NewPerfect [''aa'', ''b'', ''aa'']) 10 = Some es \<and>
    distinct (map item es) \<and> (\<forall>e\<in>set es. icount e = int (count_list [''aa'', ''b'', ''aa''] (item e))) \<and>
    Reset [(''b'', 1), (''aa'', 2)] (foldl AddWeighted NewPerfect [''aa'', ''b'', ''aa'']) = NewPerfect"
  by (rule hotlist_counts)
    (auto simp: iteration_def AddWeighted_def AddNWeighted_def NewPerfect_def gint_id int64_def)

end
