(* ===== verification/Partition.thy ===== *)
theory Partition
  imports Prelude
begin

text \<open>
  Distributing a batch over workers.  \<^verbatim>\<open>analysis/pool.go\<close> (\<open>partitionEvents\<close>) and \<^verbatim>\<open>assembly/pool.go\<close> (\<open>partition\<close>)
  both append every element of a batch to the list of the worker that its hash selects.  The locale states what
  the choice of the worker has to satisfy; both pools interpret it.
\<close>

text \<open>\<open>perWorker[slot] = append(perWorker[slot], x)\<close>, with the index panic of Go.\<close>

definition append_at :: "'a list list \<Rightarrow> nat \<Rightarrow> 'a \<Rightarrow> 'a list list option" where
  "append_at ps i x = (if i < length ps then Some (ps[i := ps ! i @ [x]]) else None)"

fun scatter :: "('a \<Rightarrow> nat option) \<Rightarrow> 'a list \<Rightarrow> 'a list list \<Rightarrow> 'a list list option" where
  "scatter slot [] ps = Some ps"
| "scatter slot (x # xs) ps = do { i \<leftarrow> slot x; ps \<leftarrow> append_at ps i x; scatter slot xs ps }"

lemma scatter_length: "scatter slot xs ps = Some qs \<Longrightarrow> length qs = length ps"
  by (induction slot xs ps rule: scatter.induct) (fastforce simp: append_at_def Option.bind_eq_Some_conv split: if_splits)+

locale slotting =
  fixes slot :: "'a \<Rightarrow> nat option"
    and n :: nat
  assumes slot_ok: "\<exists>i. slot x = Some i \<and> i < n"
begin

definition slot_of :: "'a \<Rightarrow> nat" where
  "slot_of x = the (slot x)"

lemma slot_of_less: "slot_of x < n" and slot_slot_of: "slot x = Some (slot_of x)"
  using slot_ok [of x] by (auto simp: slot_of_def)

lemma scatter_total:
  "length ps = n \<Longrightarrow> scatter slot xs ps = Some (map (\<lambda>i. ps ! i @ filter (\<lambda>x. slot_of x = i) xs) [0..<n])"
proof (induction xs arbitrary: ps)
  case Nil
  then show ?case by (auto simp: list_eq_iff_nth_eq)
next
  case (Cons x xs)
  have "map (\<lambda>i. ps[slot_of x := ps ! slot_of x @ [x]] ! i @ filter (\<lambda>y. slot_of y = i) xs) [0..<n] =
      map (\<lambda>i. ps ! i @ filter (\<lambda>y. slot_of y = i) (x # xs)) [0..<n]"
    using Cons.prems slot_of_less [of x] by (intro map_cong) auto
  with Cons.IH [of "ps[slot_of x := ps ! slot_of x @ [x]]"] Cons.prems show ?case
    using slot_of_less [of x] by (simp add: slot_slot_of [of x] append_at_def)
qed

lemma scatter_empty: "scatter slot xs (replicate n []) = Some (map (\<lambda>i. filter (\<lambda>x. slot_of x = i) xs) [0..<n])"
  by (subst scatter_total) (auto intro!: map_cong)

lemma sum_parts: "(\<Sum>i\<leftarrow>[0..<n]. length (filter (\<lambda>x. slot_of x = i) xs)) = length xs"
proof (induction xs)
  case (Cons x xs)
  have "(\<Sum>i\<leftarrow>[0..<n]. length (filter (\<lambda>y. slot_of y = i) (x # xs))) =
      (\<Sum>i\<leftarrow>[0..<n]. (if slot_of x = i then 1 else 0) + length (filter (\<lambda>y. slot_of y = i) xs))"
    by (rule arg_cong [of _ _ sum_list]) auto
  also have "\<dots> = (\<Sum>i\<leftarrow>[0..<n]. if slot_of x = i then 1 else 0) + length xs"
    by (simp add: sum_list_addf Cons.IH)
  also have "(\<Sum>i\<leftarrow>[0..<n]. if slot_of x = i then 1 else (0::nat)) = 1"
    using slot_of_less [of x] by (simp add: interv_sum_list_conv_sum_set_nat)
  finally show ?case by simp
qed simp

lemma parts_mset: "mset (concat (map (\<lambda>i. filter (\<lambda>x. slot_of x = i) xs) [0..<n])) = mset xs"
proof (induction xs)
  case (Cons x xs)
  have eq: "concat (map (\<lambda>i. filter (\<lambda>y. slot_of y = i) (x # xs)) is) =
     concat (map (\<lambda>i. (if slot_of x = i then [x] else []) @ filter (\<lambda>y. slot_of y = i) xs) is)" for "is"
    by (rule arg_cong [of _ _ concat]) auto
  have "mset (concat (map (\<lambda>i. (if slot_of x = i then [x] else []) @ filter (\<lambda>y. slot_of y = i) xs) is)) =
     (if slot_of x \<in> set is then {#x#} else {#}) + mset (concat (map (\<lambda>i. filter (\<lambda>y. slot_of y = i) xs) is))"
    if "distinct is" for "is"
    using that by (induction "is") auto
  from this [of "[0..<n]"] slot_of_less [of x] show ?case unfolding eq by (simp add: Cons.IH)
qed (simp add: map_replicate_const)

end

end
