(* ===== verification/Flows.thy ===== *)
theory Flows
  imports Prelude
begin

unbundle bit_operations_syntax

text \<open>
  The endpoints and flows of the vendored \<^verbatim>\<open>gopacket/flows.go\<close> as far as the program uses them: flows as map keys, their
  reversal, and the hash that is the same for both directions.  Hashes are 64-bit words.
\<close>

section \<open>FNV-1a\<close>

definition fnvBasis :: "64 word" where
  "fnvBasis = 14695981039346656037"

definition fnvPrime :: "64 word" where
  "fnvPrime = 1099511628211"

fun fnvHash_loop :: "64 word \<Rightarrow> byte list \<Rightarrow> 64 word" where
  "fnvHash_loop h [] = h"
| "fnvHash_loop h (b # bs) = fnvHash_loop ((h XOR of_char b) * fnvPrime) bs"

definition fnvHash :: "byte list \<Rightarrow> 64 word" where
  "fnvHash s = fnvHash_loop fnvBasis s"

section \<open>Endpoints and flows\<close>

definition MaxEndpointSize :: nat where
  "MaxEndpointSize = 16"

text \<open>\<open>copy(e.raw[:], raw)\<close> into a zeroed array.\<close>

definition raw_array :: "byte list \<Rightarrow> byte list" where
  "raw_array bs = bs @ replicate (MaxEndpointSize - length bs) (CHR 0x00)"

record Endpoint =
  etyp :: int
  elen :: int
  eraw :: "byte list"

definition Endpoint_Raw :: "Endpoint \<Rightarrow> byte list option" where
  "Endpoint_Raw a = slice_to (elen a) (eraw a)"

definition NewEndpoint :: "int \<Rightarrow> byte list \<Rightarrow> Endpoint option" where
  "NewEndpoint typ raw =
     (if length raw > MaxEndpointSize then None
      else Some \<lparr>etyp = typ, elen = int (length raw), eraw = raw_array raw\<rparr>)"

definition Endpoint_FastHash :: "Endpoint \<Rightarrow> 64 word option" where
  "Endpoint_FastHash a =
     do { raw \<leftarrow> slice_to (elen a) (eraw a);
          let h = fnvHash raw; let h = h XOR word_of_int (etyp a);
          Some (h * fnvPrime) }"

record Flow =
  ftyp :: int
  slen :: int
  dlen :: int
  fsrc :: "byte list"
  fdst :: "byte list"

definition NewFlow :: "int \<Rightarrow> byte list \<Rightarrow> byte list \<Rightarrow> Flow option" where
  "NewFlow t src dst =
     (if length src > MaxEndpointSize \<or> length dst > MaxEndpointSize then None
      else Some \<lparr>ftyp = t, slen = int (length src), dlen = int (length dst), fsrc = raw_array src, fdst = raw_array dst\<rparr>)"

definition FlowFromEndpoints :: "Endpoint \<Rightarrow> Endpoint \<Rightarrow> Flow option" where
  "FlowFromEndpoints src dst =
     (if etyp src \<noteq> etyp dst then None
      else Some \<lparr>ftyp = etyp src, slen = elen src, dlen = elen dst, fsrc = eraw src, fdst = eraw dst\<rparr>)"

definition Flow_Endpoints :: "Flow \<Rightarrow> Endpoint \<times> Endpoint" where
  "Flow_Endpoints f = (\<lparr>etyp = ftyp f, elen = slen f, eraw = fsrc f\<rparr>, \<lparr>etyp = ftyp f, elen = dlen f, eraw = fdst f\<rparr>)"

definition Flow_Src :: "Flow \<Rightarrow> Endpoint" where
  "Flow_Src f = fst (Flow_Endpoints f)"

definition Flow_Dst :: "Flow \<Rightarrow> Endpoint" where
  "Flow_Dst f = snd (Flow_Endpoints f)"

definition Flow_Reverse :: "Flow \<Rightarrow> Flow" where
  "Flow_Reverse f = \<lparr>ftyp = ftyp f, slen = dlen f, dlen = slen f, fsrc = fdst f, fdst = fsrc f\<rparr>"

definition Flow_FastHash :: "Flow \<Rightarrow> 64 word option" where
  "Flow_FastHash f =
     do { s \<leftarrow> slice_to (slen f) (fsrc f);
          d \<leftarrow> slice_to (dlen f) (fdst f);
          let h = fnvHash s + fnvHash d; let h = h XOR word_of_int (ftyp f);
          Some (h * fnvPrime) }"

section \<open>Facts\<close>

text \<open>What \<open>NewFlow\<close> establishes.\<close>

definition flow_ok :: "Flow \<Rightarrow> bool" where
  "flow_ok f \<longleftrightarrow> 0 \<le> slen f \<and> slen f \<le> 16 \<and> 0 \<le> dlen f \<and> dlen f \<le> 16 \<and> length (fsrc f) = 16 \<and> length (fdst f) = 16"

lemma NewFlow_ok: "NewFlow t src dst = Some f \<Longrightarrow> flow_ok f"
  by (auto simp: NewFlow_def flow_ok_def raw_array_def MaxEndpointSize_def split: if_splits)

lemma flow_ok_Reverse [simp]: "flow_ok (Flow_Reverse f) = flow_ok f"
  by (auto simp: flow_ok_def Flow_Reverse_def)

lemma Flow_Reverse_Reverse [simp]: "Flow_Reverse (Flow_Reverse f) = f"
  by (simp add: Flow_Reverse_def)

lemma FastHash_total: "flow_ok f \<Longrightarrow> \<exists>h. Flow_FastHash f = Some h"
  by (simp add: Flow_FastHash_def flow_ok_def)

lemma FastHash_Reverse: "flow_ok f \<Longrightarrow> Flow_FastHash (Flow_Reverse f) = Flow_FastHash f"
  by (simp add: Flow_FastHash_def Flow_Reverse_def flow_ok_def add.commute)

lemma NewFlow_Reverse: "NewFlow t src dst = Some f \<Longrightarrow> NewFlow t dst src = Some (Flow_Reverse f)"
  by (auto simp: NewFlow_def Flow_Reverse_def split: if_splits)

lemma Flow_endpoints_roundtrip:
  "FlowFromEndpoints (Flow_Src f) (Flow_Dst f) = Some f"
  by (simp add: FlowFromEndpoints_def Flow_Src_def Flow_Dst_def Flow_Endpoints_def)

end
