(* ===== verification/Analysis.thy ===== *)
theory Analysis
  imports Hotlist Partition Flows ConsumerModel "HOL-Library.Sublist"
begin

text \<open>
  The analysis pool of \<^verbatim>\<open>analysis/\<close>: the event filter (\<^verbatim>\<open>filter.go\<close>), the workers that count keys (\<^verbatim>\<open>worker.go\<close>), the pool
  that distributes events over them (\<^verbatim>\<open>pool.go\<close>) and the report (\<^verbatim>\<open>report.go\<close>).

  A worker is a goroutine that receives from channels; here it is a record with the contents of its input queue,
  and each reaction of its \<open>select\<close> loop is one step, so that a sequence of steps is an interleaving.  The regular
  expressions are a parameter: \<open>compile\<close> is \<open>regexp.Compile\<close> and \<open>matches\<close> is \<open>MatchString\<close>.
\<close>

section \<open>Workers\<close>

record keyInfo =
  name :: string
  ksize :: int

definition Weight :: "keyInfo \<Rightarrow> int" where
  "Weight ki = ksize ki"

datatype worker_error = errQueueFull

record worker =
  hl :: "keyInfo perfectHotlist"
  kisChan :: "keyInfo list list"
  kisClosed :: bool

definition kisChanCap :: nat where
  "kisChanCap = 1024"

definition newWorker :: worker where
  "newWorker = \<lparr>hl = NewPerfect, kisChan = [], kisClosed = False\<rparr>"

text \<open>\<open>kis[:n]\<close> on a slice whose backing array was zeroed by \<open>make\<close>: reslicing beyond the length exposes zero values.\<close>

definition zeroKey :: keyInfo where
  "zeroKey = \<lparr>name = [], ksize = 0\<rparr>"

definition reslice :: "nat \<Rightarrow> keyInfo list \<Rightarrow> keyInfo list" where
  "reslice n kis = (if n \<le> length kis then take n kis else kis @ replicate (n - length kis) zeroKey)"

fun collect_kis :: "nat \<Rightarrow> keyInfo list \<Rightarrow> Event list \<Rightarrow> keyInfo list" where
  "collect_kis i kis [] = kis"
| "collect_kis i kis (evt # evts) =
     (if EType evt = EventGetHit
      then collect_kis (Suc i) ((reslice (Suc i) kis)[i := \<lparr>name = Key evt, ksize = Size evt\<rparr>]) evts
      else collect_kis (Suc i) kis evts)"

text \<open>Sending on a closed channel panics.\<close>

definition worker_handleEvents :: "worker \<Rightarrow> Event list \<Rightarrow> (worker_error option \<times> worker) option" where
  "worker_handleEvents w evts =
     (let kis = collect_kis 0 [] evts in
      if kisClosed w then None
      else if length (kisChan w) < kisChanCap then Some (None, w\<lparr>kisChan := kisChan w @ [kis]\<rparr>)
      else Some (Some errQueueFull, w))"

definition worker_top :: "(keyInfo \<times> int) list \<Rightarrow> worker \<Rightarrow> int \<Rightarrow> keyInfo itemCount list option" where
  "worker_top it w k = Top Weight it (hl w) k"

definition worker_reset :: "(keyInfo \<times> int) list \<Rightarrow> worker \<Rightarrow> worker" where
  "worker_reset it w = w\<lparr>hl := Reset it (hl w)\<rparr>"

definition worker_close :: "worker \<Rightarrow> worker" where
  "worker_close w = w\<lparr>kisClosed := True\<rparr>"

text \<open>The branch of the loop that receives a batch; \<^const>\<open>None\<close> when there is nothing to receive.\<close>

definition worker_receive :: "worker \<Rightarrow> worker option" where
  "worker_receive w =
     (case kisChan w of
        [] \<Rightarrow> None
      | kis # rest \<Rightarrow> Some (w\<lparr>kisChan := rest, hl := foldl AddWeighted (hl w) kis\<rparr>))"

section \<open>The filter\<close>

definition filterEvents :: "('r \<Rightarrow> string \<Rightarrow> bool) \<Rightarrow> 'r option \<Rightarrow> Event list \<Rightarrow> Event list" where
  "filterEvents matches re rs =
     (case re of None \<Rightarrow> rs | Some r \<Rightarrow> filter (\<lambda>e. matches r (Key e)) rs)"

text \<open>The error and the regular expression in force afterwards.\<close>

definition setPattern :: "(string \<Rightarrow> string + 'r) \<Rightarrow> 'r option \<Rightarrow> string \<Rightarrow> string option \<times> 'r option" where
  "setPattern compile f pattern =
     (if pattern \<noteq> [] then (case compile pattern of Inl err \<Rightarrow> (Some err, f) | Inr r \<Rightarrow> (None, Some r))
      else (None, None))"

section \<open>The pool\<close>

record Stats =
  EventsHandled :: int
  EventsDropped :: int

record 'r Pool =
  reportSize :: int
  workers :: "worker list"
  filt :: "'r option"
  stats :: Stats

definition Pool_New :: "nat \<Rightarrow> int \<Rightarrow> 'r Pool" where
  "Pool_New numWorkers rs =
     \<lparr>reportSize = rs, workers = replicate numWorkers newWorker, filt = None,
      stats = \<lparr>EventsHandled = 0, EventsDropped = 0\<rparr>\<rparr>"

definition addHandled :: "Stats \<Rightarrow> nat \<Rightarrow> Stats" where
  "addHandled s n = s\<lparr>EventsHandled := gint (EventsHandled s + int n)\<rparr>"

definition addDropped :: "Stats \<Rightarrow> nat \<Rightarrow> Stats" where
  "addDropped s n = s\<lparr>EventsDropped := gint (EventsDropped s + int n)\<rparr>"

text \<open>\<open>hash/fnv\<close> New64a, Write and Sum64; the remainder panics without workers.\<close>

definition keySlot :: "nat \<Rightarrow> string \<Rightarrow> nat option" where
  "keySlot n key = (if n = 0 then None else Some (nat (uint (fnvHash key) mod int n)))"

definition partitionEvents :: "nat \<Rightarrow> Event list \<Rightarrow> Event list list option" where
  "partitionEvents n evts = scatter (\<lambda>e. keySlot n (Key e)) evts (replicate n [])"

fun HandleEvents_loop :: "Event list list \<Rightarrow> worker list \<Rightarrow> Stats \<Rightarrow> (worker list \<times> Stats) option" where
  "HandleEvents_loop [] ws s = Some (ws, s)"
| "HandleEvents_loop (events # rest) [] s = None"
| "HandleEvents_loop (events # rest) (w # ws) s =
     (if length events > 0
      then do { (err, w) \<leftarrow> worker_handleEvents w events;
                let s = (if err = Some errQueueFull then addDropped s (length events) else addHandled s (length events));
                (ws, s) \<leftarrow> HandleEvents_loop rest ws s;
                Some (w # ws, s) }
      else do { (ws, s) \<leftarrow> HandleEvents_loop rest ws s; Some (w # ws, s) })"

definition HandleEvents :: "('r \<Rightarrow> string \<Rightarrow> bool) \<Rightarrow> 'r Pool \<Rightarrow> Event list \<Rightarrow> 'r Pool option" where
  "HandleEvents matches p evts =
     do { perWorkerEvents \<leftarrow> partitionEvents (length (workers p)) (filterEvents matches (filt p) evts);
          (ws, s) \<leftarrow> HandleEvents_loop perWorkerEvents (workers p) (stats p);
          Some (p\<lparr>workers := ws, stats := s\<rparr>) }"

text \<open>The iteration orders of the maps of the workers, one for each worker.\<close>

definition Pool_Reset :: "(keyInfo \<times> int) list list \<Rightarrow> 'r Pool \<Rightarrow> 'r Pool" where
  "Pool_Reset its p = p\<lparr>workers := map2 worker_reset its (workers p)\<rparr>"

definition SetFilterPattern ::
  "(string \<Rightarrow> string + 'r) \<Rightarrow> (keyInfo \<times> int) list list \<Rightarrow> 'r Pool \<Rightarrow> string \<Rightarrow> string option \<times> 'r Pool" where
  "SetFilterPattern compile its p pattern =
     (let (err, f) = setPattern compile (filt p) pattern; p = p\<lparr>filt := f\<rparr> in
      if err \<noteq> None then (err, p) else (None, Pool_Reset its p))"

definition Pool_Stats :: "'r Pool \<Rightarrow> Stats" where
  "Pool_Stats p = stats p"

section \<open>Reports\<close>

record KeyReport =
  Name :: string
  RSize :: int
  RequestsEstimate :: int
  TrafficEstimate :: int

definition keyReport :: "keyInfo itemCount \<Rightarrow> KeyReport" where
  "keyReport e =
     (let ki = itemCount_Item e in
      \<lparr>Name = name ki, RSize = ksize ki, RequestsEstimate = itemCount_Count e,
       TrafficEstimate = gint (itemCount_Count e * ksize ki)\<rparr>)"

text \<open>\<open>Report.Less\<close> and \<open>sort.Sort\<close>.\<close>

definition Report_Less :: "KeyReport \<Rightarrow> KeyReport \<Rightarrow> bool" where
  "Report_Less a b \<longleftrightarrow> TrafficEstimate b < TrafficEstimate a"

definition sort_Report :: "KeyReport list \<Rightarrow> KeyReport list" where
  "sort_Report ks = sort_key (\<lambda>k. - TrafficEstimate k) ks"

fun Report_loop ::
  "bool \<Rightarrow> int \<Rightarrow> (keyInfo \<times> int) list list \<Rightarrow> worker list \<Rightarrow> keyInfo itemCount list \<Rightarrow>
   (keyInfo itemCount list \<times> worker list) option" where
  "Report_loop shouldReset k (it # its) (w # ws) allEntries =
     do { workerEntries \<leftarrow> worker_top it w k;
          let w = (if shouldReset then worker_reset it w else w);
          (allEntries, ws) \<leftarrow> Report_loop shouldReset k its ws (allEntries @ workerEntries);
          Some (allEntries, w # ws) }"
| "Report_loop shouldReset k its ws allEntries = Some (allEntries, ws)"

text \<open>The slice of key reports is made with capacity at most \<open>reportSize\<close>, but every entry is appended.\<close>

definition Report :: "(keyInfo \<times> int) list list \<Rightarrow> 'r Pool \<Rightarrow> bool \<Rightarrow> (KeyReport list \<times> 'r Pool) option" where
  "Report its p shouldReset =
     do { (allEntries, ws) \<leftarrow> Report_loop shouldReset (reportSize p) its (workers p) [];
          Some (sort_Report (map keyReport allEntries), p\<lparr>workers := ws\<rparr>) }"

section \<open>Batches of hits\<close>

definition key_of :: "Event \<Rightarrow> keyInfo" where
  "key_of e = \<lparr>name = Key e, ksize = Size e\<rparr>"

definition is_hit :: "Event \<Rightarrow> bool" where
  "is_hit e \<longleftrightarrow> EType e = EventGetHit"

lemma collect_kis_hits:
  assumes "list_all is_hit evts" and "length kis = i"
  shows "collect_kis i kis evts = kis @ map key_of evts"
  using assms
proof (induction evts arbitrary: i kis)
  case (Cons e evts)
  have "(reslice (Suc i) kis)[i := key_of e] = kis @ [key_of e]"
    using Cons.prems(2) by (simp add: reslice_def list_update_append)
  with Cons.IH [of "kis @ [key_of e]" "Suc i"] Cons.prems show ?case by (simp add: is_hit_def key_of_def)
qed simp

section \<open>Interleavings\<close>

text \<open>What can happen to a pool: a batch of events arrives, or a worker takes the next batch from its queue.\<close>

datatype pool_action = Handle "Event list" | Receive nat

fun pool_step :: "('r \<Rightarrow> string \<Rightarrow> bool) \<Rightarrow> 'r Pool \<Rightarrow> pool_action \<Rightarrow> 'r Pool option" where
  "pool_step matches p (Handle evts) = HandleEvents matches p evts"
| "pool_step matches p (Receive i) =
     (if i < length (workers p)
      then do { w \<leftarrow> worker_receive (workers p ! i); Some (p\<lparr>workers := (workers p)[i := w]\<rparr>) }
      else None)"

fun pool_run :: "('r \<Rightarrow> string \<Rightarrow> bool) \<Rightarrow> 'r Pool \<Rightarrow> pool_action list \<Rightarrow> 'r Pool option" where
  "pool_run matches p [] = Some p"
| "pool_run matches p (a # as) = do { p \<leftarrow> pool_step matches p a; pool_run matches p as }"

fun events_in :: "pool_action list \<Rightarrow> Event list" where
  "events_in [] = []"
| "events_in (Handle evts # as) = evts @ events_in as"
| "events_in (Receive i # as) = events_in as"

interpretation keyed: slotting "\<lambda>e. keySlot (Suc m) (Key e)" "Suc m" for m
  by unfold_locales (auto simp: keySlot_def nat_less_iff)

text \<open>The events of a worker's share.\<close>

definition share :: "nat \<Rightarrow> nat \<Rightarrow> Event list \<Rightarrow> Event list" where
  "share n i evts = filter (\<lambda>e. keySlot n (Key e) = Some i) evts"

lemma share_slot_of: "share (Suc m) i evts = filter (\<lambda>e. keyed.slot_of m e = i) evts"
proof -
  have "keyed.slot_of m e = i \<longleftrightarrow> keySlot (Suc m) (Key e) = Some i" for e :: Event
    using keyed.slot_slot_of [of m e] by simp
  then show ?thesis by (simp add: share_def)
qed

lemma partitionEvents_share:
  assumes "0 < n"
  shows "partitionEvents n evts = Some (map (\<lambda>i. share n i evts) [0..<n])"
proof -
  obtain m where n: "n = Suc m" using assms by (cases n) auto
  show ?thesis using keyed.scatter_empty [of m evts]
    unfolding partitionEvents_def n share_slot_of by (simp del: upt_Suc replicate_Suc)
qed

lemma share_append [simp]: "share n i (xs @ ys) = share n i xs @ share n i ys"
  by (simp add: share_def)

lemma share_hits: "list_all is_hit evts \<Longrightarrow> list_all is_hit (share n i evts)"
  by (auto simp: share_def list_all_iff)

lemma sum_share:
  assumes "0 < n"
  shows "(\<Sum>i<n. length (share n i evts)) = length evts"
proof -
  obtain m where n: "n = Suc m" using assms by (cases n) auto
  show ?thesis using keyed.sum_parts [of m evts]
    unfolding n share_slot_of by (simp add: interv_sum_list_conv_sum_set_nat atLeast0LessThan del: upt_Suc sum.lessThan_Suc)
qed

text \<open>One worker's reaction to its part of a batch.\<close>

definition takes :: "worker \<Rightarrow> Event list \<Rightarrow> bool \<Rightarrow> worker \<Rightarrow> bool" where
  "takes w part ok w' \<longleftrightarrow>
     (if part = [] then ok \<and> w' = w
      else if ok then length (kisChan w) < kisChanCap \<and> w' = w\<lparr>kisChan := kisChan w @ [map key_of part]\<rparr>
      else kisChanCap \<le> length (kisChan w) \<and> w' = w)"

definition weigh :: "bool \<Rightarrow> bool list \<Rightarrow> Event list list \<Rightarrow> int" where
  "weigh b oks parts = (\<Sum>(ok, part)\<leftarrow>zip oks parts. if ok = b then int (length part) else 0)"

lemma weigh_simps [simp]:
  "weigh b [] parts = 0"
  "weigh b (ok # oks) (part # parts) = (if ok = b then int (length part) else 0) + weigh b oks parts"
  by (simp_all add: weigh_def)

lemma HandleEvents_loop_takes:
  assumes "length parts = length ws" and "\<forall>w\<in>set ws. \<not> kisClosed w" and "\<forall>part\<in>set parts. list_all is_hit part"
    and "int64 (EventsHandled s)" and "int64 (EventsDropped s)"
  shows "\<exists>ws' s' oks. HandleEvents_loop parts ws s = Some (ws', s') \<and> length ws' = length ws \<and> length oks = length ws \<and>
    (\<forall>i<length ws. takes (ws ! i) (parts ! i) (oks ! i) (ws' ! i)) \<and>
    EventsHandled s' = gint (EventsHandled s + weigh True oks parts) \<and>
    EventsDropped s' = gint (EventsDropped s + weigh False oks parts)"
  using assms
proof (induction parts arbitrary: ws s)
  case Nil
  then show ?case by (simp add: gint_id)
next
  case (Cons events rest)
  then obtain w ws0 where ws: "ws = w # ws0" by (cases ws) auto
  define ok where "ok = (events = [] \<or> length (kisChan w) < kisChanCap)"
  define w1 where "w1 = (if events = [] \<or> \<not> ok then w else w\<lparr>kisChan := kisChan w @ [map key_of events]\<rparr>)"
  define s1 where "s1 = (if events = [] then s else if ok then addHandled s (length events) else addDropped s (length events))"
  have kis: "collect_kis 0 [] events = map key_of events"
    using collect_kis_hits [of events "[]" 0] Cons.prems(3) by simp
  have t: "takes w events ok w1" by (simp add: takes_def ok_def w1_def not_less)
  have eq: "HandleEvents_loop (events # rest) (w # ws0) s =
      do { (ws, s) \<leftarrow> HandleEvents_loop rest ws0 s1; Some (w1 # ws, s) }"
    using Cons.prems(1-3) ws kis by (auto simp: worker_handleEvents_def s1_def w1_def ok_def)
  have s1: "EventsHandled s1 = gint (EventsHandled s + (if ok then int (length events) else 0))"
    "EventsDropped s1 = gint (EventsDropped s + (if ok then 0 else int (length events)))"
    using Cons.prems(4,5) by (auto simp: s1_def ok_def addHandled_def addDropped_def gint_id)
  have "int64 (EventsHandled s1)" "int64 (EventsDropped s1)" by (simp_all add: s1 int64_gint)
  with Cons.IH [of ws0 s1] Cons.prems(1-3) ws
  obtain ws' s' oks where r: "HandleEvents_loop rest ws0 s1 = Some (ws', s')" "length ws' = length ws0" "length oks = length ws0"
    "\<forall>i<length ws0. takes (ws0 ! i) (rest ! i) (oks ! i) (ws' ! i)"
    "EventsHandled s' = gint (EventsHandled s1 + weigh True oks rest)"
    "EventsDropped s' = gint (EventsDropped s1 + weigh False oks rest)" by auto
  show ?case
    unfolding ws eq using r t s1
    by (intro exI [of _ "w1 # ws'"] exI [of _ s'] exI [of _ "ok # oks"]) (auto simp: nth_Cons add.assoc split: nat.splits)
qed

lemma weigh_sum:
  assumes "length oks = n" and "length parts = n"
  shows "weigh b oks parts = (\<Sum>i<n. if oks ! i = b then int (length (parts ! i)) else 0)"
  using assms by (simp add: weigh_def sum_list_sum_nth atLeast0LessThan)

section \<open>The account of a pool\<close>

text \<open>
  The events \<open>evs\<close> that passed the filter so far, and for every worker the part \<open>acc\<close> of its share that it
  accepted: what it has counted, followed by what is waiting in its queue.  The statistics add up.
\<close>

definition ledger :: "worker \<Rightarrow> Event list \<Rightarrow> bool" where
  "ledger w acc \<longleftrightarrow> \<not> kisClosed w \<and>
     (\<exists>counted. hl w = foldl AddWeighted NewPerfect counted \<and> counted @ concat (kisChan w) = map key_of acc)"

definition account :: "nat \<Rightarrow> Event list \<Rightarrow> Event list list \<Rightarrow> 'r Pool \<Rightarrow> bool" where
  "account n evs accs p \<longleftrightarrow> length (workers p) = n \<and> length accs = n \<and>
     (\<forall>i<n. subseq (accs ! i) (share n i evs) \<and> ledger (workers p ! i) (accs ! i)) \<and>
     EventsHandled (stats p) = gint (\<Sum>i<n. int (length (accs ! i))) \<and>
     EventsDropped (stats p) = gint (int (length evs) - (\<Sum>i<n. int (length (accs ! i))))"

lemma ledger_receive: "\<lbrakk> ledger w acc; worker_receive w = Some w' \<rbrakk> \<Longrightarrow> ledger w' acc"
proof -
  assume l: "ledger w acc" and r: "worker_receive w = Some w'"
  then obtain kis rest counted where k: "kisChan w = kis # rest" "w' = w\<lparr>kisChan := rest, hl := foldl AddWeighted (hl w) kis\<rparr>"
    "hl w = foldl AddWeighted NewPerfect counted" "counted @ kis @ concat rest = map key_of acc" "\<not> kisClosed w"
    by (auto simp: worker_receive_def ledger_def split: list.splits)
  then have "hl w' = foldl AddWeighted NewPerfect (counted @ kis)" "(counted @ kis) @ concat (kisChan w') = map key_of acc"
    by simp_all
  with k show ?thesis unfolding ledger_def by (metis worker.select_convs(3) worker.update_convs(1,2) worker.surjective)
qed

lemma ledger_takes: "\<lbrakk> ledger w acc; takes w part ok w' \<rbrakk> \<Longrightarrow> ledger w' (acc @ (if ok then part else []))"
  by (fastforce simp: ledger_def takes_def split: if_splits)

lemma account_HandleEvents:
  assumes "account n evs accs p" and "0 < n" and "list_all is_hit (filterEvents matches (filt p) evts)"
  shows "\<exists>p' accs'. HandleEvents matches p evts = Some p' \<and> account n (evs @ filterEvents matches (filt p) evts) accs' p' \<and>
    filt p' = filt p \<and> reportSize p' = reportSize p"
proof -
  define fe where "fe = filterEvents matches (filt p) evts"
  define parts where "parts = map (\<lambda>i. share n i fe) [0..<n]"
  have a: "length (workers p) = n" "length accs = n"
    "\<And>i. i < n \<Longrightarrow> subseq (accs ! i) (share n i evs) \<and> ledger (workers p ! i) (accs ! i)"
    "EventsHandled (stats p) = gint (\<Sum>i<n. int (length (accs ! i)))"
    "EventsDropped (stats p) = gint (int (length evs) - (\<Sum>i<n. int (length (accs ! i))))"
    using assms(1) by (auto simp: account_def)
  have "\<forall>w\<in>set (workers p). \<not> kisClosed w" using a(1,3) by (auto simp: ledger_def in_set_conv_nth)
  moreover have "\<forall>part\<in>set parts. list_all is_hit part"
    using assms(3) share_hits by (auto simp: parts_def fe_def)
  ultimately obtain ws' s' oks where r: "HandleEvents_loop parts (workers p) (stats p) = Some (ws', s')" "length ws' = n"
    "length oks = n" "\<forall>i<n. takes (workers p ! i) (parts ! i) (oks ! i) (ws' ! i)"
    "EventsHandled s' = gint (EventsHandled (stats p) + weigh True oks parts)"
    "EventsDropped s' = gint (EventsDropped (stats p) + weigh False oks parts)"
    using HandleEvents_loop_takes [of parts "workers p" "stats p"] a(1,4,5) by (auto simp: parts_def int64_gint)
  have lp: "length parts = n" by (simp add: parts_def)
  define accs' where "accs' = map (\<lambda>i. accs ! i @ (if oks ! i then parts ! i else [])) [0..<n]"
  have len: "int (length (accs' ! i)) = int (length (accs ! i)) + (if oks ! i = True then int (length (parts ! i)) else 0)" if "i < n" for i
    using that by (simp add: accs'_def)
  have handled: "(\<Sum>i<n. int (length (accs' ! i))) = (\<Sum>i<n. int (length (accs ! i))) + weigh True oks parts"
    using len by (simp add: weigh_sum [OF r(3) lp] sum.distrib)
  have "weigh True oks parts + weigh False oks parts = (\<Sum>i<n. int (length (parts ! i)))"
    unfolding weigh_sum [OF r(3) lp] sum.distrib [symmetric] by (rule sum.cong) auto
  also have "\<dots> = int (length fe)"
    using sum_share [OF assms(2), of fe] by (simp add: parts_def of_nat_sum [symmetric] del: of_nat_sum)
  finally have dropped: "weigh False oks parts = int (length fe) - weigh True oks parts" by simp
  have h': "EventsHandled s' = gint (\<Sum>i<n. int (length (accs' ! i)))" using r(5) a(4) handled by simp
  have "EventsDropped s' = gint (int (length evs) - (\<Sum>i<n. int (length (accs ! i))) + weigh False oks parts)"
    using r(6) a(5) by simp
  also have "int (length evs) - (\<Sum>i<n. int (length (accs ! i))) + weigh False oks parts =
      int (length (evs @ fe)) - (\<Sum>i<n. int (length (accs' ! i)))" using dropped handled by simp
  finally have d': "EventsDropped s' = gint (int (length (evs @ fe)) - (\<Sum>i<n. int (length (accs' ! i))))" .
  have "account n (evs @ fe) accs' (p\<lparr>workers := ws', stats := s'\<rparr>)"
    unfolding account_def
  proof (intro conjI allI impI)
    fix i assume i: "i < n"
    show "subseq (accs' ! i) (share n i (evs @ fe))"
      using a(3) [OF i] i by (auto simp: accs'_def parts_def intro: list_emb_append_mono subseq_rev_drop_many)
    show "ledger (workers (p\<lparr>workers := ws', stats := s'\<rparr>) ! i) (accs' ! i)"
      using ledger_takes [OF conjunct2 [OF a(3) [OF i]]] r(4) i by (auto simp: accs'_def)
  qed (use r(2) h' d' in \<open>simp_all add: accs'_def del: of_nat_sum\<close>)
  moreover have "HandleEvents matches p evts = Some (p\<lparr>workers := ws', stats := s'\<rparr>)"
    using r(1) partitionEvents_share [OF assms(2), of fe] by (simp add: HandleEvents_def a(1) fe_def [symmetric] parts_def)
  ultimately show ?thesis by (auto simp: fe_def)
qed

lemma account_step:
  assumes "account n evs accs p" and "0 < n" and "pool_step matches p a = Some p'"
    and "list_all is_hit (filterEvents matches (filt p) (events_in [a]))"
  shows "(\<exists>accs'. account n (evs @ filterEvents matches (filt p) (events_in [a])) accs' p') \<and> filt p' = filt p \<and>
    reportSize p' = reportSize p"
proof (cases a)
  case (Handle evts)
  with account_HandleEvents [OF assms(1,2), of matches evts] assms(3,4) show ?thesis by auto
next
  case (Receive i)
  then obtain w where w: "i < length (workers p)" "worker_receive (workers p ! i) = Some w"
    "p' = p\<lparr>workers := (workers p)[i := w]\<rparr>" using assms(3) by (auto simp: bind_eq_Some_conv split: if_splits)
  have "filterEvents matches (filt p) [] = []" by (simp add: filterEvents_def split: option.splits)
  moreover have "account n evs accs p'"
    using assms(1) w ledger_receive [OF _ w(2)] by (auto simp: account_def nth_list_update)
  ultimately show ?thesis using Receive w(3) by auto
qed

lemma filterEvents_append: "filterEvents matches f (xs @ ys) = filterEvents matches f xs @ filterEvents matches f ys"
  by (simp add: filterEvents_def split: option.splits)

lemma account_run:
  "\<lbrakk> account n evs accs p; 0 < n; pool_run matches p as = Some p'; list_all is_hit (filterEvents matches (filt p) (events_in as)) \<rbrakk>
   \<Longrightarrow> (\<exists>accs'. account n (evs @ filterEvents matches (filt p) (events_in as)) accs' p') \<and> reportSize p' = reportSize p"
proof (induction as arbitrary: p evs accs)
  case Nil
  then show ?case by (auto simp: filterEvents_def split: option.splits)
next
  case (Cons a as)
  have e: "events_in (a # as) = events_in [a] @ events_in as" by (cases a) simp_all
  obtain p1 where p1: "pool_step matches p a = Some p1" "pool_run matches p1 as = Some p'"
    using Cons.prems(3) by (auto simp: bind_eq_Some_conv)
  have h: "list_all is_hit (filterEvents matches (filt p) (events_in [a]))"
    "list_all is_hit (filterEvents matches (filt p) (events_in as))"
    using Cons.prems(4) unfolding e filterEvents_append by auto
  obtain accs1 where "account n (evs @ filterEvents matches (filt p) (events_in [a])) accs1 p1" "filt p1 = filt p"
    "reportSize p1 = reportSize p" using account_step [OF Cons.prems(1,2) p1(1) h(1)] by blast
  with Cons.IH [OF this(1) Cons.prems(2) p1(2)] h(2) show ?case unfolding e filterEvents_append by simp
qed

definition pool_with :: "nat \<Rightarrow> int \<Rightarrow> 'r option \<Rightarrow> 'r Pool" where
  "pool_with n rs f = (Pool_New n rs)\<lparr>filt := f\<rparr>"

lemma account_New: "account n [] (replicate n []) (pool_with n rs f)"
  by (auto simp: account_def pool_with_def Pool_New_def ledger_def newWorker_def gint_id int64_def)

lemma account_no_drops:
  assumes "account n evs accs p" and "0 < n" and "EventsDropped (stats p) = 0" and "int64 (int (length evs))" and "i < n"
  shows "accs ! i = share n i evs"
proof -
  have sub: "subseq (accs ! j) (share n j evs)" if "j < n" for j using assms(1) that by (simp add: account_def)
  then have le: "length (accs ! j) \<le> length (share n j evs)" if "j < n" for j
    using that by (metis list_emb_length)
  then have "(\<Sum>j<n. length (accs ! j)) \<le> length evs"
    using sum_mono [of "{..<n}" "\<lambda>j. length (accs ! j)" "\<lambda>j. length (share n j evs)"] by (simp add: sum_share [OF assms(2)])
  then have "gint (int (length evs) - int (\<Sum>j<n. length (accs ! j))) = int (length evs) - int (\<Sum>j<n. length (accs ! j))"
    using assms(4) by (intro gint_id) (simp add: int64_def del: of_nat_sum)
  then have eq: "(\<Sum>j<n. length (accs ! j)) = (\<Sum>j<n. length (share n j evs))"
    using assms(1,3) by (simp add: account_def sum_share [OF assms(2)] of_nat_sum [symmetric] del: of_nat_sum)
  have "length (accs ! i) = length (share n i evs)"
  proof (rule ccontr)
    assume "length (accs ! i) \<noteq> length (share n i evs)"
    then have "length (accs ! i) < length (share n i evs)" using le [OF assms(5)] by simp
    then have "(\<Sum>j<n. length (accs ! j)) < (\<Sum>j<n. length (share n j evs))"
      using le assms(5) by (intro sum_strict_mono_ex1) auto
    with eq show False by simp
  qed
  with sub [OF assms(5)] show ?thesis by (metis subseq_same_length)
qed

lemma account_total:
  assumes "account n evs accs p" and "0 < n" and "int64 (int (length evs))"
  shows "EventsHandled (stats p) + EventsDropped (stats p) = int (length evs)"
proof -
  have "length (accs ! j) \<le> length (share n j evs)" if "j < n" for j
    using that assms(1) by (metis account_def list_emb_length)
  then have le: "(\<Sum>j<n. length (accs ! j)) \<le> length evs"
    using sum_mono [of "{..<n}" "\<lambda>j. length (accs ! j)" "\<lambda>j. length (share n j evs)"] by (simp add: sum_share [OF assms(2)])
  have "gint (int (length evs) - int (\<Sum>j<n. length (accs ! j))) = int (length evs) - int (\<Sum>j<n. length (accs ! j))"
    using assms(3) le by (intro gint_id) (simp add: int64_def del: of_nat_sum)
  moreover have "gint (int (\<Sum>j<n. length (accs ! j))) = int (\<Sum>j<n. length (accs ! j))"
    using assms(3) le by (intro gint_id) (simp add: int64_def del: of_nat_sum)
  ultimately show ?thesis using assms(1) by (simp add: account_def of_nat_sum [symmetric] del: of_nat_sum)
qed

lemma step_filt: "pool_step matches p a = Some p' \<Longrightarrow> filt p' = filt p"
  by (cases a) (auto simp: HandleEvents_def bind_eq_Some_conv split: if_splits)

lemma run_filt: "pool_run matches p as = Some p' \<Longrightarrow> filt p' = filt p"
  by (induction as arbitrary: p) (auto simp: bind_eq_Some_conv dest: step_filt)

lemma HandleEvents_total:
  "\<lbrakk> account n evs accs p; 0 < n; list_all is_hit (filterEvents matches (filt p) evts) \<rbrakk> \<Longrightarrow> \<exists>p'. HandleEvents matches p evts = Some p'"
  using account_HandleEvents by blast

section \<open>What a report shows\<close>

definition its_ok :: "(keyInfo \<times> int) list list \<Rightarrow> worker list \<Rightarrow> bool" where
  "its_ok its ws \<longleftrightarrow> length its = length ws \<and> (\<forall>i<length ws. iteration (its ! i) (hl (ws ! i)))"

text \<open>The entries a worker contributes to a report.\<close>

definition top_entries :: "int \<Rightarrow> (keyInfo \<times> int) list \<Rightarrow> worker \<Rightarrow> keyInfo itemCount list" where
  "top_entries k it w = the (worker_top it w k)"

lemma Report_loop_eq:
  assumes "0 \<le> k" and "length its = length ws"
  shows "Report_loop False k its ws acc = Some (acc @ concat (map2 (top_entries k) its ws), ws)"
  using assms(2)
proof (induction its arbitrary: ws acc)
  case (Cons it its)
  then obtain w ws' where ws: "ws = w # ws'" by (cases ws) auto
  have "worker_top it w k = Some (top_entries k it w)"
    using assms(1) by (simp add: top_entries_def worker_top_def Top_def orderedTop_eq)
  with Cons ws show ?case by simp
qed simp

text \<open>The weight of a key among the events, and the report line it should have.\<close>

definition traffic :: "keyInfo list \<Rightarrow> keyInfo \<Rightarrow> int" where
  "traffic kis x = gint (int (count_list kis x) * ksize x)"

definition exact_line :: "keyInfo list \<Rightarrow> keyInfo \<Rightarrow> KeyReport" where
  "exact_line kis x = \<lparr>Name = name x, RSize = ksize x, RequestsEstimate = int (count_list kis x), TrafficEstimate = traffic kis x\<rparr>"

lemma hl_foldl:
  assumes "int64 (int (length xs))"
  shows "foldl AddWeighted NewPerfect xs x = (if x \<in> set xs then Some (int (count_list xs x)) else None)"
proof -
  have dom: "(foldl AddWeighted m ys x = None) = (m x = None \<and> x \<notin> set ys)" for m ys
    by (induction ys arbitrary: m) (auto simp: AddWeighted_def AddNWeighted_def)
  have "int64 (int (count_list xs x))" using assms count_le_length [of xs x] by (auto simp: int64_def)
  then have "hl_count (foldl AddWeighted NewPerfect xs) x = int (count_list xs x)"
    using perfect.count_addAll_new [of xs x] by (simp add: AddWeighted_addAll)
  moreover have "foldl AddWeighted NewPerfect xs x \<noteq> None" if "x \<in> set xs" using dom that by auto
  moreover have "foldl AddWeighted NewPerfect xs x = None" if "x \<notin> set xs"
    using dom that by (auto simp: NewPerfect_def)
  ultimately show ?thesis by (auto simp: hl_count_def)
qed

lemma top_report:
  assumes "hl w = foldl AddWeighted NewPerfect kis" and "iteration it (hl w)" and "0 \<le> k" and "int64 (int (length kis))"
  shows "distinct (map item (top_entries k it w)) \<and>
    (\<forall>e\<in>set (top_entries k it w). item e \<in> set kis \<and> keyReport e = exact_line kis (item e)) \<and>
    (\<forall>x\<in>set kis. x \<notin> item ` set (top_entries k it w) \<longrightarrow>
       int (length (top_entries k it w)) = k \<and> (\<forall>e\<in>set (top_entries k it w). traffic kis x \<le> TrafficEstimate (keyReport e)))"
proof -
  have hl: "hl w x = (if x \<in> set kis then Some (int (count_list kis x)) else None)" for x
    using assms(1,4) hl_foldl [of kis x] by simp
  obtain es where es: "worker_top it w k = Some es" "int (length es) = min k (int (card (dom (hl w))))" "distinct (map item es)"
    "\<forall>e\<in>set es. hl w (item e) = Some (icount e) \<and> totalWeight e = gint (Weight (item e) * icount e)"
    "\<forall>x c. hl w x = Some c \<and> x \<notin> item ` set es \<longrightarrow> (\<forall>e\<in>set es. gint (Weight x * c) \<le> totalWeight e)"
    using Top_correct [OF assms(2,3), of Weight] by (auto simp: worker_top_def)
  have top: "top_entries k it w = es" by (simp add: top_entries_def es(1))
  have line: "item e \<in> set kis" "icount e = int (count_list kis (item e))"
    "keyReport e = exact_line kis (item e)" "TrafficEstimate (keyReport e) = totalWeight e" if "e \<in> set es" for e
  proof -
    show "item e \<in> set kis" "icount e = int (count_list kis (item e))"
      using es(4) that hl [of "item e"] by (auto split: if_splits)
    then show "keyReport e = exact_line kis (item e)"
      by (simp add: keyReport_def exact_line_def traffic_def itemCount_Item_def itemCount_Count_def Let_def)
    then show "TrafficEstimate (keyReport e) = totalWeight e"
      using es(4) that \<open>icount e = _\<close> by (simp add: exact_line_def traffic_def Weight_def mult.commute)
  qed
  have full: "int (length es) = k" if "x \<in> set kis" "x \<notin> item ` set es" for x
  proof (rule ccontr)
    assume "int (length es) \<noteq> k"
    then have "length es = card (dom (hl w))" using es(2) by simp
    moreover have "card (item ` set es) = length es" using es(3) by (metis distinct_card length_map list.set_map)
    moreover have "item ` set es \<subseteq> dom (hl w)" using es(4) by auto
    moreover have "finite (dom (hl w))" by (rule finite_subset [of _ "set kis"]) (auto simp: hl split: if_splits)
    ultimately have "item ` set es = dom (hl w)" by (intro card_subset_eq) auto
    with that hl [of x] show False by auto
  qed
  have "traffic kis x \<le> TrafficEstimate (keyReport e)" if "x \<in> set kis" "x \<notin> item ` set es" "e \<in> set es" for x e
  proof -
    have "gint (Weight x * int (count_list kis x)) \<le> totalWeight e" using es(5) that hl [of x] by simp
    then show ?thesis by (simp add: traffic_def Weight_def mult.commute line(4) [OF that(3)])
  qed
  with es(3) line full show ?thesis unfolding top by blast
qed

lemma worker_report:
  assumes "ledger w acc" and "kisChan w = []" and "iteration it (hl w)" and "0 \<le> k" and "int64 (int (length acc))"
  defines "kis \<equiv> map key_of acc"
  shows "distinct (map item (top_entries k it w)) \<and>
    (\<forall>e\<in>set (top_entries k it w). item e \<in> set kis \<and> keyReport e = exact_line kis (item e)) \<and>
    (\<forall>x\<in>set kis. x \<notin> item ` set (top_entries k it w) \<longrightarrow>
       int (length (top_entries k it w)) = k \<and> (\<forall>e\<in>set (top_entries k it w). traffic kis x \<le> TrafficEstimate (keyReport e)))"
  by (rule top_report [OF _ assms(3,4)]) (use assms(1,2,5) in \<open>auto simp: ledger_def kis_def\<close>)

lemma distinct_concat_indexed:
  "(\<And>i. i < n \<Longrightarrow> distinct (f i)) \<Longrightarrow> (\<And>i x. i < n \<Longrightarrow> x \<in> set (f i) \<Longrightarrow> g x = i) \<Longrightarrow> distinct (concat (map f [0..<n]))"
proof (induction n)
  case (Suc n)
  have "False" if "x \<in> set (f i)" "i < n" "x \<in> set (f n)" for x i
    using Suc.prems(2) [of i x] Suc.prems(2) [of n x] that by simp
  then have "set (concat (map f [0..<n])) \<inter> set (f n) = {}" by auto
  with Suc show ?case by simp
qed simp

lemma distinct_lines:
  assumes "\<And>i. i < n \<Longrightarrow> distinct (map item (g i))" and "\<And>i e. \<lbrakk> i < n; e \<in> set (g i) \<rbrakk> \<Longrightarrow> keySlot n (name (item e)) = Some i"
  shows "distinct (map (\<lambda>k. (Name k, RSize k)) (map keyReport (concat (map g [0..<n]))))"
proof -
  let ?es = "concat (map g [0..<n])"
  have "distinct (map item ?es)"
    unfolding map_concat map_map comp_def
    using assms by (intro distinct_concat_indexed [of n _ "\<lambda>x. the (keySlot n (name x))"]) fastforce+
  moreover have "inj_on (\<lambda>x. (name x, ksize x)) (set (map item ?es))" by (auto intro!: inj_onI keyInfo.equality)
  ultimately have "distinct (map (\<lambda>x. (name x, ksize x)) (map item ?es))" by (subst distinct_map) blast
  moreover have "map (\<lambda>k. (Name k, RSize k)) (map keyReport ?es) = map (\<lambda>x. (name x, ksize x)) (map item ?es)"
    by (simp add: keyReport_def itemCount_Item_def Let_def)
  ultimately show ?thesis by (simp only:)
qed

lemma take_sorted_above:
  assumes "sorted_wrt (\<lambda>a b. (w a :: int) \<ge> w b) xs" and "m \<le> length (filter (\<lambda>y. t \<le> w y) xs)"
  shows "\<forall>y\<in>set (take m xs). t \<le> w y"
  using assms
proof (induction xs arbitrary: m)
  case (Cons a xs)
  have ord: "\<forall>y\<in>set xs. w y \<le> w a" "sorted_wrt (\<lambda>a b. w a \<ge> w b) xs" using Cons.prems(1) by auto
  show ?case
  proof (cases "t \<le> w a")
    case True
    show ?thesis
    proof (cases m)
      case (Suc m')
      with Cons.prems(2) True have "m' \<le> length (filter (\<lambda>y. t \<le> w y) xs)" by simp
      from Cons.IH [OF ord(2) this] True Suc show ?thesis by simp
    qed simp
  next
    case False
    have "\<not> t \<le> w y" if "y \<in> set xs" for y using ord(1) that False by (meson order_trans)
    then have "filter (\<lambda>y. t \<le> w y) (a # xs) = []" using False by (simp add: filter_empty_conv)
    with Cons.prems(2) show ?thesis by simp
  qed
qed simp

lemma count_share:
  assumes "keySlot n (name x) = Some i"
  shows "count_list (map key_of (share n i evs)) x = count_list (map key_of evs) x"
  using assms by (induction evs) (auto simp: share_def key_of_def)

lemma mem_share: "x \<in> set (map key_of (share n i evs)) \<longleftrightarrow> x \<in> set (map key_of evs) \<and> keySlot n (name x) = Some i"
  by (auto simp: share_def key_of_def)

lemma sort_Report_facts [simp]:
  "mset (sort_Report ks) = mset ks" "set (sort_Report ks) = set ks" "length (sort_Report ks) = length ks"
  by (simp_all add: sort_Report_def)

lemma sort_Report_sorted: "sorted_wrt (\<lambda>a b. TrafficEstimate a \<ge> TrafficEstimate b) (sort_Report ks)"
proof -
  have "sorted (map (\<lambda>k. - TrafficEstimate k) (sort_Report ks))" by (simp add: sort_Report_def)
  then show ?thesis by (simp add: sorted_map)
qed

lemma length_filter_sort_Report: "length (filter P (sort_Report ks)) = length (filter P ks)"
  by (metis mset_filter size_mset sort_Report_facts(1))

text \<open>A pool that has counted all its events.\<close>

definition settled :: "nat \<Rightarrow> Event list \<Rightarrow> 'r Pool \<Rightarrow> (keyInfo \<times> int) list list \<Rightarrow> bool" where
  "settled n evs p its \<longleftrightarrow> length (workers p) = n \<and> its_ok its (workers p) \<and>
     (\<forall>i<n. ledger (workers p ! i) (share n i evs) \<and> kisChan (workers p ! i) = [])"

lemma settled_worker:
  assumes "settled n evs p its" and "0 \<le> k" and "int64 (int (length evs))" and "i < n"
  defines "es \<equiv> top_entries k (its ! i) (workers p ! i)" and "kis \<equiv> map key_of evs"
  shows "distinct (map item es)" and "\<And>e. e \<in> set es \<Longrightarrow> item e \<in> set kis \<and> keySlot n (name (item e)) = Some i \<and> keyReport e = exact_line kis (item e)"
    and "\<And>x. \<lbrakk> x \<in> set kis; keySlot n (name x) = Some i; x \<notin> item ` set es \<rbrakk>
      \<Longrightarrow> int (length es) = k \<and> (\<forall>e\<in>set es. traffic kis x \<le> TrafficEstimate (keyReport e))"
proof -
  have "length (share n i evs) \<le> length evs" by (simp add: share_def)
  then have small: "int64 (int (length (share n i evs)))" using assms(3) by (auto simp: int64_def)
  have s: "ledger (workers p ! i) (share n i evs)" "kisChan (workers p ! i) = []" "iteration (its ! i) (hl (workers p ! i))"
    using assms(1,4) by (auto simp: settled_def its_ok_def)
  note wr = worker_report [OF s assms(2) small, folded es_def]
  have ex: "exact_line (map key_of (share n i evs)) x = exact_line kis x" "traffic (map key_of (share n i evs)) x = traffic kis x"
    if "keySlot n (name x) = Some i" for x
    using count_share [OF that] by (simp_all add: exact_line_def traffic_def kis_def)
  show "distinct (map item es)" using wr by blast
  show "item e \<in> set kis \<and> keySlot n (name (item e)) = Some i \<and> keyReport e = exact_line kis (item e)" if "e \<in> set es" for e
    using wr that ex(1) [of "item e"] unfolding mem_share kis_def [symmetric] by auto
  show "int (length es) = k \<and> (\<forall>e\<in>set es. traffic kis x \<le> TrafficEstimate (keyReport e))"
    if x: "x \<in> set kis" "keySlot n (name x) = Some i" "x \<notin> item ` set es" for x
  proof -
    have "x \<in> set (map key_of (share n i evs))" using x unfolding mem_share kis_def by simp
    with wr x(3) show ?thesis unfolding ex(2) [OF x(2), symmetric] by blast
  qed
qed

text \<open>The entries of all workers, and the lines that a report of a settled pool makes of them.\<close>

definition all_tops :: "nat \<Rightarrow> 'r Pool \<Rightarrow> (keyInfo \<times> int) list list \<Rightarrow> keyInfo itemCount list" where
  "all_tops n p its = concat (map (\<lambda>i. top_entries (reportSize p) (its ! i) (workers p ! i)) [0..<n])"

lemma Report_all_tops:
  assumes "settled n evs p its" and "0 \<le> reportSize p"
  shows "Report its p False = Some (sort_Report (map keyReport (all_tops n p its)), p)"
proof -
  have lens: "length its = n" "length (workers p) = n" using assms(1) by (auto simp: settled_def its_ok_def)
  then have "map2 (top_entries (reportSize p)) its (workers p) = map (\<lambda>i. top_entries (reportSize p) (its ! i) (workers p ! i)) [0..<n]"
    by (auto simp: list_eq_iff_nth_eq)
  then show ?thesis using Report_loop_eq [OF assms(2), of its "workers p" "[]"] lens by (simp add: Report_def all_tops_def)
qed

lemma all_tops_lines:
  assumes "settled n evs p its" and "0 \<le> reportSize p" and "int64 (int (length evs))"
  defines "es \<equiv> all_tops n p its" and "kis \<equiv> map key_of evs"
  shows "\<And>e. e \<in> set es \<Longrightarrow> item e \<in> set kis \<and> keyReport e = exact_line kis (item e)"
    and "distinct (map (\<lambda>k. (Name k, RSize k)) (map keyReport es))"
proof -
  note w = settled_worker [OF assms(1-3), folded kis_def]
  show lines: "item e \<in> set kis \<and> keyReport e = exact_line kis (item e)" if "e \<in> set es" for e
    using that w(2) unfolding es_def all_tops_def by fastforce
  show "distinct (map (\<lambda>k. (Name k, RSize k)) (map keyReport es))"
    unfolding es_def all_tops_def using w(1,2) by (intro distinct_lines) blast+
qed

text \<open>A key without a line is outweighed by all entries of its worker.\<close>

lemma missing_outweighed:
  assumes "settled n evs p its" and "0 < n" and "0 \<le> reportSize p" and "int64 (int (length evs))"
  defines "es \<equiv> all_tops n p its" and "kis \<equiv> map key_of evs"
  assumes "x \<in> set kis" and "exact_line kis x \<notin> keyReport ` set es"
  shows "reportSize p \<le> int (length (filter (\<lambda>e. traffic kis x \<le> TrafficEstimate (keyReport e)) es))"
proof -
  let ?tops = "\<lambda>i. top_entries (reportSize p) (its ! i) (workers p ! i)" and ?P = "\<lambda>e. traffic kis x \<le> TrafficEstimate (keyReport e)"
  note w = settled_worker [OF assms(1,3,4), folded kis_def]
  obtain i where i: "keySlot n (name x) = Some i" "i < n" using assms(2) by (auto simp: keySlot_def nat_less_iff)
  have "set (?tops i) \<subseteq> set es" using i(2) by (auto simp: es_def all_tops_def)
  then have "x \<notin> item ` set (?tops i)" using w(2) [OF i(2)] assms(8) by force
  from w(3) [OF i(2) assms(7) i(1) this] have t: "int (length (?tops i)) = reportSize p" "filter ?P (?tops i) = ?tops i"
    by (simp_all add: filter_id_conv)
  have "[0..<n] = [0..<i] @ i # [Suc i..<n]"
    using i(2) upt_add_eq_append [of 0 i "n - i"] upt_conv_Cons [of i n] by simp
  then have "length (?tops i) \<le> length (filter ?P es)" unfolding es_def all_tops_def using t(2) by simp
  with t(1) show ?thesis by linarith
qed

lemma Report_settled:
  assumes "settled n evs p its" and "0 < n" and "0 \<le> reportSize p" and "int64 (int (length evs))"
  defines "kis \<equiv> map key_of evs"
  shows "\<exists>ks. Report its p False = Some (ks, p) \<and> distinct (map (\<lambda>k. (Name k, RSize k)) ks) \<and>
    sorted_wrt (\<lambda>a b. TrafficEstimate a \<ge> TrafficEstimate b) ks \<and> (\<forall>k\<in>set ks. \<exists>x\<in>set kis. k = exact_line kis x) \<and>
    (\<forall>x\<in>set kis. exact_line kis x \<notin> set ks \<longrightarrow>
       reportSize p \<le> int (length ks) \<and> (\<forall>k\<in>set (take (nat (reportSize p)) ks). traffic kis x \<le> TrafficEstimate k))"
proof -
  define es where "es = all_tops n p its"
  define ks where "ks = sort_Report (map keyReport es)"
  note lines = all_tops_lines [OF assms(1,3,4), folded es_def kis_def]
  have "distinct (map (\<lambda>k. (Name k, RSize k)) ks)"
    using lines(2) unfolding ks_def by (metis mset_eq_imp_distinct_iff mset_map sort_Report_facts(1))
  moreover have "\<forall>k\<in>set ks. \<exists>x\<in>set kis. k = exact_line kis x" using lines(1) by (auto simp: ks_def)
  moreover have "reportSize p \<le> int (length ks) \<and> (\<forall>k\<in>set (take (nat (reportSize p)) ks). traffic kis x \<le> TrafficEstimate k)"
    if x: "x \<in> set kis" "exact_line kis x \<notin> set ks" for x
  proof -
    let ?P = "\<lambda>k. traffic kis x \<le> TrafficEstimate k"
    have "reportSize p \<le> int (length (filter ?P ks))"
      using missing_outweighed [OF assms(1-4), folded es_def kis_def, OF x(1)] x(2)
      by (simp add: ks_def length_filter_sort_Report filter_map comp_def)
    moreover have "length (filter ?P ks) \<le> length ks" by (rule length_filter_le)
    moreover have "nat (reportSize p) \<le> length (filter ?P ks)" using calculation(1) by linarith
    then have "\<forall>k\<in>set (take (nat (reportSize p)) ks). ?P k"
      using take_sorted_above [OF sort_Report_sorted] unfolding ks_def by blast
    ultimately show ?thesis by linarith
  qed
  ultimately show ?thesis
    using Report_all_tops [OF assms(1,3)] sort_Report_sorted [of "map keyReport es"] unfolding es_def [symmetric] ks_def [symmetric] by blast
qed

lemma Report_loop_reset:
  assumes "0 \<le> k" and "length its = length ws"
  shows "Report_loop True k its ws acc = Some (acc @ concat (map2 (top_entries k) its ws), map2 worker_reset its ws)"
  using assms(2)
proof (induction its arbitrary: ws acc)
  case (Cons it its)
  then obtain w ws' where ws: "ws = w # ws'" by (cases ws) auto
  have "worker_top it w k = Some (top_entries k it w)"
    using assms(1) by (simp add: top_entries_def worker_top_def Top_def orderedTop_eq)
  with Cons ws show ?case by simp
qed simp

lemma reset_workers:
  assumes "its_ok its ws"
  shows "map2 worker_reset its ws = map (\<lambda>w. w\<lparr>hl := NewPerfect\<rparr>) ws"
  using assms by (auto simp: its_ok_def list_eq_iff_nth_eq worker_reset_def Reset_iteration NewPerfect_def)

text \<open>The events of a run that has been worked off without drops are all counted.\<close>

lemma run_settled:
  assumes "pool_run matches (pool_with n rs f) as = Some p" and "0 < n"
    and "list_all is_hit (filterEvents matches f (events_in as))" and "int64 (int (length (filterEvents matches f (events_in as))))"
    and "EventsDropped (stats p) = 0" and "\<forall>w\<in>set (workers p). kisChan w = []" and "its_ok its (workers p)"
  shows "settled n (filterEvents matches f (events_in as)) p its" and "reportSize p = rs"
proof -
  define evs where "evs = filterEvents matches f (events_in as)"
  have f: "filt (pool_with n rs f) = f" "reportSize (pool_with n rs f) = rs" by (simp_all add: pool_with_def Pool_New_def)
  obtain accs where acc: "account n evs accs p" and rs: "reportSize p = rs"
    using account_run [OF account_New assms(2,1)] assms(3) f by (auto simp: evs_def)
  have "accs ! i = share n i evs" if "i < n" for i
    using account_no_drops [OF acc assms(2,5) _ that] assms(4) by (simp add: evs_def)
  then show "settled n (filterEvents matches f (events_in as)) p its"
    using acc assms(6,7) by (auto simp: settled_def account_def evs_def)
  show "reportSize p = rs" by (rule rs)
qed

section \<open>Properties\<close>

text \<open>
  C7.  The report is exact.  Take any interleaving of incoming batches of hits with the reactions of the workers,
  from a fresh pool with any filter.  If nothing was dropped and the queues have been worked off, a report lists
  every key at most once, in descending order of traffic, each line with the exact number of requests
  and bytes of that key and size; a key is missing only if the first \<open>reportSize\<close> lines all carry at least its traffic.
\<close>

theorem report_exact:
  assumes "pool_run matches (pool_with n rs f) as = Some p" and "0 < n" and "0 \<le> rs"
    and "list_all is_hit (filterEvents matches f (events_in as))" and "int64 (int (length (filterEvents matches f (events_in as))))"
    and "EventsDropped (stats p) = 0" and "\<forall>w\<in>set (workers p). kisChan w = []" and "its_ok its (workers p)"
  defines "kis \<equiv> map key_of (filterEvents matches f (events_in as))"
  shows "\<exists>ks. Report its p False = Some (ks, p) \<and> distinct (map (\<lambda>k. (Name k, RSize k)) ks) \<and>
    sorted_wrt (\<lambda>a b. TrafficEstimate a \<ge> TrafficEstimate b) ks \<and> (\<forall>k\<in>set ks. \<exists>x\<in>set kis. k = exact_line kis x) \<and>
    (\<forall>x\<in>set kis. exact_line kis x \<notin> set ks \<longrightarrow>
       rs \<le> int (length ks) \<and> (\<forall>k\<in>set (take (nat rs) ks). traffic kis x \<le> TrafficEstimate k))"
  using Report_settled [OF run_settled(1) [OF assms(1,2,4-8)] assms(2)] run_settled(2) [OF assms(1,2,4-8)] assms(3,5)
  by (simp add: kis_def)

definition hit_event :: "string \<Rightarrow> int \<Rightarrow> Event" where
  "hit_event k n = \<lparr>EType = EventGetHit, Key = k, Size = n\<rparr>"

definition sample_actions :: "pool_action list" where
  "sample_actions = [Handle [hit_event ''a'' 10, hit_event ''x'' 1, hit_event ''a'' 10], Receive 0, Handle [hit_event ''a'' 3], Receive 0]"

definition sample_pool :: "unit Pool" where
  "sample_pool = (pool_with 1 5 None)\<lparr>
     workers := [\<lparr>hl = [\<lparr>name = ''a'', ksize = 10\<rparr> \<mapsto> 2, \<lparr>name = ''x'', ksize = 1\<rparr> \<mapsto> 1, \<lparr>name = ''a'', ksize = 3\<rparr> \<mapsto> 1],
                  kisChan = [], kisClosed = False\<rparr>], stats := \<lparr>EventsHandled = 4, EventsDropped = 0\<rparr>\<rparr>"

lemma keySlot_one: "keySlot (Suc 0) k = Some 0"
  by (simp add: keySlot_def)

lemma sample_run: "pool_run (\<lambda>_ _. True) (pool_with 1 5 None) sample_actions = Some sample_pool"
  by (simp add: sample_actions_def pool_with_def Pool_New_def HandleEvents_def filterEvents_def partitionEvents_def
      keySlot_one append_at_def worker_handleEvents_def hit_event_def reslice_def zeroKey_def newWorker_def kisChanCap_def addHandled_def
      worker_receive_def AddWeighted_def AddNWeighted_def NewPerfect_def gint_id int64_def sample_pool_def fun_eq_iff)

theorem report_exact_witness:
  "\<exists>ks. Report [[(\<lparr>name = ''x'', ksize = 1\<rparr>, 1), (\<lparr>name = ''a'', ksize = 3\<rparr>, 1), (\<lparr>name = ''a'', ksize = 10\<rparr>, 2)]] sample_pool False =
      Some (ks, sample_pool) \<and> distinct (map (\<lambda>k. (Name k, RSize k)) ks)"
proof -
  have e: "filterEvents (\<lambda>_ _. True) None (events_in sample_actions) =
      [hit_event ''a'' 10, hit_event ''x'' 1, hit_event ''a'' 10, hit_event ''a'' 3]"
    by (simp add: filterEvents_def sample_actions_def)
  have h: "list_all is_hit (filterEvents (\<lambda>_ _. True) None (events_in sample_actions))"
    "int64 (int (length (filterEvents (\<lambda>_ _. True) None (events_in sample_actions))))"
    unfolding e by (simp_all add: is_hit_def hit_event_def int64_def)
  have p: "EventsDropped (stats sample_pool) = 0" "\<forall>w\<in>set (workers sample_pool). kisChan w = []"
    by (simp_all add: sample_pool_def)
  have its: "its_ok [[(\<lparr>name = ''x'', ksize = 1\<rparr>, 1), (\<lparr>name = ''a'', ksize = 3\<rparr>, 1), (\<lparr>name = ''a'', ksize = 10\<rparr>, 2)]] (workers sample_pool)"
    by (auto simp: its_ok_def iteration_def sample_pool_def)
  from report_exact [OF sample_run _ _ h p its] show ?thesis by auto
qed

text \<open>
  C19.  Nothing is lost silently.  In every interleaving the pool neither panics nor miscounts: each event that passes the
  filter is either counted as handled or as dropped, and what a worker has counted or queued is a
  subsequence of the events of the keys it is responsible for.
\<close>

theorem pool_accounts_for_events:
  assumes "pool_run matches (pool_with n rs f) as = Some p" and "0 < n"
    and "list_all is_hit (filterEvents matches f (events_in (as @ [Handle evts])))"
    and "int64 (int (length (filterEvents matches f (events_in as))))"
  shows "EventsHandled (stats p) + EventsDropped (stats p) = int (length (filterEvents matches f (events_in as))) \<and>
    (\<forall>i<n. \<exists>acc counted. subseq acc (share n i (filterEvents matches f (events_in as))) \<and>
       hl (workers p ! i) = foldl AddWeighted NewPerfect counted \<and> counted @ concat (kisChan (workers p ! i)) = map key_of acc) \<and>
    (\<exists>p'. HandleEvents matches p evts = Some p')"
proof -
  define evs where "evs = filterEvents matches f (events_in as)"
  have app: "events_in (as @ [Handle evts]) = events_in as @ evts" by (induction as rule: events_in.induct) simp_all
  have f: "filt (pool_with n rs f) = f" by (simp add: pool_with_def)
  have hits: "list_all is_hit evs" "list_all is_hit (filterEvents matches f evts)"
    using assms(3) unfolding app filterEvents_append evs_def by auto
  obtain accs where acc: "account n evs accs p"
    using account_run [OF account_New assms(2,1)] hits(1) f by (auto simp: evs_def)
  have "filt p = f" using run_filt [OF assms(1)] f by simp
  then have "\<exists>p'. HandleEvents matches p evts = Some p'" using HandleEvents_total [OF acc assms(2)] hits(2) by simp
  moreover have "EventsHandled (stats p) + EventsDropped (stats p) = int (length evs)"
    using account_total [OF acc assms(2)] assms(4) by (simp add: evs_def)
  moreover have "\<forall>i<n. \<exists>acc counted. subseq acc (share n i evs) \<and> hl (workers p ! i) = foldl AddWeighted NewPerfect counted \<and>
      counted @ concat (kisChan (workers p ! i)) = map key_of acc"
    using acc unfolding account_def ledger_def by blast
  ultimately show ?thesis by (simp add: evs_def)
qed

theorem pool_accounts_for_events_witness:
  "EventsHandled (stats sample_pool) + EventsDropped (stats sample_pool) =
     int (length (filterEvents (\<lambda>(_ :: unit) _. True) None (events_in sample_actions))) \<and>
    (\<exists>p'. HandleEvents (\<lambda>(_ :: unit) _. True) sample_pool [hit_event ''q'' 1] = Some p')"
proof -
  have h: "list_all is_hit (filterEvents (\<lambda>(_ :: unit) _. True) None (events_in (sample_actions @ [Handle [hit_event ''q'' 1]])))"
    "int64 (int (length (filterEvents (\<lambda>(_ :: unit) _. True) None (events_in sample_actions))))"
    by (simp_all add: is_hit_def hit_event_def int64_def filterEvents_def sample_actions_def)
  from pool_accounts_for_events [OF sample_run _ h] show ?thesis by simp
qed

text \<open>
  A new filter takes effect at once and completely: an invalid pattern changes nothing, a valid one clears the counts of
  every worker and from then on only events whose key matches are considered (all of them for the empty pattern).
\<close>

theorem filter_takes_effect:
  assumes "its_ok its (workers p)"
  shows "case SetFilterPattern compile its p pattern of (err, p') \<Rightarrow>
    (case err of
       Some e \<Rightarrow> pattern \<noteq> [] \<and> compile pattern = Inl e \<and> p' = p
     | None \<Rightarrow> (\<forall>w\<in>set (workers p'). hl w = NewPerfect) \<and> map kisChan (workers p') = map kisChan (workers p) \<and>
         stats p' = stats p \<and>
         (\<forall>evts. filterEvents matches (filt p') evts =
            (if pattern = [] then evts
             else filter (\<lambda>e. \<exists>r. compile pattern = Inr r \<and> matches r (Key e)) evts)))"
  using reset_workers [OF assms]
  by (auto simp: SetFilterPattern_def setPattern_def Pool_Reset_def filterEvents_def split: sum.splits)

definition sample_compile :: "string \<Rightarrow> string + string" where
  "sample_compile s = (if s = ''['' then Inl ''missing closing ]'' else Inr s)"

definition sample_string_pool :: "string Pool" where
  "sample_string_pool = \<lparr>reportSize = 5, workers = workers sample_pool, filt = None, stats = stats sample_pool\<rparr>"

theorem filter_takes_effect_witness:
  "case SetFilterPattern sample_compile
     [[(\<lparr>name = ''x'', ksize = 1\<rparr>, 1), (\<lparr>name = ''a'', ksize = 3\<rparr>, 1), (\<lparr>name = ''a'', ksize = 10\<rparr>, 2)]]
     sample_string_pool ''user'' of (err, p') \<Rightarrow>
    err = None \<and> (\<forall>w\<in>set (workers p'). hl w = NewPerfect) \<and>
    filterEvents (=) (filt p') [hit_event ''user'' 1, hit_event ''item'' 2] = [hit_event ''user'' 1]"
proof -
  have its: "its_ok [[(\<lparr>name = ''x'', ksize = 1\<rparr>, 1), (\<lparr>name = ''a'', ksize = 3\<rparr>, 1), (\<lparr>name = ''a'', ksize = 10\<rparr>, 2)]]
      (workers sample_string_pool)"
    by (auto simp: its_ok_def iteration_def sample_pool_def sample_string_pool_def)
  from filter_takes_effect [OF its, where compile = sample_compile and pattern = "''user''" and matches = "(=)"] show ?thesis
    by (simp add: sample_compile_def hit_event_def split: prod.splits option.splits)
qed

text \<open>
  C23.  A report is not limited to \<open>reportSize\<close> lines: each worker contributes as many, and they are only sorted.  Here a pool with a
  report size of one reports two keys.
\<close>

theorem report_exceeds_size:
  "let its = [[(\<lparr>name = ''a'', ksize = 1\<rparr>, 1)], [(\<lparr>name = ''b'', ksize = 2\<rparr>, 1)]];
       p = (Pool_New 2 1 :: unit Pool)\<lparr>workers :=
         [newWorker\<lparr>hl := [\<lparr>name = ''a'', ksize = 1\<rparr> \<mapsto> 1]\<rparr>, newWorker\<lparr>hl := [\<lparr>name = ''b'', ksize = 2\<rparr> \<mapsto> 1]\<rparr>]\<rparr>
   in its_ok its (workers p) \<and> reportSize p = 1 \<and> map_option (map Name \<circ> fst) (Report its p False) = Some [''b'', ''a'']"
proof -
  have "its_ok [[(\<lparr>name = ''a'', ksize = 1\<rparr>, 1)], [(\<lparr>name = ''b'', ksize = 2\<rparr>, 1)]]
      [newWorker\<lparr>hl := [\<lparr>name = ''a'', ksize = 1\<rparr> \<mapsto> 1]\<rparr>, newWorker\<lparr>hl := [\<lparr>name = ''b'', ksize = 2\<rparr> \<mapsto> 1]\<rparr>]"
    by (auto simp: its_ok_def iteration_def nth_Cons split: nat.splits)
  then show ?thesis
    by (simp add: Pool_New_def Report_def worker_top_def Top_def orderedTop_def sort_Sort_def slice_to_def sort_Report_def
        keyReport_def itemCount_Item_def itemCount_Count_def Weight_def gint_id int64_def)
qed

text \<open>
  An event that is not a hit and comes before a hit in a batch is counted as a request for the empty key: the slice is
  extended by index and the skipped position keeps its zero value.
\<close>

theorem miss_counts_as_empty_key:
  "collect_kis 0 [] [\<lparr>EType = EventGetMiss, Key = ''k'', Size = 0\<rparr>, \<lparr>EType = EventGetHit, Key = ''a'', Size = 9\<rparr>] =
   [\<lparr>name = [], ksize = 0\<rparr>, \<lparr>name = ''a'', ksize = 9\<rparr>]"
  by code_simp

end
