(* ===== verification/Layers.thy ===== *)
theory Layers
  imports Flows
begin

text \<open>
  The packet decoders of the vendored \<^verbatim>\<open>gopacket/layers\<close> that \<^verbatim>\<open>decode/decode.go\<close> installs (Ethernet, loopback, 802.1Q, IPv4, IPv6
  with its hop-by-hop header, TCP and payload) and the loop of \<^verbatim>\<open>gopacket/parser.go\<close> that runs them.

  The decoders write into structs that live as long as the program, and a run-time panic in a decoder is turned into
  an error by the parser, so a struct may keep a mixture of old and new values.  A decoder therefore returns the error \<^emph>\<open>and\<close>
  the struct, and a sequence of assignments stops at the first one that panics.  Numbers read from a packet are
  natural numbers below the power of two of their width.  The \<open>Contents\<close> of the layers, which nothing reads, are left out.
\<close>

section \<open>Slices with spare capacity\<close>

text \<open>
  Go lets a slice expression reach beyond the length of a slice, up to its capacity; an index or a lower bound may not.
  The bytes between length and capacity are the \<open>spare\<close> ones.
\<close>

record gslice =
  vis :: "byte list"
  spare :: "byte list"

abbreviation glen :: "gslice \<Rightarrow> nat" where
  "glen s \<equiv> length (vis s)"

definition whole :: "byte list \<Rightarrow> gslice" where
  "whole bs = \<lparr>vis = bs, spare = []\<rparr>"

text \<open>\<open>s[a:b]\<close>, \<open>s[a:]\<close> and \<open>s[i]\<close>\<close>

definition cut :: "nat \<Rightarrow> nat \<Rightarrow> gslice \<Rightarrow> gslice option" where
  "cut a b s =
     (if a \<le> b \<and> b \<le> length (vis s @ spare s)
      then Some \<lparr>vis = drop a (take b (vis s @ spare s)), spare = drop b (vis s @ spare s)\<rparr> else None)"

definition tail_from :: "nat \<Rightarrow> gslice \<Rightarrow> gslice option" where
  "tail_from a s = (if a \<le> glen s then Some \<lparr>vis = drop a (vis s), spare = spare s\<rparr> else None)"

definition byte_at :: "gslice \<Rightarrow> nat \<Rightarrow> nat option" where
  "byte_at s i = (if i < glen s then Some (of_char (vis s ! i)) else None)"

text \<open>\<open>binary.BigEndian\<close> and \<open>binary.LittleEndian\<close> on the slice \<open>s[a:a+n]\<close>.\<close>

fun be :: "byte list \<Rightarrow> nat" where
  "be [] = 0"
| "be (b # bs) = of_char b * 256 ^ length bs + be bs"

definition be_at :: "nat \<Rightarrow> nat \<Rightarrow> gslice \<Rightarrow> nat option" where
  "be_at a n s = map_option (\<lambda>x. be (vis x)) (cut a (a + n) s)"

definition flag :: "nat \<Rightarrow> nat \<Rightarrow> bool" where
  "flag k b \<longleftrightarrow> odd (b div 2 ^ k)"

section \<open>Assignments that may panic\<close>

fun assigns :: "('s \<Rightarrow> 's option) list \<Rightarrow> 's \<Rightarrow> bool \<times> 's" where
  "assigns [] s = (True, s)"
| "assigns (f # fs) s = (case f s of None \<Rightarrow> (False, s) | Some s' \<Rightarrow> assigns fs s')"

datatype decode_error = Recovered | DecodeError string | UnsupportedLayerType

section \<open>Layer types\<close>

text \<open>Every layer type without a decoder is \<open>LayerTypeOther\<close>: the parser treats them alike.\<close>

datatype LayerType =
    LayerTypeEthernet | LayerTypeLoopback | LayerTypeDot1Q | LayerTypeIPv4 | LayerTypeIPv6 | LayerTypeTCP | LayerTypePayload
  | LayerTypeOther

definition EthernetType_LayerType :: "nat \<Rightarrow> LayerType" where
  "EthernetType_LayerType a =
     (if a = 0x0800 then LayerTypeIPv4 else if a = 0x86DD then LayerTypeIPv6
      else if a = 0x8100 \<or> a = 0x88a8 then LayerTypeDot1Q else if a = 0x6558 then LayerTypeEthernet else LayerTypeOther)"

definition IPProtocol_LayerType :: "nat \<Rightarrow> LayerType" where
  "IPProtocol_LayerType a =
     (if a = 4 \<or> a = 94 then LayerTypeIPv4 else if a = 6 then LayerTypeTCP else if a = 41 then LayerTypeIPv6
      else if a = 59 then LayerTypePayload else LayerTypeOther)"

definition ProtocolFamily_LayerType :: "nat \<Rightarrow> LayerType" where
  "ProtocolFamily_LayerType a =
     (if a = 2 then LayerTypeIPv4 else if a = 24 \<or> a = 28 \<or> a = 30 \<or> a = 10 then LayerTypeIPv6 else LayerTypeOther)"

section \<open>Ethernet, loopback and 802.1Q\<close>

record Ethernet =
  DstMAC :: "byte list"
  SrcMAC :: "byte list"
  EthernetType :: nat
  eth_Length :: nat
  eth_Payload :: gslice

text \<open>The error, whether \<open>SetTruncated\<close> was called, and the struct.\<close>

definition Ethernet_DecodeFromBytes :: "gslice \<Rightarrow> Ethernet \<Rightarrow> decode_error option \<times> bool \<times> Ethernet" where
  "Ethernet_DecodeFromBytes data eth =
     (if glen data < 14 then (Some (DecodeError ''Ethernet packet too small''), False, eth)
      else let typ = be (take 2 (drop 12 (vis data)));
               payload = \<lparr>vis = drop 14 (vis data), spare = spare data\<rparr>;
               eth = eth\<lparr>DstMAC := take 6 (vis data), SrcMAC := take 6 (drop 6 (vis data)), EthernetType := typ, eth_Payload := payload\<rparr> in
        if typ < 0x0600
        then let eth = eth\<lparr>eth_Length := typ, EthernetType := 0\<rparr> in
          if glen payload < typ then (None, True, eth)
          else if glen payload > typ
          then (None, False, eth\<lparr>eth_Payload := \<lparr>vis = take typ (vis payload), spare = drop typ (vis payload) @ spare payload\<rparr>\<rparr>)
          else (None, False, eth)
        else (None, False, eth))"

definition Ethernet_NextLayerType :: "Ethernet \<Rightarrow> LayerType" where
  "Ethernet_NextLayerType eth = EthernetType_LayerType (EthernetType eth)"

record Loopback =
  Family :: nat
  lo_Payload :: gslice

definition Loopback_DecodeFromBytes :: "gslice \<Rightarrow> Loopback \<Rightarrow> decode_error option \<times> bool \<times> Loopback" where
  "Loopback_DecodeFromBytes data l =
     (if glen data < 4 then (Some (DecodeError ''Loopback packet too small''), False, l)
      else let prot = (if vis data ! 0 = CHR 0x00 \<and> vis data ! 1 = CHR 0x00 then be (take 4 (vis data)) else be (rev (take 4 (vis data)))) in
        if prot > 0xFF then (Some (DecodeError ''Invalid loopback protocol''), False, l)
        else (None, False, l\<lparr>Family := prot, lo_Payload := \<lparr>vis = drop 4 (vis data), spare = spare data\<rparr>\<rparr>))"

definition Loopback_NextLayerType :: "Loopback \<Rightarrow> LayerType" where
  "Loopback_NextLayerType l = ProtocolFamily_LayerType (Family l)"

record Dot1Q =
  Priority :: nat
  DropEligible :: bool
  VLANIdentifier :: nat
  Dot1Q_Type :: nat
  dot1q_Payload :: gslice

text \<open>The last step of a decoder that consists of assignments only.\<close>

definition run_assigns :: "('s \<Rightarrow> 's option) list \<Rightarrow> 's \<Rightarrow> decode_error option \<times> bool \<times> 's" where
  "run_assigns fs s = (case assigns fs s of (ok, s) \<Rightarrow> (if ok then None else Some Recovered, False, s))"

definition Dot1Q_DecodeFromBytes :: "gslice \<Rightarrow> Dot1Q \<Rightarrow> decode_error option \<times> bool \<times> Dot1Q" where
  "Dot1Q_DecodeFromBytes data d =
     run_assigns
      [\<lambda>d. map_option (\<lambda>b. d\<lparr>Priority := b div 32\<rparr>) (byte_at data 0),
       \<lambda>d. map_option (\<lambda>b. d\<lparr>DropEligible := flag 4 b\<rparr>) (byte_at data 0),
       \<lambda>d. map_option (\<lambda>n. d\<lparr>VLANIdentifier := n mod 4096\<rparr>) (be_at 0 2 data),
       \<lambda>d. map_option (\<lambda>n. d\<lparr>Dot1Q_Type := n\<rparr>) (be_at 2 2 data),
       \<lambda>d. do { _ \<leftarrow> cut 0 4 data; p \<leftarrow> tail_from 4 data; Some (d\<lparr>dot1q_Payload := p\<rparr>) }] d"

definition Dot1Q_NextLayerType :: "Dot1Q \<Rightarrow> LayerType" where
  "Dot1Q_NextLayerType d = EthernetType_LayerType (Dot1Q_Type d)"

section \<open>IPv4\<close>

record IPOption =
  OptionType :: nat
  OptionLength :: nat
  OptionData :: "byte list"

record IPv4 =
  i4_Version :: nat
  IHL :: nat
  TOS :: nat
  i4_Length :: nat
  Id :: nat
  i4_Flags :: nat
  FragOffset :: nat
  TTL :: nat
  Protocol :: nat
  i4_Checksum :: nat
  i4_SrcIP :: "byte list"
  i4_DstIP :: "byte list"
  i4_Options :: "IPOption list"
  i4_Padding :: "byte list"
  i4_Payload :: gslice

text \<open>The fixed part of the header, assignment by assignment.\<close>

definition IPv4_header :: "gslice \<Rightarrow> (IPv4 \<Rightarrow> IPv4 option) list" where
  "IPv4_header data =
     [\<lambda>ip. map_option (\<lambda>_. ip) (be_at 6 2 data),
      \<lambda>ip. map_option (\<lambda>b. ip\<lparr>i4_Version := b div 16\<rparr>) (byte_at data 0),
      \<lambda>ip. map_option (\<lambda>b. ip\<lparr>IHL := b mod 16\<rparr>) (byte_at data 0),
      \<lambda>ip. map_option (\<lambda>b. ip\<lparr>TOS := b\<rparr>) (byte_at data 1),
      \<lambda>ip. map_option (\<lambda>n. ip\<lparr>i4_Length := n\<rparr>) (be_at 2 2 data),
      \<lambda>ip. map_option (\<lambda>n. ip\<lparr>Id := n\<rparr>) (be_at 4 2 data),
      \<lambda>ip. map_option (\<lambda>n. ip\<lparr>i4_Flags := n div 8192\<rparr>) (be_at 6 2 data),
      \<lambda>ip. map_option (\<lambda>n. ip\<lparr>FragOffset := n mod 8192\<rparr>) (be_at 6 2 data),
      \<lambda>ip. map_option (\<lambda>b. ip\<lparr>TTL := b\<rparr>) (byte_at data 8),
      \<lambda>ip. map_option (\<lambda>b. ip\<lparr>Protocol := b\<rparr>) (byte_at data 9),
      \<lambda>ip. map_option (\<lambda>n. ip\<lparr>i4_Checksum := n\<rparr>) (be_at 10 2 data),
      \<lambda>ip. map_option (\<lambda>x. ip\<lparr>i4_SrcIP := vis x\<rparr>) (cut 12 16 data),
      \<lambda>ip. map_option (\<lambda>x. ip\<lparr>i4_DstIP := vis x\<rparr>) (cut 16 20 data),
      \<lambda>ip. Some (ip\<lparr>i4_Payload := whole [], i4_Length := (if i4_Length ip = 0 then glen data mod 65536 else i4_Length ip)\<rparr>)]"

text \<open>
  The loop over the options.  The \<open>break\<close> of the first case leaves the \<open>switch\<close> only.  The options of earlier packets are kept,
  as the code appends to them.
\<close>

function IPv4_options :: "gslice \<Rightarrow> IPv4 \<Rightarrow> decode_error option \<times> IPv4" where
  "IPv4_options data ip =
     (if vis data = [] then (None, ip)
      else let b = of_char (hd (vis data)) in
        if b = 0
        then IPv4_options \<lparr>vis = tl (vis data), spare = spare data\<rparr>
               (ip\<lparr>i4_Options := i4_Options ip @ [\<lparr>OptionType = 0, OptionLength = 1, OptionData = []\<rparr>, \<lparr>OptionType = 0, OptionLength = 1, OptionData = []\<rparr>],
                   i4_Padding := tl (vis data)\<rparr>)
        else if b = 1
        then IPv4_options \<lparr>vis = tl (vis data), spare = spare data\<rparr>
               (ip\<lparr>i4_Options := i4_Options ip @ [\<lparr>OptionType = 1, OptionLength = 1, OptionData = []\<rparr>]\<rparr>)
        else case byte_at data 1 of
            None \<Rightarrow> (Some Recovered, ip)
          | Some n \<Rightarrow>
              (case cut 2 n data of
                 None \<Rightarrow> (Some Recovered, ip)
               | Some x \<Rightarrow>
                   if n \<le> glen data
                   then IPv4_options \<lparr>vis = drop n (vis data), spare = spare data\<rparr>
                          (ip\<lparr>i4_Options := i4_Options ip @ [\<lparr>OptionType = b, OptionLength = n, OptionData = vis x\<rparr>]\<rparr>)
                   else (Some (DecodeError ''IP option length exceeds remaining IP header size''), ip)))"
  by pat_completeness auto
termination
  by (relation "measure (\<lambda>(data, ip). glen data)") (auto simp: cut_def split: if_splits)

definition IPv4_DecodeFromBytes :: "gslice \<Rightarrow> IPv4 \<Rightarrow> decode_error option \<times> bool \<times> IPv4" where
  "IPv4_DecodeFromBytes data ip =
     (case assigns (IPv4_header data) ip of
        (False, ip) \<Rightarrow> (Some Recovered, False, ip)
      | (True, ip) \<Rightarrow>
          if i4_Length ip < 20 then (Some (DecodeError ''Invalid (too small) IP length''), False, ip)
          else if IHL ip < 5 then (Some (DecodeError ''Invalid (too small) IP header length''), False, ip)
          else if IHL ip * 4 > i4_Length ip then (Some (DecodeError ''Invalid IP header length > IP length''), False, ip)
          else let truncated = glen data < i4_Length ip;
                   kept = (if truncated then data
                           else \<lparr>vis = take (i4_Length ip) (vis data), spare = drop (i4_Length ip) (vis data) @ spare data\<rparr>) in
            if truncated \<and> IHL ip * 4 > glen data then (Some (DecodeError ''Not all IP header bytes available''), True, ip)
            else let n = IHL ip * 4;
                     ip = ip\<lparr>i4_Payload := \<lparr>vis = drop n (vis kept), spare = spare kept\<rparr>\<rparr>;
                     (err, ip) = IPv4_options \<lparr>vis = drop 20 (take n (vis kept)), spare = drop n (vis kept) @ spare kept\<rparr> ip in
              (err, truncated, ip))"

definition IPv4_NextLayerType :: "IPv4 \<Rightarrow> LayerType" where
  "IPv4_NextLayerType ip =
     (if flag 0 (i4_Flags ip) \<or> FragOffset ip \<noteq> 0 then LayerTypeOther else IPProtocol_LayerType (Protocol ip))"

definition EndpointIPv4 :: int where "EndpointIPv4 = 1"
definition EndpointIPv6 :: int where "EndpointIPv6 = 2"
definition EndpointTCPPort :: int where "EndpointTCPPort = 4"

definition IPv4_NetworkFlow :: "IPv4 \<Rightarrow> Flow option" where
  "IPv4_NetworkFlow ip = NewFlow EndpointIPv4 (i4_SrcIP ip) (i4_DstIP ip)"

section \<open>IPv6\<close>

record IPv6Extension =
  x_NextHeader :: nat
  HeaderLength :: nat
  ActualLength :: nat
  x_Options :: "IPOption list"

record IPv6 =
  i6_Version :: nat
  TrafficClass :: nat
  FlowLabel :: nat
  i6_Length :: nat
  NextHeader :: nat
  HopLimit :: nat
  i6_SrcIP :: "byte list"
  i6_DstIP :: "byte list"
  HopByHop :: bool
  hbh :: IPv6Extension
  i6_Payload :: gslice

text \<open>\<open>HopByHop\<close> says whether the pointer of that name is set; it then points to \<open>hbh\<close>.\<close>

definition IPv6_header :: "gslice \<Rightarrow> (IPv6 \<Rightarrow> IPv6 option) list" where
  "IPv6_header data =
     [\<lambda>ip. map_option (\<lambda>b. ip\<lparr>i6_Version := b div 16\<rparr>) (byte_at data 0),
      \<lambda>ip. map_option (\<lambda>n. ip\<lparr>TrafficClass := n div 16 mod 256\<rparr>) (be_at 0 2 data),
      \<lambda>ip. map_option (\<lambda>n. ip\<lparr>FlowLabel := n mod 1048576\<rparr>) (be_at 0 4 data),
      \<lambda>ip. map_option (\<lambda>n. ip\<lparr>i6_Length := n\<rparr>) (be_at 4 2 data),
      \<lambda>ip. map_option (\<lambda>b. ip\<lparr>NextHeader := b\<rparr>) (byte_at data 6),
      \<lambda>ip. map_option (\<lambda>b. ip\<lparr>HopLimit := b\<rparr>) (byte_at data 7),
      \<lambda>ip. map_option (\<lambda>x. ip\<lparr>i6_SrcIP := vis x\<rparr>) (cut 8 24 data),
      \<lambda>ip. map_option (\<lambda>x. ip\<lparr>i6_DstIP := vis x\<rparr>) (cut 24 40 data),
      \<lambda>ip. Some (ip\<lparr>HopByHop := False\<rparr>),
      \<lambda>ip. do { _ \<leftarrow> cut 0 40 data; p \<leftarrow> tail_from 40 data; Some (ip\<lparr>i6_Payload := p\<rparr>) }]"

text \<open>An option and its \<open>ActualLength\<close>; \<^const>\<open>None\<close> is a panic.\<close>

definition decodeIPv6HeaderTLVOption :: "gslice \<Rightarrow> (IPOption \<times> nat) option" where
  "decodeIPv6HeaderTLVOption data =
     do { b \<leftarrow> byte_at data 0;
          if b = 0 then Some (\<lparr>OptionType = 0, OptionLength = 0, OptionData = []\<rparr>, 1)
          else do { n \<leftarrow> byte_at data 1;
                    x \<leftarrow> cut 2 (n + 2) data;
                    Some (\<lparr>OptionType = b, OptionLength = n, OptionData = vis x\<rparr>, n + 2) } }"

function HopByHop_options :: "gslice \<Rightarrow> nat \<Rightarrow> nat \<Rightarrow> IPOption list \<Rightarrow> bool \<times> IPOption list" where
  "HopByHop_options data stop offset opts =
     (if offset < stop
      then case Option.bind (tail_from offset data) decodeIPv6HeaderTLVOption of
          None \<Rightarrow> (False, opts)
        | Some (opt, n) \<Rightarrow> HopByHop_options data stop (offset + n) (opts @ [opt])
      else (True, opts))"
  by pat_completeness auto
termination
  by (relation "measure (\<lambda>(data, stop, offset, opts). stop - offset)")
    (auto simp: decodeIPv6HeaderTLVOption_def Option.bind_eq_Some_conv split: if_splits)

definition HopByHop_DecodeFromBytes :: "gslice \<Rightarrow> IPv6Extension \<Rightarrow> decode_error option \<times> IPv6Extension" where
  "HopByHop_DecodeFromBytes data i =
     (case do { nh \<leftarrow> byte_at data 0; hl \<leftarrow> byte_at data 1;
                _ \<leftarrow> cut 0 (hl * 8 + 8) data; _ \<leftarrow> tail_from (hl * 8 + 8) data; Some (nh, hl) } of
        None \<Rightarrow> (Some Recovered, i)
      | Some (nh, hl) \<Rightarrow>
          let (ok, opts) = HopByHop_options data (hl * 8 + 8) 2 (x_Options i) in
          (if ok then None else Some Recovered,
           \<lparr>x_NextHeader = nh, HeaderLength = hl, ActualLength = hl * 8 + 8, x_Options = opts\<rparr>))"

definition getIPv6HopByHopJumboLength :: "IPv6Extension \<Rightarrow> decode_error + nat option" where
  "getIPv6HopByHopJumboLength hopopts =
     (case find (\<lambda>t. OptionType t = 0xC2) (x_Options hopopts) of
        None \<Rightarrow> Inr None
      | Some tlv \<Rightarrow>
          if length (OptionData tlv) \<noteq> 4 then Inl (DecodeError ''Jumbo length TLV data must have length 4'')
          else if be (OptionData tlv) \<le> 65535 then Inl (DecodeError ''Jumbo length cannot be less than'')
          else Inr (Some (be (OptionData tlv))))"

text \<open>Limiting the payload to \<open>pEnd\<close> bytes.\<close>

definition IPv6_limit :: "nat \<Rightarrow> IPv6 \<Rightarrow> decode_error option \<times> bool \<times> IPv6" where
  "IPv6_limit pEnd ip =
     (let p = i6_Payload ip in
      if pEnd > glen p then (None, True, ip)
      else (None, False, ip\<lparr>i6_Payload := \<lparr>vis = take pEnd (vis p), spare = drop pEnd (vis p) @ spare p\<rparr>\<rparr>))"

definition IPv6_DecodeFromBytes :: "gslice \<Rightarrow> IPv6 \<Rightarrow> decode_error option \<times> bool \<times> IPv6" where
  "IPv6_DecodeFromBytes data ip =
     (case assigns (IPv6_header data) ip of
        (False, ip) \<Rightarrow> (Some Recovered, False, ip)
      | (True, ip) \<Rightarrow>
          if NextHeader ip = 0
          then (case HopByHop_DecodeFromBytes (i6_Payload ip) (hbh ip) of
              (Some err, h) \<Rightarrow> (Some err, False, ip\<lparr>hbh := h\<rparr>)
            | (None, h) \<Rightarrow>
                let ip = ip\<lparr>hbh := h, HopByHop := True\<rparr> in
                (case getIPv6HopByHopJumboLength h of
                   Inl err \<Rightarrow> (Some err, False, ip)
                 | Inr (Some pEnd) \<Rightarrow>
                     if i6_Length ip = 0 then IPv6_limit pEnd ip
                     else (Some (DecodeError ''IPv6 has jumbo length and IPv6 length is not 0''), False, ip)
                 | Inr None \<Rightarrow>
                     if i6_Length ip = 0 then (Some (DecodeError ''IPv6 length 0, but HopByHop header does not have jumbogram option''), False, ip)
                     else IPv6_limit (i6_Length ip) ip))
          else if i6_Length ip = 0 then (Some (DecodeError ''IPv6 length 0, but next header is not HopByHop''), False, ip)
          else IPv6_limit (i6_Length ip) ip)"

definition IPv6_NextLayerType :: "IPv6 \<Rightarrow> LayerType" where
  "IPv6_NextLayerType ip =
     (if HopByHop ip then IPProtocol_LayerType (x_NextHeader (hbh ip)) else IPProtocol_LayerType (NextHeader ip))"

definition IPv6_NetworkFlow :: "IPv6 \<Rightarrow> Flow option" where
  "IPv6_NetworkFlow ip = NewFlow EndpointIPv6 (i6_SrcIP ip) (i6_DstIP ip)"

section \<open>TCP\<close>

record TCP =
  SrcPort :: nat
  DstPort :: nat
  Seq :: nat
  Ack :: nat
  DataOffset :: nat
  FIN :: bool
  SYN :: bool
  RST :: bool
  PSH :: bool
  ACK :: bool
  URG :: bool
  ECE :: bool
  CWR :: bool
  NS :: bool
  Window :: nat
  t_Checksum :: nat
  Urgent :: nat
  sPort :: "byte list"
  dPort :: "byte list"
  t_Options :: "IPOption list"
  t_Padding :: "byte list"
  t_Payload :: gslice

definition TCP_header :: "gslice \<Rightarrow> (TCP \<Rightarrow> TCP option) list" where
  "TCP_header data =
     [\<lambda>t. map_option (\<lambda>n. t\<lparr>SrcPort := n\<rparr>) (be_at 0 2 data),
      \<lambda>t. map_option (\<lambda>x. t\<lparr>sPort := vis x\<rparr>) (cut 0 2 data),
      \<lambda>t. map_option (\<lambda>n. t\<lparr>DstPort := n\<rparr>) (be_at 2 2 data),
      \<lambda>t. map_option (\<lambda>x. t\<lparr>dPort := vis x\<rparr>) (cut 2 4 data),
      \<lambda>t. map_option (\<lambda>n. t\<lparr>Seq := n\<rparr>) (be_at 4 4 data),
      \<lambda>t. map_option (\<lambda>n. t\<lparr>Ack := n\<rparr>) (be_at 8 4 data),
      \<lambda>t. map_option (\<lambda>b. t\<lparr>DataOffset := b div 16\<rparr>) (byte_at data 12),
      \<lambda>t. map_option (\<lambda>b. t\<lparr>FIN := flag 0 b, SYN := flag 1 b, RST := flag 2 b, PSH := flag 3 b, ACK := flag 4 b,
             URG := flag 5 b, ECE := flag 6 b, CWR := flag 7 b\<rparr>) (byte_at data 13),
      \<lambda>t. map_option (\<lambda>b. t\<lparr>NS := flag 0 b\<rparr>) (byte_at data 12),
      \<lambda>t. map_option (\<lambda>n. t\<lparr>Window := n\<rparr>) (be_at 14 2 data),
      \<lambda>t. map_option (\<lambda>n. t\<lparr>t_Checksum := n\<rparr>) (be_at 16 2 data),
      \<lambda>t. map_option (\<lambda>n. t\<lparr>Urgent := n\<rparr>) (be_at 18 2 data),
      \<lambda>t. Some (t\<lparr>t_Options := []\<rparr>)]"

function TCP_options :: "byte list \<Rightarrow> TCP \<Rightarrow> decode_error option \<times> TCP" where
  "TCP_options data t =
     (case data of
        [] \<Rightarrow> (None, t)
      | c # rest \<Rightarrow>
          let kind = of_char c; opts = t_Options t in
          if kind = 0
          then TCP_options rest (t\<lparr>t_Options := opts @ [\<lparr>OptionType = 0, OptionLength = 1, OptionData = []\<rparr>], t_Padding := rest\<rparr>)
          else if kind = 1
          then TCP_options rest (t\<lparr>t_Options := opts @ [\<lparr>OptionType = 1, OptionLength = 1, OptionData = []\<rparr>]\<rparr>)
          else case rest of
              [] \<Rightarrow> (Some Recovered, t\<lparr>t_Options := opts @ [\<lparr>OptionType = kind, OptionLength = 0, OptionData = []\<rparr>]\<rparr>)
            | d # _ \<Rightarrow>
                let n = of_char d; bad = t\<lparr>t_Options := opts @ [\<lparr>OptionType = kind, OptionLength = n, OptionData = []\<rparr>]\<rparr> in
                if n < 2 then (Some (DecodeError ''Invalid TCP option length < 2''), bad)
                else if n > length data then (Some (DecodeError ''Invalid TCP option length exceeds remaining bytes''), bad)
                else TCP_options (drop n data)
                       (t\<lparr>t_Options := opts @ [\<lparr>OptionType = kind, OptionLength = n, OptionData = drop 2 (take n data)\<rparr>]\<rparr>))"
  by pat_completeness auto
termination
  by (relation "measure (\<lambda>(data, t). length data)") auto

definition TCP_DecodeFromBytes :: "gslice \<Rightarrow> TCP \<Rightarrow> decode_error option \<times> bool \<times> TCP" where
  "TCP_DecodeFromBytes data t =
     (case assigns (TCP_header data) t of
        (False, t) \<Rightarrow> (Some Recovered, False, t)
      | (True, t) \<Rightarrow>
          if DataOffset t < 5 then (Some (DecodeError ''Invalid TCP data offset < 5''), False, t)
          else let dataStart = DataOffset t * 4 in
            if dataStart > glen data
            then (Some (DecodeError ''TCP data offset greater than packet length''), True, t\<lparr>t_Payload := whole []\<rparr>)
            else let t = t\<lparr>t_Payload := \<lparr>vis = drop dataStart (vis data), spare = spare data\<rparr>\<rparr>;
                     (err, t) = TCP_options (drop 20 (take dataStart (vis data))) t in
              (err, False, t))"

definition TCP_TransportFlow :: "TCP \<Rightarrow> Flow option" where
  "TCP_TransportFlow t = NewFlow EndpointTCPPort (sPort t) (dPort t)"

section \<open>The parser\<close>

record Layers =
  ether :: Ethernet
  lo :: Loopback
  dot1q :: Dot1Q
  ipv4 :: IPv4
  ipv6 :: IPv6
  tcp :: TCP
  payload :: gslice

text \<open>
  Running the decoder of a layer type on the structs: the error, whether the packet is truncated, the structs, the next
  layer type and the payload; \<^const>\<open>None\<close> when the parser that starts with \<open>first\<close> has no decoder for the type.
\<close>

definition layer_decoder ::
  "LayerType \<Rightarrow> LayerType \<Rightarrow> gslice \<Rightarrow> Layers \<Rightarrow> (decode_error option \<times> bool \<times> Layers \<times> LayerType \<times> gslice) option" where
  "layer_decoder first typ data ls =
     (case typ of
        LayerTypeEthernet \<Rightarrow>
          if first = LayerTypeEthernet
          then let (err, tr, x) = Ethernet_DecodeFromBytes data (ether ls) in
               Some (err, tr, ls\<lparr>ether := x\<rparr>, Ethernet_NextLayerType x, eth_Payload x)
          else None
      | LayerTypeLoopback \<Rightarrow>
          if first = LayerTypeLoopback
          then let (err, tr, x) = Loopback_DecodeFromBytes data (lo ls) in
               Some (err, tr, ls\<lparr>lo := x\<rparr>, Loopback_NextLayerType x, lo_Payload x)
          else None
      | LayerTypeDot1Q \<Rightarrow>
          let (err, tr, x) = Dot1Q_DecodeFromBytes data (dot1q ls) in
          Some (err, tr, ls\<lparr>dot1q := x\<rparr>, Dot1Q_NextLayerType x, dot1q_Payload x)
      | LayerTypeIPv4 \<Rightarrow>
          let (err, tr, x) = IPv4_DecodeFromBytes data (ipv4 ls) in
          Some (err, tr, ls\<lparr>ipv4 := x\<rparr>, IPv4_NextLayerType x, i4_Payload x)
      | LayerTypeIPv6 \<Rightarrow>
          let (err, tr, x) = IPv6_DecodeFromBytes data (ipv6 ls) in
          Some (err, tr, ls\<lparr>ipv6 := x\<rparr>, IPv6_NextLayerType x, i6_Payload x)
      | LayerTypeTCP \<Rightarrow>
          let (err, tr, x) = TCP_DecodeFromBytes data (tcp ls) in
          Some (err, tr, ls\<lparr>tcp := x\<rparr>, LayerTypePayload, t_Payload x)
      | LayerTypePayload \<Rightarrow> Some (None, False, ls\<lparr>payload := data\<rparr>, LayerTypeOther, whole [])
      | LayerTypeOther \<Rightarrow> None)"

text \<open>The loop of \<open>DecodeLayers\<close>; \<^const>\<open>None\<close> would be a loop that does not end.\<close>

partial_function (option) DecodeLayers_loop ::
  "LayerType \<Rightarrow> LayerType \<Rightarrow> gslice \<Rightarrow> Layers \<Rightarrow> LayerType list \<Rightarrow> bool \<Rightarrow>
   (decode_error option \<times> LayerType list \<times> bool \<times> Layers) option" where
  "DecodeLayers_loop first typ data ls decoded truncated =
     (if vis data = [] then Some (None, decoded, truncated, ls)
      else case layer_decoder first typ data ls of
          None \<Rightarrow> Some (Some UnsupportedLayerType, decoded, truncated, ls)
        | Some (Some err, tr, ls, _, _) \<Rightarrow> Some (Some err, decoded, truncated \<or> tr, ls)
        | Some (None, tr, ls, next, rest) \<Rightarrow> DecodeLayers_loop first next rest ls (decoded @ [typ]) (truncated \<or> tr))"

declare DecodeLayers_loop.simps [code]

definition DecodeLayers :: "LayerType \<Rightarrow> gslice \<Rightarrow> Layers \<Rightarrow> (decode_error option \<times> LayerType list \<times> bool \<times> Layers) option" where
  "DecodeLayers first data ls = DecodeLayers_loop first first data ls [] False"

declare IPv4_options.simps [simp del] TCP_options.simps [simp del] HopByHop_options.simps [simp del]

section \<open>Every packet is decoded in finitely many steps\<close>

lemma assigns_last: "\<lbrakk> assigns fs s = (True, s'); fs \<noteq> [] \<rbrakk> \<Longrightarrow> \<exists>s1. last fs s1 = Some s'"
  by (induction fs arbitrary: s) (auto split: option.splits if_splits)

lemma assigns_all: "\<lbrakk> assigns fs s = (True, s'); f \<in> set fs \<rbrakk> \<Longrightarrow> \<exists>s1 s2. f s1 = Some s2"
  by (induction fs arbitrary: s) (auto split: option.splits)

lemma IPv4_options_payload: "i4_Payload (snd (IPv4_options data ip)) = i4_Payload ip"
proof (induction "glen data" arbitrary: data ip rule: less_induct)
  case less
  then show ?case
    by (subst IPv4_options.simps) (auto simp: Let_def cut_def split: option.splits if_splits)
qed

lemma TCP_options_payload: "t_Payload (snd (TCP_options data t)) = t_Payload t"
proof (induction "length data" arbitrary: data t rule: less_induct)
  case less
  then show ?case
    by (subst TCP_options.simps) (auto simp: Let_def split: list.splits)
qed

lemma Ethernet_progress:
  "Ethernet_DecodeFromBytes data e = (None, tr, e') \<Longrightarrow> glen (eth_Payload e') < glen data"
  by (auto simp: Ethernet_DecodeFromBytes_def Let_def split: if_splits)

lemma Loopback_progress:
  "Loopback_DecodeFromBytes data l = (None, tr, l') \<Longrightarrow> glen (lo_Payload l') < glen data"
  by (auto simp: Loopback_DecodeFromBytes_def Let_def split: if_splits)

lemma Dot1Q_progress:
  assumes "Dot1Q_DecodeFromBytes data d = (None, tr, d')"
  shows "glen (dot1q_Payload d') < glen data"
  using assms
  by (auto simp: Dot1Q_DecodeFromBytes_def run_assigns_def tail_from_def byte_at_def Option.bind_eq_Some_conv
      split: option.splits if_splits)

lemma IPv4_header_first:
  assumes "assigns (IPv4_header data) ip = (True, ip')"
  shows "vis data \<noteq> []"
  using assigns_all [OF assms, of "IPv4_header data ! 1"] by (auto simp: IPv4_header_def byte_at_def)

lemma IPv4_progress:
  assumes "IPv4_DecodeFromBytes data ip = (None, tr, ip')"
  shows "glen (i4_Payload ip') < glen data"
proof (cases "assigns (IPv4_header data) ip")
  case (Pair ok ip1)
  let ?n = "IHL ip1 * 4"
  let ?kept = "if glen data < i4_Length ip1 then data
     else \<lparr>vis = take (i4_Length ip1) (vis data), spare = drop (i4_Length ip1) (vis data) @ spare data\<rparr>"
  have ok: "ok" "?n \<ge> 20" using assms Pair by (auto simp: IPv4_DecodeFromBytes_def split: if_splits bool.splits)
  let ?r = "IPv4_options \<lparr>vis = drop 20 (take ?n (vis ?kept)), spare = drop ?n (vis ?kept) @ spare ?kept\<rparr>
     (ip1\<lparr>i4_Payload := \<lparr>vis = drop ?n (vis ?kept), spare = spare ?kept\<rparr>\<rparr>)"
  have "ip' = snd ?r"
    using assms Pair ok by (auto simp: IPv4_DecodeFromBytes_def Let_def split: if_splits prod.splits)
  then have "i4_Payload ip' = \<lparr>vis = drop ?n (vis ?kept), spare = spare ?kept\<rparr>"
    by (simp only: IPv4_options_payload) simp
  moreover have "vis data \<noteq> []" using IPv4_header_first [of data ip] Pair ok by simp
  moreover have "glen ?kept \<le> glen data" "0 < glen data" using calculation by auto
  moreover have "glen (i4_Payload ip') = glen ?kept - ?n" using calculation(1) by simp
  ultimately show ?thesis using ok(2) by linarith
qed

lemma IPv6_limit_progress: "IPv6_limit n ip = (err, tr, ip') \<Longrightarrow> glen (i6_Payload ip') \<le> glen (i6_Payload ip)"
  by (auto simp: IPv6_limit_def Let_def split: if_splits)

lemma IPv6_header_payload:
  assumes "assigns (IPv6_header data) ip = (True, ip')"
  shows "glen (i6_Payload ip') < glen data"
proof -
  have "vis data \<noteq> []" using assigns_all [OF assms, of "IPv6_header data ! 0"] by (auto simp: IPv6_header_def byte_at_def)
  moreover have "i6_Payload ip' = \<lparr>vis = drop 40 (vis data), spare = spare data\<rparr>"
    using assigns_last [OF assms] by (auto simp: IPv6_header_def tail_from_def Option.bind_eq_Some_conv split: if_splits)
  ultimately show ?thesis by simp
qed

lemma IPv6_progress:
  assumes "IPv6_DecodeFromBytes data ip = (None, tr, ip')"
  shows "glen (i6_Payload ip') < glen data"
proof (cases "assigns (IPv6_header data) ip")
  case (Pair ok ip1)
  have ok: ok using assms Pair by (auto simp: IPv6_DecodeFromBytes_def split: bool.splits)
  have "\<exists>n ip2 tr. IPv6_limit n ip2 = (None, tr, ip') \<and> i6_Payload ip2 = i6_Payload ip1"
  proof (cases "NextHeader ip1 = 0")
    case True
    obtain e h where h: "HopByHop_DecodeFromBytes (i6_Payload ip1) (hbh ip1) = (e, h)" by force
    with assms Pair ok True have "e = None" by (auto simp: IPv6_DecodeFromBytes_def split: option.splits)
    with assms Pair ok True h obtain n where "IPv6_limit n (ip1\<lparr>hbh := h, HopByHop := True\<rparr>) = (None, tr, ip')"
      by (auto simp: IPv6_DecodeFromBytes_def Let_def split: option.splits sum.splits if_splits)
    then show ?thesis by (intro exI [of _ n] exI [of _ "ip1\<lparr>hbh := h, HopByHop := True\<rparr>"] exI [of _ tr]) simp
  next
    case False
    with assms Pair ok have "IPv6_limit (i6_Length ip1) ip1 = (None, tr, ip')"
      by (auto simp: IPv6_DecodeFromBytes_def split: if_splits)
    then show ?thesis by blast
  qed
  then obtain n ip2 tr where "IPv6_limit n ip2 = (None, tr, ip')" "i6_Payload ip2 = i6_Payload ip1" by blast
  then have "glen (i6_Payload ip') \<le> glen (i6_Payload ip1)" using IPv6_limit_progress by metis
  also have "\<dots> < glen data" using IPv6_header_payload [of data ip ip1] Pair ok by simp
  finally show ?thesis .
qed

lemma TCP_progress:
  assumes "TCP_DecodeFromBytes data t = (None, tr, t')"
  shows "glen (t_Payload t') < glen data"
proof (cases "assigns (TCP_header data) t")
  case (Pair ok t1)
  let ?n = "DataOffset t1 * 4"
  let ?r = "TCP_options (drop 20 (take ?n (vis data))) (t1\<lparr>t_Payload := \<lparr>vis = drop ?n (vis data), spare = spare data\<rparr>\<rparr>)"
  have ok: "ok" "?n \<ge> 20" "?n \<le> glen data" "t' = snd ?r"
    using assms Pair by (auto simp: TCP_DecodeFromBytes_def Let_def split: if_splits bool.splits prod.splits)
  then have "t_Payload t' = \<lparr>vis = drop ?n (vis data), spare = spare data\<rparr>"
    by (simp add: TCP_options_payload)
  with ok(2,3) show ?thesis by simp
qed

lemmas layer_progress = Ethernet_progress Loopback_progress Dot1Q_progress IPv4_progress IPv6_progress TCP_progress

lemma layer_decoder_progress:
  assumes "layer_decoder first typ data ls = Some (None, tr, ls', next, rest)" and "vis data \<noteq> []"
  shows "glen rest < glen data"
  using assms by (cases "typ") (auto simp: layer_decoder_def whole_def split: if_splits prod.splits dest!: layer_progress)

lemma DecodeLayers_loop_total: "\<exists>r. DecodeLayers_loop first typ data ls decoded truncated = Some r"
proof (induction "glen data" arbitrary: "typ" data ls decoded truncated rule: less_induct)
  case less
  show ?case
  proof (cases "vis data = []")
    case False
    then show ?thesis
      using less [OF layer_decoder_progress]
      by (subst DecodeLayers_loop.simps) (force split: option.splits)
  qed (subst DecodeLayers_loop.simps, simp)
qed

lemma DecodeLayers_total: "\<exists>err decoded truncated ls'. DecodeLayers first data ls = Some (err, decoded, truncated, ls')"
  using DecodeLayers_loop_total [of first first data ls "[]" False] by (auto simp: DecodeLayers_def)

end
