(* ===== verification/Frames.thy ===== *)
theory Frames
  imports Layers
begin

text \<open>
  What travels on the wire: TCP segments with options, in IPv4 or IPv6 packets, in Ethernet frames with any number of VLAN tags
  and a trailer.  The functions that build the bytes are the specification; the lemmas show that the decoders of \<open>Layers\<close>
  recover the parts, whatever the structs they write to held before.  The last section shows that addresses always
  fit into a flow.
\<close>

section \<open>Frames\<close>

definition put16 :: "nat \<Rightarrow> byte list" where
  "put16 n = [char_of (n div 256), char_of (n mod 256)]"

definition put32 :: "nat \<Rightarrow> byte list" where
  "put32 n = put16 (n div 65536) @ put16 (n mod 65536)"

lemma of_char_lt: "(of_char c :: nat) < 256"
  by (metis nat_of_char_less_256)

lemma be_put16 [simp]: "n < 65536 \<Longrightarrow> be (put16 n) = n"
  by (simp add: put16_def)

lemma be_put32 [simp]: "n < 4294967296 \<Longrightarrow> be (put32 n) = n"
  proof -
  assume "n < 4294967296"
  then have "be (put16 (n div 65536)) = n div 65536" by (intro be_put16) simp
  moreover have "be (put16 (n mod 65536)) = n mod 65536" by simp
  moreover have "be (put32 n) = be (put16 (n div 65536)) * 65536 + be (put16 (n mod 65536))"
    by (simp add: put32_def put16_def)
  ultimately show ?thesis by simp
qed

lemma length_put16 [simp]: "length (put16 n) = 2" and length_put32 [simp]: "length (put32 n) = 4"
  by (simp_all add: put16_def put32_def)

definition ip4_header :: "byte \<Rightarrow> nat \<Rightarrow> nat \<Rightarrow> byte \<Rightarrow> nat \<Rightarrow> byte list \<Rightarrow> byte list \<Rightarrow> nat \<Rightarrow> byte list" where
  "ip4_header tos ident frag ttl csum src dst n =
     [CHR 0x45, tos] @ put16 (20 + n) @ put16 ident @ put16 frag @ [ttl, CHR 0x06] @ put16 csum @ src @ dst"

lemma list4: "length xs = 4 \<Longrightarrow> \<exists>a b c d. xs = [a, b, c, d]"
  by (auto simp: length_Suc_conv eval_nat_numeral)

lemma IPv4_header_frame:
  assumes "length src = 4" and "length dst = 4" and "n \<le> 65515" and "frag < 65536"
  shows "\<exists>ip'. assigns (IPv4_header \<lparr>vis = ip4_header tos ident frag ttl csum src dst n @ rest, spare = sp\<rparr>) ip = (True, ip') \<and>
     i4_SrcIP ip' = src \<and> i4_DstIP ip' = dst \<and> i4_Length ip' = 20 + n \<and> IHL ip' = 5 \<and> i4_Flags ip' = frag div 8192 \<and> FragOffset ip' = frag mod 8192 \<and> Protocol ip' = 6"
  using list4 [OF assms(1)] list4 [OF assms(2)] assms(3,4)
  by (auto simp add: ip4_header_def put16_def IPv4_header_def cut_def byte_at_def be_at_def)

lemma IPv4_decode_frame:
  assumes "length src = 4" and "length dst = 4" and "length body \<le> 65515" and "frag < 65536"
  shows "\<exists>ip'. IPv4_DecodeFromBytes \<lparr>vis = ip4_header tos ident frag ttl csum src dst (length body) @ body @ trailer, spare = sp\<rparr> ip = (None, False, ip') \<and>
     i4_SrcIP ip' = src \<and> i4_DstIP ip' = dst \<and> IPv4_NextLayerType ip' = (if flag 0 (frag div 8192) \<or> frag mod 8192 \<noteq> 0 then LayerTypeOther else LayerTypeTCP) \<and>
     i4_Payload ip' = \<lparr>vis = body, spare = trailer @ sp\<rparr>"
proof -
  have "length (ip4_header tos ident frag ttl csum src dst (length body)) = 20" using assms by (simp add: ip4_header_def)
  with IPv4_header_frame [OF assms, of tos ident ttl csum "body @ trailer" sp ip] show ?thesis
    by (fastforce simp add: IPv4_DecodeFromBytes_def Let_def IPv4_options.simps IPv4_NextLayerType_def IPProtocol_LayerType_def)
qed

definition ip6_header :: "byte list \<Rightarrow> byte \<Rightarrow> byte list \<Rightarrow> byte list \<Rightarrow> nat \<Rightarrow> byte list" where
  "ip6_header label hops src dst n = label @ put16 n @ [CHR 0x06, hops] @ src @ dst"

lemma cut_append: "\<lbrakk> length a = i; length x = n \<rbrakk> \<Longrightarrow> cut i (i + n) \<lparr>vis = a @ x @ b, spare = sp\<rparr> = Some \<lparr>vis = x, spare = b @ sp\<rparr>"
  by (auto simp: cut_def)

lemma IPv6_header_frame:
  assumes "length label = 4" and "length src = 16" and "length dst = 16" and "n < 65536"
  shows "\<exists>ip'. assigns (IPv6_header \<lparr>vis = ip6_header label hops src dst n @ rest, spare = sp\<rparr>) ip = (True, ip') \<and>
     i6_SrcIP ip' = src \<and> i6_DstIP ip' = dst \<and> i6_Length ip' = n \<and> NextHeader ip' = 6 \<and> \<not> HopByHop ip' \<and>
     i6_Payload ip' = \<lparr>vis = rest, spare = sp\<rparr>"
proof -
  let ?d = "\<lparr>vis = ip6_header label hops src dst n @ rest, spare = sp\<rparr>"
  obtain a b c d where l: "label = [a, b, c, d]" using list4 [OF assms(1)] by blast
  have "cut 8 24 ?d = Some \<lparr>vis = src, spare = dst @ rest @ sp\<rparr>"
    using cut_append [of "label @ put16 n @ [CHR 0x06, hops]" 8 src 16 "dst @ rest" sp] assms by (simp add: ip6_header_def)
  moreover have "cut 24 40 ?d = Some \<lparr>vis = dst, spare = rest @ sp\<rparr>"
    using cut_append [of "label @ put16 n @ [CHR 0x06, hops] @ src" 24 dst 16 "rest" sp] assms by (simp add: ip6_header_def)
  moreover have "tail_from 40 ?d = Some \<lparr>vis = rest, spare = sp\<rparr>" "cut 0 40 ?d \<noteq> None"
    using assms by (simp_all add: tail_from_def ip6_header_def cut_def)
  moreover have "byte_at ?d 0 \<noteq> None" "be_at 0 2 ?d \<noteq> None" "be_at 0 4 ?d \<noteq> None" "be_at 4 2 ?d = Some n" "byte_at ?d 6 = Some 6" "byte_at ?d 7 \<noteq> None"
    using assms(4) by (simp_all add: l ip6_header_def put16_def byte_at_def be_at_def cut_def)
  ultimately show ?thesis by (auto simp: IPv6_header_def)
qed

lemma IPv6_decode_frame:
  assumes "length label = 4" and "length src = 16" and "length dst = 16" and "length body < 65536" and "body \<noteq> []"
  shows "\<exists>ip'. IPv6_DecodeFromBytes \<lparr>vis = ip6_header label hops src dst (length body) @ body @ trailer, spare = sp\<rparr> ip = (None, False, ip') \<and>
     i6_SrcIP ip' = src \<and> i6_DstIP ip' = dst \<and> IPv6_NextLayerType ip' = LayerTypeTCP \<and>
     i6_Payload ip' = \<lparr>vis = body, spare = trailer @ sp\<rparr>"
  using IPv6_header_frame [OF assms(1-4), of hops "body @ trailer" sp ip] assms(5)
  by (fastforce simp add: IPv6_DecodeFromBytes_def IPv6_limit_def Let_def IPv6_NextLayerType_def IPProtocol_LayerType_def)

text \<open>TCP options, a one-byte filler or a kind with data.\<close>

datatype tcp_option = Nop | Opt byte "byte list"

fun option_bytes :: "tcp_option \<Rightarrow> byte list" where
  "option_bytes Nop = [CHR 0x01]"
| "option_bytes (Opt k bs) = k # char_of (length bs + 2) # bs"

fun option_ok :: "tcp_option \<Rightarrow> bool" where
  "option_ok Nop = True"
| "option_ok (Opt k bs) \<longleftrightarrow> of_char k \<ge> (2 :: nat) \<and> length bs \<le> 253"

lemma TCP_options_bytes:
  "list_all option_ok os \<Longrightarrow> \<exists>t'. TCP_options (concat (map option_bytes os)) t = (None, t') \<and> (\<exists>xs. t' = t\<lparr>t_Options := xs\<rparr>)"
proof (induction os arbitrary: t)
  case Nil
  show ?case by (subst TCP_options.simps) (auto intro: exI [of _ "t_Options t"])
next
  case (Cons opt os)
  show ?case
  proof (cases opt)
    case Nop
    with Cons.IH [of "t\<lparr>t_Options := t_Options t @ [\<lparr>OptionType = 1, OptionLength = 1, OptionData = []\<rparr>]\<rparr>"] Cons.prems show ?thesis
      by (subst TCP_options.simps) auto
  next
    case (Opt k bs)
    with Cons.prems have k: "of_char k \<noteq> (0::nat)" "of_char k \<noteq> (1::nat)" "length bs \<le> 253" by auto
    then have n: "(of_char (char_of (length bs + 2) :: char) :: nat) = length bs + 2" by simp
    let ?t = "t\<lparr>t_Options := t_Options t @ [\<lparr>OptionType = of_char k, OptionLength = length bs + 2, OptionData = bs\<rparr>]\<rparr>"
    have "TCP_options (concat (map option_bytes (opt # os))) t = TCP_options (concat (map option_bytes os)) ?t"
      using k n Opt by (subst TCP_options.simps) (simp add: Let_def)
    with Cons.IH [of ?t] Cons.prems show ?thesis by auto
  qed
qed

text \<open>A TCP segment as it travels.\<close>

record segment =
  src_port :: nat
  dst_port :: nat
  seq_no :: nat
  ack_no :: nat
  flag_bits :: byte
  window :: nat
  checksum :: nat
  urgent :: nat
  options :: "tcp_option list"
  content :: "byte list"

definition segment_ok :: "segment \<Rightarrow> bool" where
  "segment_ok s \<longleftrightarrow> src_port s < 65536 \<and> dst_port s < 65536 \<and> seq_no s < 4294967296 \<and> ack_no s < 4294967296 \<and>
     list_all option_ok (options s) \<and> 4 dvd length (concat (map option_bytes (options s))) \<and>
     length (concat (map option_bytes (options s))) \<le> 40 \<and> length (content s) \<le> 65000"

definition segment_bytes :: "segment \<Rightarrow> byte list" where
  "segment_bytes s =
     (let opts = concat (map option_bytes (options s)) in
      put16 (src_port s) @ put16 (dst_port s) @ put32 (seq_no s) @ put32 (ack_no s) @
      [char_of ((5 + length opts div 4) * 16), flag_bits s] @ put16 (window s) @ put16 (checksum s) @ put16 (urgent s) @
      opts @ content s)"

definition tcp_of :: "TCP \<Rightarrow> segment \<Rightarrow> bool" where
  "tcp_of t s \<longleftrightarrow> SrcPort t = src_port s \<and> DstPort t = dst_port s \<and> sPort t = put16 (src_port s) \<and> dPort t = put16 (dst_port s) \<and>
     Seq t = seq_no s \<and> Ack t = ack_no s \<and> FIN t = flag 0 (of_char (flag_bits s)) \<and> SYN t = flag 1 (of_char (flag_bits s)) \<and>
     RST t = flag 2 (of_char (flag_bits s)) \<and> vis (t_Payload t) = content s"

lemma TCP_header_frame:
  assumes "segment_ok s"
  shows "\<exists>t'. assigns (TCP_header \<lparr>vis = segment_bytes s, spare = sp\<rparr>) t = (True, t') \<and>
     SrcPort t' = src_port s \<and> DstPort t' = dst_port s \<and> sPort t' = put16 (src_port s) \<and> dPort t' = put16 (dst_port s) \<and>
     Seq t' = seq_no s \<and> Ack t' = ack_no s \<and> FIN t' = flag 0 (of_char (flag_bits s)) \<and> SYN t' = flag 1 (of_char (flag_bits s)) \<and>
     RST t' = flag 2 (of_char (flag_bits s)) \<and> DataOffset t' * 4 = 20 + length (concat (map option_bytes (options s)))"
proof -
  let ?o = "concat (map option_bytes (options s))"
  let ?d = "\<lparr>vis = segment_bytes s, spare = sp\<rparr>"
  let ?pre = "put16 (src_port s) @ put16 (dst_port s) @ put32 (seq_no s) @ put32 (ack_no s)"
  let ?post = "put16 (window s) @ put16 (checksum s) @ put16 (urgent s) @ ?o @ content s"
  let ?off = "char_of ((5 + length ?o div 4) * 16) :: char"
  have vis: "segment_bytes s = ?pre @ [?off, flag_bits s] @ ?post" by (simp add: segment_bytes_def Let_def)
  have "length ?o \<le> 40" using assms by (simp add: segment_ok_def)
  then have "length ?o div 4 \<le> 10" by simp
  then have off: "(of_char ?off :: nat) = (5 + length ?o div 4) * 16" by simp
  have "cut 0 2 ?d = Some \<lparr>vis = put16 (src_port s), spare = drop 2 (segment_bytes s) @ sp\<rparr>"
    and "cut 2 4 ?d = Some \<lparr>vis = put16 (dst_port s), spare = drop 4 (segment_bytes s) @ sp\<rparr>"
    by (simp_all add: cut_def vis)
  moreover have "be_at 0 2 ?d = Some (src_port s)" "be_at 2 2 ?d = Some (dst_port s)" "be_at 4 4 ?d = Some (seq_no s)" "be_at 8 4 ?d = Some (ack_no s)"
    "be_at 14 2 ?d \<noteq> None" "be_at 16 2 ?d \<noteq> None" "be_at 18 2 ?d \<noteq> None"
    using assms by (simp_all add: be_at_def cut_def vis segment_ok_def)
  moreover have "byte_at ?d 12 = Some ((5 + length ?o div 4) * 16)" "byte_at ?d 13 = Some (of_char (flag_bits s))"
    using off by (simp_all add: byte_at_def vis nth_append)
  moreover have "(5 + length ?o div 4) * 16 div 16 * 4 = 20 + length ?o" using assms by (auto simp: segment_ok_def)
  ultimately show ?thesis using assms by (auto simp: TCP_header_def segment_ok_def)
qed

lemma TCP_decode_frame:
  assumes "segment_ok s"
  shows "\<exists>t'. TCP_DecodeFromBytes \<lparr>vis = segment_bytes s, spare = sp\<rparr> t = (None, False, t') \<and> tcp_of t' s"
proof -
  let ?o = "concat (map option_bytes (options s))"
  obtain t1 where t1: "assigns (TCP_header \<lparr>vis = segment_bytes s, spare = sp\<rparr>) t = (True, t1)"
    "SrcPort t1 = src_port s" "DstPort t1 = dst_port s" "sPort t1 = put16 (src_port s)" "dPort t1 = put16 (dst_port s)"
    "Seq t1 = seq_no s" "Ack t1 = ack_no s" "FIN t1 = flag 0 (of_char (flag_bits s))" "SYN t1 = flag 1 (of_char (flag_bits s))"
    "RST t1 = flag 2 (of_char (flag_bits s))" "DataOffset t1 * 4 = 20 + length ?o"
    using TCP_header_frame [OF assms, of sp t] by blast
  have len: "length (segment_bytes s) = 20 + length ?o + length (content s)" by (simp add: segment_bytes_def Let_def)
  have "\<exists>h. length h = 20 \<and> segment_bytes s = h @ ?o @ content s"
    by (rule exI [of _ "put16 (src_port s) @ put16 (dst_port s) @ put32 (seq_no s) @ put32 (ack_no s) @
        [char_of ((5 + length ?o div 4) * 16), flag_bits s] @ put16 (window s) @ put16 (checksum s) @ put16 (urgent s)"])
      (simp add: segment_bytes_def Let_def)
  then have "drop 20 (take (20 + length ?o) (segment_bytes s)) = ?o" "drop (20 + length ?o) (segment_bytes s) = content s"
    by auto
  moreover obtain t2 xs where "TCP_options ?o (t1\<lparr>t_Payload := \<lparr>vis = content s, spare = sp\<rparr>\<rparr>) = (None, t2)"
      "t2 = t1\<lparr>t_Payload := \<lparr>vis = content s, spare = sp\<rparr>, t_Options := xs\<rparr>"
    using TCP_options_bytes [of "options s" "t1\<lparr>t_Payload := \<lparr>vis = content s, spare = sp\<rparr>\<rparr>"] assms by (auto simp: segment_ok_def)
  ultimately show ?thesis using t1 len by (simp add: TCP_DecodeFromBytes_def Let_def tcp_of_def)
qed

text \<open>An IP packet with a segment, and a frame that carries it behind any number of VLAN tags; a trailer may follow.\<close>

datatype packet =
    V4 byte nat nat byte nat "byte list" "byte list"
  | V6 "byte list" byte "byte list" "byte list"

fun packet_ok :: "packet \<Rightarrow> bool" where
  "packet_ok (V4 tos ident frag ttl csum src dst) \<longleftrightarrow> length src = 4 \<and> length dst = 4 \<and> (frag = 0 \<or> frag = 0x4000)"
| "packet_ok (V6 label hops src dst) \<longleftrightarrow> length label = 4 \<and> length src = 16 \<and> length dst = 16"

fun packet_bytes :: "packet \<Rightarrow> byte list \<Rightarrow> byte list" where
  "packet_bytes (V4 tos ident frag ttl csum src dst) body = ip4_header tos ident frag ttl csum src dst (length body) @ body"
| "packet_bytes (V6 label hops src dst) body = ip6_header label hops src dst (length body) @ body"

fun packet_type :: "packet \<Rightarrow> nat" where
  "packet_type (V4 tos ident frag ttl csum src dst) = 0x0800"
| "packet_type (V6 label hops src dst) = 0x86DD"

fun packet_layer :: "packet \<Rightarrow> LayerType" where
  "packet_layer (V4 tos ident frag ttl csum src dst) = LayerTypeIPv4"
| "packet_layer (V6 label hops src dst) = LayerTypeIPv6"

fun packet_flow :: "packet \<Rightarrow> Flow option" where
  "packet_flow (V4 tos ident frag ttl csum src dst) = NewFlow EndpointIPv4 src dst"
| "packet_flow (V6 label hops src dst) = NewFlow EndpointIPv6 src dst"

fun tagged :: "nat list \<Rightarrow> nat \<Rightarrow> byte list \<Rightarrow> byte list" where
  "tagged [] next_type body = put16 next_type @ body"
| "tagged (tci # tcis) next_type body = put16 0x8100 @ put16 tci @ tagged tcis next_type body"

definition frame_bytes :: "byte list \<Rightarrow> nat list \<Rightarrow> packet \<Rightarrow> segment \<Rightarrow> byte list \<Rightarrow> byte list" where
  "frame_bytes macs tcis pkt s trailer = macs @ tagged tcis (packet_type pkt) (packet_bytes pkt (segment_bytes s) @ trailer)"

definition segment_layers :: "segment \<Rightarrow> LayerType list" where
  "segment_layers s = LayerTypeTCP # (if content s = [] then [] else [LayerTypePayload])"

definition holds_packet :: "Layers \<Rightarrow> packet \<Rightarrow> segment \<Rightarrow> bool" where
  "holds_packet ls pkt s \<longleftrightarrow> tcp_of (tcp ls) s \<and>
     (case pkt of V4 _ _ _ _ _ _ _ \<Rightarrow> IPv4_NetworkFlow (ipv4 ls) = packet_flow pkt | V6 _ _ _ _ \<Rightarrow> IPv6_NetworkFlow (ipv6 ls) = packet_flow pkt)"

lemma loop_TCP:
  assumes "segment_ok s"
  shows "\<exists>ls'. DecodeLayers_loop first LayerTypeTCP \<lparr>vis = segment_bytes s, spare = sp\<rparr> ls decoded tr =
      Some (None, decoded @ segment_layers s, tr, ls') \<and> tcp_of (tcp ls') s \<and> ipv4 ls' = ipv4 ls \<and> ipv6 ls' = ipv6 ls"
proof -
  obtain t where t: "TCP_DecodeFromBytes \<lparr>vis = segment_bytes s, spare = sp\<rparr> (tcp ls) = (None, False, t)" "tcp_of t s"
    using TCP_decode_frame [OF assms] by blast
  have "segment_bytes s \<noteq> []" by (simp add: segment_bytes_def Let_def put16_def)
  with t show ?thesis
    by (subst DecodeLayers_loop.simps, simp add: layer_decoder_def, subst DecodeLayers_loop.simps)
      (auto simp: tcp_of_def segment_layers_def layer_decoder_def whole_def DecodeLayers_loop.simps [of _ LayerTypeOther])
qed

lemma segment_bytes_length: "length (segment_bytes s) = 20 + length (concat (map option_bytes (options s))) + length (content s)"
  by (simp add: segment_bytes_def Let_def)

lemma loop_packet:
  assumes "segment_ok s" and "packet_ok pkt"
  shows "\<exists>ls'. DecodeLayers_loop first (packet_layer pkt) \<lparr>vis = packet_bytes pkt (segment_bytes s) @ trailer, spare = sp\<rparr> ls decoded tr =
      Some (None, decoded @ packet_layer pkt # segment_layers s, tr, ls') \<and> holds_packet ls' pkt s"
proof -
  have len: "length (segment_bytes s) \<le> 65515" "segment_bytes s \<noteq> []"
    using assms(1) segment_bytes_length [of s] by (auto simp: segment_ok_def)
  show ?thesis
  proof (cases pkt)
    case (V4 tos ident frag ttl csum src dst)
    then obtain ip where ip: "IPv4_DecodeFromBytes \<lparr>vis = packet_bytes pkt (segment_bytes s) @ trailer, spare = sp\<rparr> (ipv4 ls) = (None, False, ip)"
      "i4_SrcIP ip = src" "i4_DstIP ip = dst" "IPv4_NextLayerType ip = LayerTypeTCP" "i4_Payload ip = \<lparr>vis = segment_bytes s, spare = trailer @ sp\<rparr>"
      using IPv4_decode_frame [of src dst "segment_bytes s" frag tos ident ttl csum trailer sp "ipv4 ls"] assms(2) len by (auto simp: flag_def)
    obtain ls' where "DecodeLayers_loop first LayerTypeTCP \<lparr>vis = segment_bytes s, spare = trailer @ sp\<rparr> (ls\<lparr>ipv4 := ip\<rparr>) (decoded @ [LayerTypeIPv4]) tr =
      Some (None, decoded @ LayerTypeIPv4 # segment_layers s, tr, ls')" "tcp_of (tcp ls') s" "ipv4 ls' = ip"
      using loop_TCP [OF assms(1), of first "trailer @ sp" "ls\<lparr>ipv4 := ip\<rparr>" "decoded @ [LayerTypeIPv4]" tr] by auto
    with ip V4 len show ?thesis
      by (subst DecodeLayers_loop.simps) (auto simp: layer_decoder_def holds_packet_def IPv4_NetworkFlow_def)
  next
    case (V6 label hops src dst)
    then obtain ip where ip: "IPv6_DecodeFromBytes \<lparr>vis = packet_bytes pkt (segment_bytes s) @ trailer, spare = sp\<rparr> (ipv6 ls) = (None, False, ip)"
      "i6_SrcIP ip = src" "i6_DstIP ip = dst" "IPv6_NextLayerType ip = LayerTypeTCP" "i6_Payload ip = \<lparr>vis = segment_bytes s, spare = trailer @ sp\<rparr>"
      using IPv6_decode_frame [of label src dst "segment_bytes s" hops trailer sp "ipv6 ls"] assms(2) len by auto
    obtain ls' where "DecodeLayers_loop first LayerTypeTCP \<lparr>vis = segment_bytes s, spare = trailer @ sp\<rparr> (ls\<lparr>ipv6 := ip\<rparr>) (decoded @ [LayerTypeIPv6]) tr =
      Some (None, decoded @ LayerTypeIPv6 # segment_layers s, tr, ls')" "tcp_of (tcp ls') s" "ipv6 ls' = ip"
      using loop_TCP [OF assms(1), of first "trailer @ sp" "ls\<lparr>ipv6 := ip\<rparr>" "decoded @ [LayerTypeIPv6]" tr] by auto
    with ip V6 len show ?thesis
      by (subst DecodeLayers_loop.simps) (auto simp: layer_decoder_def holds_packet_def IPv6_NetworkFlow_def)
  qed
qed

definition tag_type :: "nat list \<Rightarrow> nat \<Rightarrow> nat" where
  "tag_type tcis t = (if tcis = [] then t else 0x8100)"

lemma tagged_split: "tagged tcis t body = put16 (tag_type tcis t) @ drop 2 (tagged tcis t body)"
  by (cases tcis) (simp_all add: tag_type_def put16_def)

lemma Dot1Q_decode_frame:
  assumes "t < 65536"
  shows "\<exists>d'. Dot1Q_DecodeFromBytes \<lparr>vis = put16 tci @ put16 t @ rest, spare = sp\<rparr> d = (None, False, d') \<and>
    Dot1Q_Type d' = t \<and> dot1q_Payload d' = \<lparr>vis = rest, spare = sp\<rparr>"
  using assms by (simp add: Dot1Q_DecodeFromBytes_def run_assigns_def byte_at_def be_at_def cut_def tail_from_def put16_def)

lemma packet_type_lt: "packet_type pkt < 65536" and packet_type_big: "\<not> packet_type pkt < 1536"
  and packet_type_layer: "EthernetType_LayerType (packet_type pkt) = packet_layer pkt"
  by (cases pkt; simp add: EthernetType_LayerType_def)+

lemma loop_tagged:
  assumes "segment_ok s" and "packet_ok pkt"
  shows "\<exists>ls'. DecodeLayers_loop first (EthernetType_LayerType (tag_type tcis (packet_type pkt)))
        \<lparr>vis = drop 2 (tagged tcis (packet_type pkt) (packet_bytes pkt (segment_bytes s) @ trailer)), spare = sp\<rparr> ls decoded tr =
      Some (None, decoded @ replicate (length tcis) LayerTypeDot1Q @ packet_layer pkt # segment_layers s, tr, ls') \<and> holds_packet ls' pkt s"
proof (induction tcis arbitrary: ls decoded)
  case Nil
  show ?case using loop_packet [OF assms, of first trailer sp ls decoded tr] by (simp add: tag_type_def packet_type_layer)
next
  case (Cons tci tcis)
  let ?body = "packet_bytes pkt (segment_bytes s) @ trailer"
  let ?rest = "\<lparr>vis = drop 2 (tagged tcis (packet_type pkt) ?body), spare = sp\<rparr>"
  have vis: "drop 2 (tagged (tci # tcis) (packet_type pkt) ?body) = put16 tci @ put16 (tag_type tcis (packet_type pkt)) @ vis ?rest"
    using tagged_split [of tcis "packet_type pkt" ?body] by simp
  have "tag_type tcis (packet_type pkt) < 65536" using packet_type_lt [of pkt] by (simp add: tag_type_def)
  then obtain d where d: "Dot1Q_DecodeFromBytes \<lparr>vis = put16 tci @ put16 (tag_type tcis (packet_type pkt)) @ vis ?rest, spare = sp\<rparr> (dot1q ls) = (None, False, d)"
    "Dot1Q_Type d = tag_type tcis (packet_type pkt)" "dot1q_Payload d = ?rest"
    using Dot1Q_decode_frame [of "tag_type tcis (packet_type pkt)" tci "vis ?rest" sp "dot1q ls"] by auto
  have "EthernetType_LayerType (tag_type (tci # tcis) (packet_type pkt)) = LayerTypeDot1Q"
    by (simp add: tag_type_def EthernetType_LayerType_def)
  with d Cons.IH [of "ls\<lparr>dot1q := d\<rparr>" "decoded @ [LayerTypeDot1Q]"] show ?case
    unfolding vis by (subst DecodeLayers_loop.simps) (simp add: layer_decoder_def Dot1Q_NextLayerType_def put16_def)
qed

lemma Ethernet_decode_frame:
  assumes "length macs = 12" and "t < 65536" and "\<not> t < 1536"
  shows "\<exists>e'. Ethernet_DecodeFromBytes \<lparr>vis = macs @ put16 t @ rest, spare = sp\<rparr> e = (None, False, e') \<and>
    EthernetType e' = t \<and> eth_Payload e' = \<lparr>vis = rest, spare = sp\<rparr>"
  using assms by (auto simp add: Ethernet_DecodeFromBytes_def Let_def)

lemma DecodeLayers_frame:
  assumes "segment_ok s" and "packet_ok pkt" and "length macs = 12"
  shows "\<exists>ls'. DecodeLayers LayerTypeEthernet (whole (frame_bytes macs tcis pkt s trailer)) ls =
      Some (None, LayerTypeEthernet # replicate (length tcis) LayerTypeDot1Q @ packet_layer pkt # segment_layers s, False, ls') \<and>
      holds_packet ls' pkt s"
proof -
  let ?t = "tag_type tcis (packet_type pkt)"
  let ?rest = "drop 2 (tagged tcis (packet_type pkt) (packet_bytes pkt (segment_bytes s) @ trailer))"
  have f: "frame_bytes macs tcis pkt s trailer = macs @ put16 ?t @ ?rest"
    unfolding frame_bytes_def by (subst tagged_split) simp
  have "?t < 65536" "\<not> ?t < 1536" using packet_type_lt [of pkt] packet_type_big [of pkt] by (simp_all add: tag_type_def)
  then obtain e where "Ethernet_DecodeFromBytes \<lparr>vis = macs @ put16 ?t @ ?rest, spare = []\<rparr> (ether ls) = (None, False, e)"
    "EthernetType e = ?t" "eth_Payload e = \<lparr>vis = ?rest, spare = []\<rparr>"
    using Ethernet_decode_frame [OF assms(3), of ?t ?rest "[]" "ether ls"] by auto
  with assms(3) loop_tagged [OF assms(1,2), of LayerTypeEthernet tcis trailer "[]" "ls\<lparr>ether := e\<rparr>" "[LayerTypeEthernet]" False] show ?thesis
    unfolding DecodeLayers_def f whole_def
    by (subst DecodeLayers_loop.simps) (auto simp: layer_decoder_def Ethernet_NextLayerType_def)
qed

section \<open>Addresses always fit into a flow\<close>

text \<open>A TCP header that says anything has its two ports.\<close>

definition ports_ok :: "TCP \<Rightarrow> bool" where
  "ports_ok t \<longleftrightarrow> length (sPort t) \<le> 16 \<and> length (dPort t) \<le> 16 \<and> Seq t < 4294967296 \<and>
     (SYN t \<or> FIN t \<or> RST t \<or> vis (t_Payload t) \<noteq> [] \<longrightarrow> length (sPort t) = 2 \<and> length (dPort t) = 2)"

text \<open>Whatever is decoded, the addresses and ports in the structs are short enough for \<open>NewFlow\<close>.\<close>

definition layers_ok :: "Layers \<Rightarrow> bool" where
  "layers_ok ls \<longleftrightarrow> length (i4_SrcIP (ipv4 ls)) \<le> 16 \<and> length (i4_DstIP (ipv4 ls)) \<le> 16 \<and>
     length (i6_SrcIP (ipv6 ls)) \<le> 16 \<and> length (i6_DstIP (ipv6 ls)) \<le> 16 \<and> ports_ok (tcp ls)"

lemma assigns_inv:
  assumes "list_all (\<lambda>f. \<forall>s s'. P s \<longrightarrow> f s = Some s' \<longrightarrow> P s') fs" and "P s"
  shows "P (snd (assigns fs s))"
  using assms by (induction fs arbitrary: s) (auto split: option.splits)

lemma IPv4_options_addr:
  "i4_SrcIP (snd (IPv4_options data ip)) = i4_SrcIP ip \<and> i4_DstIP (snd (IPv4_options data ip)) = i4_DstIP ip"
proof (induction "glen data" arbitrary: data ip rule: less_induct)
  case less
  then show ?case
    by (subst (1 2) IPv4_options.simps) (auto simp: Let_def cut_def split: option.splits if_splits)
qed

lemma TCP_options_keep:
  "sPort (snd (TCP_options data t)) = sPort t \<and> dPort (snd (TCP_options data t)) = dPort t \<and>
   Seq (snd (TCP_options data t)) = Seq t \<and> SYN (snd (TCP_options data t)) = SYN t \<and> FIN (snd (TCP_options data t)) = FIN t \<and>
   RST (snd (TCP_options data t)) = RST t \<and> t_Payload (snd (TCP_options data t)) = t_Payload t"
proof (induction "length data" arbitrary: data t rule: less_induct)
  case less
  obtain t' where t': "t' = snd (TCP_options data t)" by simp
  have "sPort t' = sPort t \<and> dPort t' = dPort t \<and> Seq t' = Seq t \<and> SYN t' = SYN t \<and> FIN t' = FIN t \<and> RST t' = RST t \<and> t_Payload t' = t_Payload t"
    unfolding t' by (subst (1 2 3 4 5 6 7) TCP_options.simps) (simp add: Let_def less.hyps split: list.splits)
  then show ?case by (simp add: t')
qed

lemma TCP_options_ports: "ports_ok (snd (TCP_options data t)) = ports_ok t"
  using TCP_options_keep [of data t] by (simp add: ports_ok_def)

lemma assigns_append:
  "assigns (fs @ gs) s = (case assigns fs s of (False, s') \<Rightarrow> (False, s') | (True, s') \<Rightarrow> assigns gs s')"
  by (induction fs arbitrary: s) (auto split: option.splits)

lemma assigns_establish:
  assumes "fst (assigns fs s)" and "fs = xs @ f # ys" and "\<And>s s'. f s = Some s' \<Longrightarrow> P s'"
    and "list_all (\<lambda>f. \<forall>s s'. P s \<longrightarrow> f s = Some s' \<longrightarrow> P s') ys"
  shows "P (snd (assigns fs s))"
proof -
  obtain s1 where s1: "assigns xs s = (True, s1)"
    using assms(1,2) by (cases "assigns xs s") (auto simp: assigns_append split: bool.splits)
  moreover obtain s2 where "f s1 = Some s2" using assms(1,2) s1 by (cases "f s1") (auto simp: assigns_append)
  ultimately show ?thesis using assms(2) assigns_inv [OF assms(4) assms(3)] by (simp add: assigns_append)
qed

abbreviation ip4_addr_ok :: "IPv4 \<Rightarrow> bool" where
  "ip4_addr_ok ip \<equiv> length (i4_SrcIP ip) \<le> 16 \<and> length (i4_DstIP ip) \<le> 16"

abbreviation ip6_addr_ok :: "IPv6 \<Rightarrow> bool" where
  "ip6_addr_ok ip \<equiv> length (i6_SrcIP ip) \<le> 16 \<and> length (i6_DstIP ip) \<le> 16"

lemma cut_short: "cut a b s = Some x \<Longrightarrow> glen x \<le> b - a"
  by (auto simp: cut_def split: if_splits)

lemma IPv4_decode_addr:
  assumes "ip4_addr_ok ip"
  shows "ip4_addr_ok (snd (snd (IPv4_DecodeFromBytes data ip)))"
proof -
  have "ip4_addr_ok (snd (assigns (IPv4_header data) ip))"
    using assms by (intro assigns_inv [where P = ip4_addr_ok]) (auto simp: IPv4_header_def dest: cut_short)
  then show ?thesis
    by (cases "assigns (IPv4_header data) ip")
      (auto simp: IPv4_DecodeFromBytes_def Let_def IPv4_options_addr case_prod_beta split: bool.splits)
qed

lemma IPv6_limit_addr [simp]:
  "i6_SrcIP (snd (snd (IPv6_limit n ip))) = i6_SrcIP ip" "i6_DstIP (snd (snd (IPv6_limit n ip))) = i6_DstIP ip"
  by (simp_all add: IPv6_limit_def Let_def)

lemma IPv6_decode_addr:
  assumes "ip6_addr_ok ip"
  shows "ip6_addr_ok (snd (snd (IPv6_DecodeFromBytes data ip)))"
proof -
  have "ip6_addr_ok (snd (assigns (IPv6_header data) ip))"
    using assms by (intro assigns_inv [where P = ip6_addr_ok]) (auto simp: IPv6_header_def Option.bind_eq_Some_conv dest: cut_short)
  then show ?thesis
    by (cases "assigns (IPv6_header data) ip")
      (auto simp: IPv6_DecodeFromBytes_def Let_def split: prod.splits bool.splits option.splits sum.splits)
qed

lemma cut_exact: "cut a b s = Some x \<Longrightarrow> length (vis x) = b - a"
  by (auto simp: cut_def split: if_splits)

lemma be_bound: "be bs < 256 ^ length bs"
proof (induction bs)
  case (Cons b bs)
  have "(of_char b :: nat) < 256" by simp
  then have "of_char b * 256 ^ length bs \<le> (255::nat) * 256 ^ length bs" by (intro mult_le_mono1) linarith
  with Cons have "of_char b * 256 ^ length bs + be bs < 255 * 256 ^ length bs + 256 ^ length bs" by linarith
  then show ?case by simp
qed simp

lemma be_at_bound: "be_at a n s = Some x \<Longrightarrow> x < 256 ^ n"
  using be_bound cut_exact by (fastforce simp: be_at_def)

lemma ports_ok_update [simp]:
  "ports_ok (t\<lparr>SrcPort := n\<rparr>) = ports_ok t" "ports_ok (t\<lparr>DstPort := n\<rparr>) = ports_ok t" "ports_ok (t\<lparr>Ack := n\<rparr>) = ports_ok t"
  "ports_ok (t\<lparr>DataOffset := n\<rparr>) = ports_ok t"
  by (simp_all add: ports_ok_def)

lemma ports_ok_set:
  "\<lbrakk> ports_ok t; length b = 2 \<rbrakk> \<Longrightarrow> ports_ok (t\<lparr>sPort := b\<rparr>)" "\<lbrakk> ports_ok t; length b = 2 \<rbrakk> \<Longrightarrow> ports_ok (t\<lparr>dPort := b\<rparr>)"
  "\<lbrakk> ports_ok t; n < 4294967296 \<rbrakk> \<Longrightarrow> ports_ok (t\<lparr>Seq := n\<rparr>)"
  by (auto simp: ports_ok_def)

lemma TCP_header_split:
  "TCP_header data = take 7 (TCP_header data) @ drop 7 (TCP_header data)"
  by simp

lemma TCP_header_ports:
  assumes "ports_ok t"
  shows "ports_ok (snd (assigns (TCP_header data) t))"
    and "fst (assigns (TCP_header data) t) \<Longrightarrow> length (sPort (snd (assigns (TCP_header data) t))) = 2 \<and>
      length (dPort (snd (assigns (TCP_header data) t))) = 2"
proof -
  let ?hd = "take 7 (TCP_header data)" and ?tl = "drop 7 (TCP_header data)"
  obtain ok t1 where t1: "assigns ?hd t = (ok, t1)" by fastforce
  have ports: "cut 0 2 data = Some x \<Longrightarrow> length (vis x) = 2" "cut 2 4 data = Some x \<Longrightarrow> length (vis x) = 2" for x
    using cut_exact [of 0 2 data x] cut_exact [of 2 4 data x] by simp_all
  have seq: "be_at 4 4 data = Some n \<Longrightarrow> n < 4294967296" for n
    using be_at_bound [of 4 4 data n] by simp
  have "ports_ok (snd (assigns ?hd t))"
    using assms by (intro assigns_inv [where P = ports_ok]) (auto simp: TCP_header_def intro!: ports_ok_set dest: ports seq)
  then have 1: "ports_ok t1" by (simp add: t1)
  have 2: "ok \<Longrightarrow> length (sPort t1) = 2 \<and> length (dPort t1) = 2"
  proof
    assume "ok"
    then have fst: "fst (assigns ?hd t)" by (simp add: t1)
    have "length (sPort (snd (assigns ?hd t))) = 2"
      by (rule assigns_establish [OF fst, where xs = "take 1 ?hd" and ys = "drop 2 ?hd"]) (auto simp: TCP_header_def dest: ports)
    moreover have "length (dPort (snd (assigns ?hd t))) = 2"
      by (rule assigns_establish [OF fst, where xs = "take 3 ?hd" and ys = "drop 4 ?hd"]) (auto simp: TCP_header_def dest: ports)
    ultimately show "length (sPort t1) = 2" "length (dPort t1) = 2" by (simp_all add: t1)
  qed
  let ?P = "\<lambda>t. Seq t < 4294967296 \<and> length (sPort t) = 2 \<and> length (dPort t) = 2"
  have P: "?P t \<Longrightarrow> ports_ok t" "ports_ok t \<Longrightarrow> Seq t < 4294967296" for t by (simp_all add: ports_ok_def)
  have 3: "ok \<Longrightarrow> ?P (snd (assigns ?tl t1))"
    using P(2) [OF 1] 2 by (intro assigns_inv [where P = ?P]) (auto simp: TCP_header_def)
  have eq: "assigns (TCP_header data) t = (if ok then assigns ?tl t1 else (False, t1))"
    by (subst TCP_header_split) (simp only: assigns_append t1, cases ok, simp_all)
  show "ports_ok (snd (assigns (TCP_header data) t))"
    "fst (assigns (TCP_header data) t) \<Longrightarrow> length (sPort (snd (assigns (TCP_header data) t))) = 2 \<and>
      length (dPort (snd (assigns (TCP_header data) t))) = 2"
    unfolding eq using 1 3 P(1) by (auto split: if_splits)
qed

lemma TCP_decode_ports:
  assumes "ports_ok t"
  shows "ports_ok (snd (snd (TCP_DecodeFromBytes data t)))"
proof -
  obtain ok t1 where t1: "assigns (TCP_header data) t = (ok, t1)" by fastforce
  with TCP_header_ports [OF assms, of data] have "ports_ok t1" "ok \<Longrightarrow> ports_ok (t1\<lparr>t_Payload := x\<rparr>)" for x
    by (auto simp: ports_ok_def)
  then show ?thesis
    by (auto simp: TCP_DecodeFromBytes_def Let_def TCP_options_ports case_prod_beta t1 split: bool.splits)
qed

lemma layer_decoder_ok:
  assumes "layer_decoder first typ data ls = Some (err, tr, ls', next, rest)" and "layers_ok ls"
  shows "layers_ok ls'"
proof (cases "typ")
  case LayerTypeIPv4
  with assms IPv4_decode_addr [of "ipv4 ls" data] show ?thesis
    by (auto simp: layer_decoder_def layers_ok_def split: prod.splits)
next
  case LayerTypeIPv6
  with assms IPv6_decode_addr [of "ipv6 ls" data] show ?thesis
    by (auto simp: layer_decoder_def layers_ok_def split: prod.splits)
next
  case LayerTypeTCP
  with assms TCP_decode_ports [of "tcp ls" data] show ?thesis
    by (auto simp: layer_decoder_def layers_ok_def split: prod.splits)
qed (use assms in \<open>auto simp: layer_decoder_def layers_ok_def split: prod.splits if_splits\<close>)

lemma DecodeLayers_loop_ok:
  assumes "DecodeLayers_loop first typ data ls decoded truncated = Some (err, decoded', truncated', ls')" and "layers_ok ls"
  shows "layers_ok ls'"
  using assms
proof (induction "glen data" arbitrary: "typ" data ls decoded truncated rule: less_induct)
  case less
  show ?case
  proof (cases "vis data = [] \<or> layer_decoder first typ data ls = None")
    case True
    then show ?thesis using less.prems by (subst (asm) DecodeLayers_loop.simps) (auto split: if_splits)
  next
    case False
    then obtain e tr ls1 nxt rest where l: "layer_decoder first typ data ls = Some (e, tr, ls1, nxt, rest)" "vis data \<noteq> []" by auto
    note ok = layer_decoder_ok [OF l(1) less.prems(2)]
    show ?thesis
    proof (cases e)
      case None
      with l layer_decoder_progress [of first "typ" data ls tr ls1 nxt rest] have "glen rest < glen data" by simp
      from less.hyps [OF this _ ok] less.prems(1) l None show ?thesis by (subst (asm) (2) DecodeLayers_loop.simps) auto
    next
      case (Some x)
      then show ?thesis using less.prems(1) l ok by (subst (asm) DecodeLayers_loop.simps) auto
    qed
  qed
qed

lemma DecodeLayers_ok:
  "\<lbrakk> DecodeLayers first data ls = Some (err, decoded, truncated, ls'); layers_ok ls \<rbrakk> \<Longrightarrow> layers_ok ls'"
  unfolding DecodeLayers_def by (rule DecodeLayers_loop_ok)

lemma layers_ok_flows:
  assumes "layers_ok ls"
  shows "\<exists>f. IPv4_NetworkFlow (ipv4 ls) = Some f \<and> flow_ok f" and "\<exists>f. IPv6_NetworkFlow (ipv6 ls) = Some f \<and> flow_ok f"
    and "\<exists>f. TCP_TransportFlow (tcp ls) = Some f \<and> flow_ok f"
proof -
  have "\<exists>f. NewFlow t a b = Some f \<and> flow_ok f" if "length a \<le> 16" "length b \<le> 16" for t a b
    using that NewFlow_ok [of t a b] by (auto simp: NewFlow_def MaxEndpointSize_def)
  then show "\<exists>f. IPv4_NetworkFlow (ipv4 ls) = Some f \<and> flow_ok f" "\<exists>f. IPv6_NetworkFlow (ipv6 ls) = Some f \<and> flow_ok f"
    "\<exists>f. TCP_TransportFlow (tcp ls) = Some f \<and> flow_ok f"
    using assms by (simp_all add: IPv4_NetworkFlow_def IPv6_NetworkFlow_def TCP_TransportFlow_def layers_ok_def ports_ok_def)
qed

end
