(* ===== verification/PacketBuffer.thy ===== *)
theory PacketBuffer
  imports Prelude
begin

text \<open>
  The packed packet store of \<^verbatim>\<open>capture/packetbuffer.go\<close>: a byte area and the end offset of every block in it.  It implements a
  bounded list of packets; the locale \<open>packet_store\<close> states that interface for the clients in \<^verbatim>\<open>capture.go\<close>, \<^verbatim>\<open>replay.go\<close> and
  \<^verbatim>\<open>decode/decode.go\<close>.  Times are nanoseconds since Go's zero time.
\<close>

section \<open>Data\<close>

record CaptureInfo =
  Timestamp :: int
  CaptureLength :: int
  Length :: int
  InterfaceIndex :: int

record PacketData =
  Info :: CaptureInfo
  Data :: "byte list"

datatype buffer_error = ErrBytesFull | ErrBlocksFull

record BlockBuffer =
  offsets :: "int list"
  offsetsCap :: nat
  bytes :: "byte list"
  bytesCap :: nat

definition NewBlockBuffer :: "nat \<Rightarrow> nat \<Rightarrow> BlockBuffer" where
  "NewBlockBuffer maxBlocks maxBytes = \<lparr>offsets = [], offsetsCap = maxBlocks, bytes = [], bytesCap = maxBytes\<rparr>"

definition BytesRemaining :: "('z) BlockBuffer_scheme \<Rightarrow> int" where
  "BytesRemaining b = int (bytesCap b) - int (length (bytes b))"

text \<open>\<open>b.data[start:end:end]\<close>, a panic when the bounds are out of range.\<close>

definition slice :: "int \<Rightarrow> int \<Rightarrow> 'a list \<Rightarrow> 'a list option" where
  "slice start stop xs =
     (if 0 \<le> start \<and> start \<le> stop \<and> stop \<le> int (length xs) then Some (drop (nat start) (take (nat stop) xs)) else None)"

definition Block :: "('z) BlockBuffer_scheme \<Rightarrow> int \<Rightarrow> byte list option" where
  "Block b n =
     do { start \<leftarrow> (if n > 0 then index_at (offsets b) (n - 1) else Some 0);
          stop \<leftarrow> index_at (offsets b) n;
          slice start stop (bytes b) }"

definition BlockLen :: "('z) BlockBuffer_scheme \<Rightarrow> int" where
  "BlockLen b = int (length (offsets b))"

definition Block_Clear :: "('z) BlockBuffer_scheme \<Rightarrow> ('z) BlockBuffer_scheme" where
  "Block_Clear b = b\<lparr>offsets := [], bytes := []\<rparr>"

definition Block_Append :: "('z) BlockBuffer_scheme \<Rightarrow> byte list \<Rightarrow> (buffer_error option \<times> ('z) BlockBuffer_scheme) option" where
  "Block_Append b data =
     (if offsetsCap b = 0 then None
      else if length (offsets b) \<ge> offsetsCap b then Some (Some ErrBlocksFull, b)
      else let stop = int (length (bytes b)) + int (length data) in
        if stop > int (bytesCap b) then Some (Some ErrBytesFull, b)
        else Some (None, b\<lparr>bytes := bytes b @ data, offsets := offsets b @ [stop]\<rparr>))"

record PacketBuffer = BlockBuffer +
  cis :: "CaptureInfo list"

definition zeroInfo :: CaptureInfo where
  "zeroInfo = \<lparr>Timestamp = 0, CaptureLength = 0, Length = 0, InterfaceIndex = 0\<rparr>"

definition NewPacketBuffer :: "nat \<Rightarrow> nat \<Rightarrow> PacketBuffer" where
  "NewPacketBuffer maxPackets maxBytes =
     BlockBuffer.extend (NewBlockBuffer maxPackets maxBytes) (PacketBuffer.fields (replicate maxPackets zeroInfo))"

definition Packet_Append :: "PacketBuffer \<Rightarrow> PacketData \<Rightarrow> (buffer_error option \<times> PacketBuffer) option" where
  "Packet_Append pb pd =
     do { (err, pb) \<leftarrow> Block_Append pb (Data pd);
          if err \<noteq> None then Some (err, pb)
          else if length (offsets pb) - 1 < length (cis pb)
          then Some (None, pb\<lparr>cis := (cis pb)[length (offsets pb) - 1 := Info pd]\<rparr>)
          else None }"

definition PacketCap :: "PacketBuffer \<Rightarrow> int" where
  "PacketCap pb = int (offsetsCap pb)"

definition PacketLen :: "PacketBuffer \<Rightarrow> int" where
  "PacketLen pb = BlockLen pb"

definition Packet :: "PacketBuffer \<Rightarrow> int \<Rightarrow> PacketData option" where
  "Packet pb n =
     do { ci \<leftarrow> index_at (cis pb) n;
          data \<leftarrow> Block pb n;
          Some \<lparr>Info = ci, Data = data\<rparr> }"

definition Packet_Clear :: "PacketBuffer \<Rightarrow> PacketBuffer" where
  "Packet_Clear pb = Block_Clear pb"

section \<open>The interface\<close>

locale packet_store =
  fixes inv :: "'b \<Rightarrow> bool"
    and contents :: "'b \<Rightarrow> 'p list"
    and size_of :: "'p \<Rightarrow> nat"
    and limits :: "'b \<Rightarrow> nat \<times> nat"
    and clear :: "'b \<Rightarrow> 'b"
    and append :: "'b \<Rightarrow> 'p \<Rightarrow> ('e option \<times> 'b) option"
    and nth_packet :: "'b \<Rightarrow> int \<Rightarrow> 'p option"
  assumes clear_ok: "inv b \<Longrightarrow> inv (clear b) \<and> contents (clear b) = [] \<and> limits (clear b) = limits b"
    and append_ok: "\<lbrakk> inv b; 0 < fst (limits b) \<rbrakk> \<Longrightarrow>
      \<exists>err b'. append b p = Some (err, b') \<and> inv b' \<and> limits b' = limits b \<and>
        (if length (contents b) < fst (limits b) \<and> sum_list (map size_of (contents b)) + size_of p \<le> snd (limits b)
         then err = None \<and> contents b' = contents b @ [p] else err \<noteq> None \<and> b' = b)"
    and nth_ok: "\<lbrakk> inv b; i < length (contents b) \<rbrakk> \<Longrightarrow> nth_packet b (int i) = Some (contents b ! i)"
begin

text \<open>What storing a list of packets, one after the other, stores: the longest prefix that fits.\<close>

fun appendAll :: "'b \<Rightarrow> 'p list \<Rightarrow> 'b option" where
  "appendAll b [] = Some b"
| "appendAll b (p # ps) =
     do { (err, b) \<leftarrow> append b p; if err = None then appendAll b ps else Some b }"

lemma appendAll_ok:
  assumes "inv b" and "0 < fst (limits b)" and "length (contents b) + length ps \<le> fst (limits b)"
    and "sum_list (map size_of (contents b @ ps)) \<le> snd (limits b)"
  shows "\<exists>b'. appendAll b ps = Some b' \<and> inv b' \<and> contents b' = contents b @ ps \<and> limits b' = limits b"
  using assms
proof (induction ps arbitrary: b)
  case (Cons p ps)
  obtain b1 where b1: "append b p = Some (None, b1)" "inv b1" "contents b1 = contents b @ [p]" "limits b1 = limits b"
    using append_ok [OF Cons.prems(1,2), of p] Cons.prems(3,4) by auto
  from Cons.IH [OF b1(2)] Cons.prems b1 show ?case by auto
qed simp

end

section \<open>The packed buffer is a packet store\<close>

text \<open>The blocks delimited by the offsets, from position \<open>start\<close> on.\<close>

fun cut_blocks :: "int \<Rightarrow> int list \<Rightarrow> byte list \<Rightarrow> byte list list" where
  "cut_blocks start [] bs = []"
| "cut_blocks start (e # es) bs = drop (nat start) (take (nat e) bs) # cut_blocks e es bs"

fun ascending :: "int \<Rightarrow> int list \<Rightarrow> bool" where
  "ascending start [] = True"
| "ascending start (e # es) = (start \<le> e \<and> ascending e es)"

definition last_or :: "int \<Rightarrow> int list \<Rightarrow> int" where
  "last_or start es = (if es = [] then start else last es)"

definition pb_inv :: "PacketBuffer \<Rightarrow> bool" where
  "pb_inv pb \<longleftrightarrow> length (offsets pb) \<le> offsetsCap pb \<and> length (cis pb) = offsetsCap pb \<and>
     ascending 0 (offsets pb) \<and> last_or 0 (offsets pb) = int (length (bytes pb)) \<and> length (bytes pb) \<le> bytesCap pb"

definition packets :: "PacketBuffer \<Rightarrow> PacketData list" where
  "packets pb = map2 PacketData.make (cis pb) (cut_blocks 0 (offsets pb) (bytes pb))"

lemma length_cut_blocks [simp]: "length (cut_blocks start es bs) = length es"
  by (induction es arbitrary: start) simp_all

lemma length_packets: "pb_inv pb \<Longrightarrow> length (packets pb) = length (offsets pb)"
  by (simp add: packets_def pb_inv_def)

lemma ascending_append: "ascending s (xs @ [e]) \<longleftrightarrow> ascending s xs \<and> last_or s xs \<le> e"
  by (induction xs arbitrary: s) (auto simp: last_or_def)

lemma ascending_last: "\<lbrakk> ascending s es; e \<in> set es \<rbrakk> \<Longrightarrow> s \<le> e \<and> e \<le> last_or s es"
proof (induction es arbitrary: s e)
  case (Cons a es)
  show ?case
  proof (cases "es = []")
    case False
    have a: "s \<le> a" "ascending a es" using Cons.prems(1) by auto
    from Cons.IH [OF a(2)] False have "a \<le> last_or a es" using last_in_set [of es] by fastforce
    with Cons.IH [OF a(2), of e] Cons.prems(2) a(1) False show ?thesis by (auto simp: last_or_def)
  qed (use Cons.prems in \<open>auto simp: last_or_def\<close>)
qed simp

lemma cut_blocks_append:
  assumes "ascending s es" and "0 \<le> s" and "last_or s es = int (length bs)"
  shows "cut_blocks s (es @ [int (length bs) + int (length d)]) (bs @ d) = cut_blocks s es bs @ [d]"
  using assms
proof (induction es arbitrary: s)
  case Nil
  then show ?case by (simp add: last_or_def nat_add_distrib)
next
  case (Cons e es)
  have e: "0 \<le> e" "e \<le> int (length bs)" using Cons.prems ascending_last [of s "e # es" e] by auto
  moreover have "last_or e es = int (length bs)" using Cons.prems(3) by (auto simp: last_or_def split: if_splits)
  ultimately show ?case using Cons by simp
qed

lemma cut_blocks_nth:
  "i < length es \<Longrightarrow> cut_blocks s es bs ! i = drop (nat (if i = 0 then s else es ! (i - 1))) (take (nat (es ! i)) bs)"
proof (induction es arbitrary: s i)
  case (Cons e es)
  then show ?case by (cases i) (auto simp: nth_Cons split: nat.splits)
qed simp

lemma sum_cut_blocks:
  assumes "ascending s es" and "0 \<le> s" and "last_or s es \<le> int (length bs)"
  shows "int (sum_list (map length (cut_blocks s es bs))) = last_or s es - s"
  using assms
proof (induction es arbitrary: s)
  case Nil
  then show ?case by (simp add: last_or_def)
next
  case (Cons e es)
  have "e \<le> last_or s (e # es)" "s \<le> e" using Cons.prems(1) ascending_last [of s "e # es" e] by auto
  moreover have "last_or s (e # es) = last_or e es" by (simp add: last_or_def)
  ultimately show ?case using Cons by simp
qed

lemma Block_nth:
  assumes "pb_inv pb" and "i < length (offsets pb)"
  shows "Block pb (int i) = Some (cut_blocks 0 (offsets pb) (bytes pb) ! i)"
proof -
  have asc: "ascending 0 (offsets pb)" and lst: "last_or 0 (offsets pb) = int (length (bytes pb))"
    using assms(1) by (auto simp: pb_inv_def)
  have bnd: "0 \<le> offsets pb ! j \<and> offsets pb ! j \<le> int (length (bytes pb))" if "j < length (offsets pb)" for j
    using ascending_last [OF asc, of "offsets pb ! j"] that lst by simp
  have mono: "offsets pb ! (i - 1) \<le> offsets pb ! i" if "0 < i"
  proof -
    have "ascending s es \<Longrightarrow> 0 < j \<Longrightarrow> j < length es \<Longrightarrow> es ! (j - 1) \<le> es ! j" for s es and j :: nat
    proof (induction es arbitrary: s j)
      case (Cons e es)
      then obtain j' where j: "j = Suc j'" "j' < length es" "ascending e es" by (cases j) auto
      show ?case
      proof (cases j')
        case 0
        with j show ?thesis by (cases es) auto
      next
        case (Suc j'')
        with Cons.IH [OF j(3), of j'] j show ?thesis by simp
      qed
    qed simp
    from this [OF asc that assms(2)] show ?thesis .
  qed
  show ?thesis
  proof (cases "i = 0")
    case True
    with bnd [of 0] assms(2) show ?thesis by (simp add: Block_def index_at_def slice_def cut_blocks_nth)
  next
    case False
    then have "nat (int i - 1) = i - 1" "index_at (offsets pb) (int i - 1) = Some (offsets pb ! (i - 1))"
      using assms(2) by (auto simp: index_at_def nat_diff_distrib)
    with False bnd [of i] bnd [of "i - 1"] mono assms(2) show ?thesis
      by (simp add: Block_def index_at_def slice_def cut_blocks_nth)
  qed
qed

lemma Packet_nth:
  assumes "pb_inv pb" and "i < length (packets pb)"
  shows "Packet pb (int i) = Some (packets pb ! i)"
proof -
  have i: "i < length (offsets pb)" "i < length (cis pb)" using assms length_packets [OF assms(1)] by (auto simp: pb_inv_def)
  with Block_nth [OF assms(1) i(1)] assms show ?thesis
    by (simp add: Packet_def index_at_def packets_def PacketData.make_def)
qed

lemma map2_update:
  assumes "length ys = k" and "k < length xs"
  shows "map2 f (xs[k := x]) (ys @ [y]) = map2 f xs ys @ [f x y]"
proof -
  have "xs[k := x] = take k xs @ x # drop (Suc k) xs" using assms(2) by (simp add: upd_conv_take_nth_drop)
  moreover have "map2 f xs ys = map2 f (take k xs) ys" using assms(1) by (metis order_refl take_all take_zip length_zip min.cobounded2)
  ultimately show ?thesis using assms by simp
qed

lemma sum_packets:
  assumes "pb_inv pb"
  shows "sum_list (map (length \<circ> Data) (packets pb)) = length (bytes pb)"
proof -
  have "map Data (packets pb) = cut_blocks 0 (offsets pb) (bytes pb)"
  proof -
    have "map Data (map2 PacketData.make xs ys) = ys" if "length ys \<le> length xs" for xs ys
      using that by (induction xs ys rule: list_induct2') (auto simp: PacketData.make_def)
    with assms show ?thesis by (simp add: packets_def pb_inv_def)
  qed
  with sum_cut_blocks [of 0 "offsets pb" "bytes pb"] assms show ?thesis
    by (simp add: pb_inv_def map_map [symmetric] del: map_map)
qed

lemma Packet_Append_ok:
  assumes "pb_inv pb" and "0 < offsetsCap pb"
  shows "\<exists>err pb'. Packet_Append pb pd = Some (err, pb') \<and> pb_inv pb' \<and> offsetsCap pb' = offsetsCap pb \<and> bytesCap pb' = bytesCap pb \<and>
    (if length (packets pb) < offsetsCap pb \<and> length (bytes pb) + length (Data pd) \<le> bytesCap pb
     then err = None \<and> packets pb' = packets pb @ [pd]
     else err = Some (if length (packets pb) < offsetsCap pb then ErrBytesFull else ErrBlocksFull) \<and> pb' = pb)"
proof (cases "length (offsets pb) < offsetsCap pb \<and> length (bytes pb) + length (Data pd) \<le> bytesCap pb")
  case True
  define k where "k = length (offsets pb)"
  define pb' where "pb' = pb\<lparr>bytes := bytes pb @ Data pd, offsets := offsets pb @ [int (length (bytes pb)) + int (length (Data pd))],
    cis := (cis pb)[k := Info pd]\<rparr>"
  have inv: "pb_inv pb'"
    using assms(1) True by (auto simp: pb_inv_def pb'_def ascending_append last_or_def)
  have "packets pb' = packets pb @ [pd]"
    using cut_blocks_append [of 0 "offsets pb" "bytes pb" "Data pd"] assms(1) True
      map2_update [of "cut_blocks 0 (offsets pb) (bytes pb)" k "cis pb" PacketData.make "Info pd" "Data pd"]
    by (simp add: packets_def pb'_def pb_inv_def k_def PacketData.make_def)
  moreover have "Packet_Append pb pd = Some (None, pb')"
    using True assms by (simp add: Packet_Append_def Block_Append_def pb'_def k_def pb_inv_def)
  ultimately show ?thesis using inv True length_packets [OF assms(1)] by (simp add: pb'_def)
next
  case False
  then show ?thesis using assms length_packets [OF assms(1)]
    by (auto simp: Packet_Append_def Block_Append_def)
qed

lemma pb_inv_New: "pb_inv (NewPacketBuffer m n) \<and> packets (NewPacketBuffer m n) = [] \<and>
    offsetsCap (NewPacketBuffer m n) = m \<and> bytesCap (NewPacketBuffer m n) = n"
  by (simp add: NewPacketBuffer_def NewBlockBuffer_def BlockBuffer.defs PacketBuffer.defs pb_inv_def packets_def last_or_def)

lemma pb_inv_Clear: "pb_inv pb \<Longrightarrow> pb_inv (Packet_Clear pb) \<and> packets (Packet_Clear pb) = []"
  by (simp add: Packet_Clear_def Block_Clear_def pb_inv_def packets_def last_or_def)

interpretation store: packet_store pb_inv packets "length \<circ> Data" "\<lambda>pb. (offsetsCap pb, bytesCap pb)"
  Packet_Clear Packet_Append Packet
proof
  fix pb :: PacketBuffer and pd :: PacketData and i :: nat
  assume inv: "pb_inv pb"
  show "pb_inv (Packet_Clear pb) \<and> packets (Packet_Clear pb) = [] \<and>
      (offsetsCap (Packet_Clear pb), bytesCap (Packet_Clear pb)) = (offsetsCap pb, bytesCap pb)"
    using pb_inv_Clear [OF inv] by (simp add: Packet_Clear_def Block_Clear_def)
  show "\<exists>err b'. Packet_Append pb pd = Some (err, b') \<and> pb_inv b' \<and>
        (offsetsCap b', bytesCap b') = (offsetsCap pb, bytesCap pb) \<and>
        (if length (packets pb) < fst (offsetsCap pb, bytesCap pb) \<and>
            sum_list (map (length \<circ> Data) (packets pb)) + (length \<circ> Data) pd \<le> snd (offsetsCap pb, bytesCap pb)
         then err = None \<and> packets b' = packets pb @ [pd] else err \<noteq> None \<and> b' = pb)"
    if "0 < fst (offsetsCap pb, bytesCap pb)"
    using Packet_Append_ok [OF inv, of pd] that by (auto simp: sum_packets [OF inv] split: if_splits)
  show "Packet pb (int i) = Some (packets pb ! i)" if "i < length (packets pb)" using Packet_nth [OF inv that] .
qed

section \<open>Properties\<close>

fun store_packets :: "PacketBuffer \<Rightarrow> PacketData list \<Rightarrow> PacketBuffer option" where
  "store_packets pb [] = Some pb"
| "store_packets pb (pd # pds) =
     do { (err, pb) \<leftarrow> Packet_Append pb pd; if err = None then store_packets pb pds else Some pb }"

lemma store_packets_appendAll: "store_packets pb pds = store.appendAll pb pds"
proof (induction pds arbitrary: pb)
  case (Cons pd pds)
  then show ?case by (cases "Packet_Append pb pd") auto
qed simp

text \<open>
  C23.  The packed buffer is a faithful store: packets within the limits all fit, are counted, and come back unchanged at their
  index; one packet more is stored as well or refused, with the limit it exceeds, leaving the buffer as it was.
\<close>

theorem packets_roundtrip:
  assumes "0 < maxPackets" and "length pds \<le> maxPackets" and "sum_list (map (length \<circ> Data) pds) \<le> maxBytes"
  shows "\<exists>pb. store_packets (NewPacketBuffer maxPackets maxBytes) pds = Some pb \<and> PacketLen pb = int (length pds) \<and>
    (\<forall>i<length pds. Packet pb (int i) = Some (pds ! i)) \<and>
    BytesRemaining pb = int maxBytes - int (sum_list (map (length \<circ> Data) pds)) \<and>
    (\<exists>err pb'. Packet_Append pb pd = Some (err, pb') \<and>
       (if length pds = maxPackets then err = Some ErrBlocksFull \<and> pb' = pb
        else if int (length (Data pd)) > BytesRemaining pb then err = Some ErrBytesFull \<and> pb' = pb
        else err = None \<and> Packet pb' (int (length pds)) = Some pd))"
proof -
  have "\<exists>pb. store.appendAll (NewPacketBuffer maxPackets maxBytes) pds = Some pb \<and> pb_inv pb \<and> packets pb = [] @ pds \<and>
      (offsetsCap pb, bytesCap pb) = (maxPackets, maxBytes)"
    using store.appendAll_ok [of "NewPacketBuffer maxPackets maxBytes" pds] pb_inv_New [of maxPackets maxBytes] assms by simp
  then obtain pb where pb: "store_packets (NewPacketBuffer maxPackets maxBytes) pds = Some pb" "pb_inv pb" "packets pb = pds"
    "offsetsCap pb = maxPackets" "bytesCap pb = maxBytes" by (auto simp: store_packets_appendAll)
  have len: "PacketLen pb = int (length pds)" using length_packets [OF pb(2)] pb(3) by (simp add: PacketLen_def BlockLen_def)
  have rem: "BytesRemaining pb = int maxBytes - int (sum_list (map (length \<circ> Data) pds))"
    using sum_packets [OF pb(2)] pb(3,5) by (simp add: BytesRemaining_def)
  obtain err pb' where a: "Packet_Append pb pd = Some (err, pb')" "pb_inv pb'"
    "if length pds < maxPackets \<and> length (bytes pb) + length (Data pd) \<le> maxBytes then err = None \<and> packets pb' = pds @ [pd]
     else err = Some (if length pds < maxPackets then ErrBytesFull else ErrBlocksFull) \<and> pb' = pb"
    using Packet_Append_ok [OF pb(2), of pd] pb(3-5) assms(1) by auto
  moreover have "int (length (Data pd)) > BytesRemaining pb \<longleftrightarrow> \<not> length (bytes pb) + length (Data pd) \<le> maxBytes"
    by (auto simp: BytesRemaining_def pb(5))
  ultimately have "if length pds = maxPackets then err = Some ErrBlocksFull \<and> pb' = pb
      else if int (length (Data pd)) > BytesRemaining pb then err = Some ErrBytesFull \<and> pb' = pb
      else err = None \<and> Packet pb' (int (length pds)) = Some pd"
    using assms(2) Packet_nth [OF a(2), of "length pds"] by (auto split: if_splits)
  moreover have "\<forall>i<length pds. Packet pb (int i) = Some (pds ! i)" using Packet_nth [OF pb(2)] pb(3) by simp
  ultimately show ?thesis using pb(1) len rem a(1) by blast
qed

theorem packets_roundtrip_witness:
  "\<exists>pb. store_packets (NewPacketBuffer 2 5) [\<lparr>Info = zeroInfo, Data = ''abc''\<rparr>, \<lparr>Info = zeroInfo, Data = []\<rparr>] = Some pb \<and>
    PacketLen pb = 2 \<and> Packet pb 0 = Some \<lparr>Info = zeroInfo, Data = ''abc''\<rparr> \<and>
    (\<exists>pb'. Packet_Append pb \<lparr>Info = zeroInfo, Data = ''x''\<rparr> = Some (Some ErrBlocksFull, pb'))"
  using packets_roundtrip [of 2 "[\<lparr>Info = zeroInfo, Data = ''abc''\<rparr>, \<lparr>Info = zeroInfo, Data = []\<rparr>]" 5 "\<lparr>Info = zeroInfo, Data = ''x''\<rparr>"]
  by (fastforce simp: numeral_2_eq_2)

end
