(* ===== verification/Decode.thy ===== *)
theory Decode
  imports Frames PacketBuffer
begin

unbundle bit_operations_syntax

text \<open>
  Decoding a batch of captured packets, \<^verbatim>\<open>decode/decode.go\<close>.  A \<open>DecodedPacket\<close> is reused for every batch, so the structs of its layers,
  its flow and its hash survive from one packet to the next.  Log messages are not modelled, the size of the largest truncated
  packet, which decides whether to log, is.
\<close>

section \<open>Combining hashes\<close>

definition hashCombine :: "64 word \<Rightarrow> 64 word \<Rightarrow> 64 word" where
  "hashCombine h k =
     (let m = 0xc6a4a7935bd1e995; r = 47;
          k = k * m; k = k XOR drop_bit r k; k = k * m;
          h = h XOR k; h = h * m in
      h + 0xe6546b64)"

section \<open>Decoded packets\<close>

record DecodedPacket =
  dp_Info :: CaptureInfo
  dp_decoded :: "LayerType list"
  dp_layers :: Layers
  FlowHash :: "64 word"
  NetFlow :: Flow

text \<open>The zero values of the structs.\<close>

definition zeroTCP :: TCP where
  "zeroTCP = \<lparr>SrcPort = 0, DstPort = 0, Seq = 0, Ack = 0, DataOffset = 0, FIN = False, SYN = False, RST = False, PSH = False, ACK = False,
     URG = False, ECE = False, CWR = False, NS = False, Window = 0, t_Checksum = 0, Urgent = 0, sPort = [], dPort = [], t_Options = [],
     t_Padding = [], t_Payload = whole []\<rparr>"

definition zeroIPv4 :: IPv4 where
  "zeroIPv4 = \<lparr>i4_Version = 0, IHL = 0, TOS = 0, i4_Length = 0, Id = 0, i4_Flags = 0, FragOffset = 0, TTL = 0, Protocol = 0, i4_Checksum = 0,
     i4_SrcIP = [], i4_DstIP = [], i4_Options = [], i4_Padding = [], i4_Payload = whole []\<rparr>"

definition zeroIPv6 :: IPv6 where
  "zeroIPv6 = \<lparr>i6_Version = 0, TrafficClass = 0, FlowLabel = 0, i6_Length = 0, NextHeader = 0, HopLimit = 0, i6_SrcIP = [], i6_DstIP = [],
     HopByHop = False, hbh = \<lparr>x_NextHeader = 0, HeaderLength = 0, ActualLength = 0, x_Options = []\<rparr>, i6_Payload = whole []\<rparr>"

definition zeroLayers :: Layers where
  "zeroLayers = \<lparr>ether = \<lparr>DstMAC = [], SrcMAC = [], EthernetType = 0, eth_Length = 0, eth_Payload = whole []\<rparr>,
     lo = \<lparr>Family = 0, lo_Payload = whole []\<rparr>,
     dot1q = \<lparr>Priority = 0, DropEligible = False, VLANIdentifier = 0, Dot1Q_Type = 0, dot1q_Payload = whole []\<rparr>,
     ipv4 = zeroIPv4, ipv6 = zeroIPv6, tcp = zeroTCP, payload = whole []\<rparr>"

definition zeroFlow :: Flow where
  "zeroFlow = \<lparr>ftyp = 0, slen = 0, dlen = 0, fsrc = raw_array [], fdst = raw_array []\<rparr>"

text \<open>The two parsers that \<open>newDecodedPacket\<close> builds differ in their first layer only, see \<open>layer_decoder\<close>.\<close>

definition newDecodedPacket :: DecodedPacket where
  "newDecodedPacket = \<lparr>dp_Info = zeroInfo, dp_decoded = [], dp_layers = zeroLayers, FlowHash = 0, NetFlow = zeroFlow\<rparr>"

definition IsTCP :: "DecodedPacket \<Rightarrow> bool" where
  "IsTCP dp \<longleftrightarrow> LayerTypeTCP \<in> set (dp_decoded dp)"

text \<open>The loop over the decoded layers.\<close>

fun decode_flows :: "LayerType list \<Rightarrow> DecodedPacket \<Rightarrow> DecodedPacket option" where
  "decode_flows [] dp = Some dp"
| "decode_flows (layer # layers) dp =
     do { dp \<leftarrow> (case layer of
              LayerTypeIPv4 \<Rightarrow> do { f \<leftarrow> IPv4_NetworkFlow (ipv4 (dp_layers dp)); Some (dp\<lparr>NetFlow := f\<rparr>) }
            | LayerTypeIPv6 \<Rightarrow> do { f \<leftarrow> IPv6_NetworkFlow (ipv6 (dp_layers dp)); Some (dp\<lparr>NetFlow := f\<rparr>) }
            | LayerTypeTCP \<Rightarrow>
                do { h \<leftarrow> Flow_FastHash (NetFlow dp); f \<leftarrow> TCP_TransportFlow (tcp (dp_layers dp)); k \<leftarrow> Flow_FastHash f;
                     Some (dp\<lparr>FlowHash := hashCombine h k\<rparr>) }
            | _ \<Rightarrow> Some dp);
          decode_flows layers dp }"

text \<open>One of the two attempts to parse the packet; the result says whether the parser found it truncated.\<close>

definition decode_with :: "LayerType \<Rightarrow> byte list \<Rightarrow> DecodedPacket \<Rightarrow> (bool \<times> DecodedPacket) option" where
  "decode_with first data dp =
     do { (err, decoded, truncated, ls) \<leftarrow> DecodeLayers first (whole data) (dp_layers dp);
          Some (truncated, dp\<lparr>dp_decoded := decoded, dp_layers := ls\<rparr>) }"

definition decode :: "int \<Rightarrow> CaptureInfo \<Rightarrow> byte list \<Rightarrow> DecodedPacket \<Rightarrow> (int \<times> DecodedPacket) option" where
  "decode largestPacket ci data dp =
     do { let ls = dp_layers dp;
          let dp = dp\<lparr>dp_Info := ci, FlowHash := 0,
                      dp_layers := ls\<lparr>payload := \<lparr>vis = [], spare = vis (payload ls) @ spare (payload ls)\<rparr>\<rparr>\<rparr>;
          (truncated, dp) \<leftarrow> decode_with LayerTypeEthernet data dp;
          (truncated, dp) \<leftarrow> (if \<not> IsTCP dp then decode_with LayerTypeLoopback data dp else Some (truncated, dp));
          let largestPacket = (if truncated \<and> Length ci > largestPacket then Length ci else largestPacket);
          dp \<leftarrow> decode_flows (dp_decoded dp) dp;
          Some (largestPacket, dp) }"

section \<open>Batches\<close>

definition batchSize :: nat where
  "batchSize = 1000"

record decoder =
  largestPacket :: int
  decoded_packets :: "DecodedPacket list"

definition newDecoder :: decoder where
  "newDecoder = \<lparr>largestPacket = 0, decoded_packets = replicate batchSize newDecodedPacket\<rparr>"

text \<open>The loop over the packets of the buffer, from index \<open>i\<close> on for \<open>n\<close> packets.\<close>

fun decodeBatch_loop :: "nat \<Rightarrow> nat \<Rightarrow> PacketBuffer \<Rightarrow> decoder \<Rightarrow> decoder option" where
  "decodeBatch_loop 0 i pb d = Some d"
| "decodeBatch_loop (Suc n) i pb d =
     do { pd \<leftarrow> Packet pb (int i);
          dp \<leftarrow> index_at (decoded_packets d) (int i);
          (largest, dp) \<leftarrow> decode (largestPacket d) (Info pd) (Data pd) dp;
          decodeBatch_loop n (Suc i) pb (d\<lparr>largestPacket := largest, decoded_packets := (decoded_packets d)[i := dp]\<rparr>) }"

text \<open>The packets that are handed to the handler, and the decoder; a batch that does not fit panics.\<close>

definition decodeBatch :: "PacketBuffer \<Rightarrow> decoder \<Rightarrow> (DecodedPacket list \<times> decoder) option" where
  "decodeBatch pb d =
     (let numPackets = PacketLen pb in
      if numPackets > int (length (decoded_packets d)) then None
      else do { d \<leftarrow> decodeBatch_loop (nat numPackets) 0 pb d;
                dps \<leftarrow> slice_to numPackets (decoded_packets d);
                Some (dps, d) })"

section \<open>Decoding never panics\<close>

definition dp_ok :: "DecodedPacket \<Rightarrow> bool" where
  "dp_ok dp \<longleftrightarrow> layers_ok (dp_layers dp) \<and> flow_ok (NetFlow dp)"

lemma dp_ok_new: "dp_ok newDecodedPacket"
  by (simp add: dp_ok_def newDecodedPacket_def zeroLayers_def zeroTCP_def zeroIPv4_def zeroIPv6_def layers_ok_def ports_ok_def whole_def flow_ok_def
      zeroFlow_def raw_array_def MaxEndpointSize_def)

lemma decode_flows_total: "dp_ok dp \<Longrightarrow> \<exists>dp'. decode_flows layers dp = Some dp' \<and> dp_ok dp' \<and> dp_Info dp' = dp_Info dp"
proof (induction layers arbitrary: dp)
  case (Cons layer layers)
  note ok = layers_ok_flows [of "dp_layers dp"]
  have "\<exists>dp1. decode_flows (layer # layers) dp = decode_flows layers dp1 \<and> dp_ok dp1 \<and> dp_Info dp1 = dp_Info dp"
  proof (cases layer)
    case LayerTypeIPv4
    with ok(1) Cons.prems show ?thesis by (auto simp: dp_ok_def)
  next
    case LayerTypeIPv6
    with ok(2) Cons.prems show ?thesis by (auto simp: dp_ok_def)
  next
    case LayerTypeTCP
    moreover obtain h where "Flow_FastHash (NetFlow dp) = Some h" using Cons.prems FastHash_total by (auto simp: dp_ok_def)
    moreover obtain f k where "TCP_TransportFlow (tcp (dp_layers dp)) = Some f" "Flow_FastHash f = Some k"
      using ok(3) Cons.prems FastHash_total by (fastforce simp: dp_ok_def)
    ultimately show ?thesis using Cons.prems by (auto simp: dp_ok_def)
  qed (use Cons.prems in auto)
  then show ?case using Cons.IH by metis
qed auto

lemma decode_with_total:
  assumes "dp_ok dp"
  shows "\<exists>tr dp'. decode_with first data dp = Some (tr, dp') \<and> dp_ok dp' \<and> dp_Info dp' = dp_Info dp"
proof -
  obtain err decoded tr ls where "DecodeLayers first (whole data) (dp_layers dp) = Some (err, decoded, tr, ls)"
    using DecodeLayers_total by blast
  with assms DecodeLayers_ok [OF this] show ?thesis by (simp add: decode_with_def dp_ok_def)
qed

lemma decode_total:
  assumes "dp_ok dp"
  shows "\<exists>largest' dp'. decode largest ci data dp = Some (largest', dp') \<and> dp_ok dp' \<and> dp_Info dp' = ci \<and> largest \<le> largest'"
proof -
  let ?ls = "dp_layers dp"
  let ?dp = "dp\<lparr>dp_Info := ci, FlowHash := 0, dp_layers := ?ls\<lparr>payload := \<lparr>vis = [], spare = vis (payload ?ls) @ spare (payload ?ls)\<rparr>\<rparr>\<rparr>"
  have "dp_ok ?dp" using assms by (simp add: dp_ok_def layers_ok_def)
  then obtain tr1 dp1 where 1: "decode_with LayerTypeEthernet data ?dp = Some (tr1, dp1)" "dp_ok dp1" "dp_Info dp1 = ci"
    using decode_with_total [of ?dp LayerTypeEthernet data] by auto
  obtain tr2 dp2 where 2: "(if \<not> IsTCP dp1 then decode_with LayerTypeLoopback data dp1 else Some (tr1, dp1)) = Some (tr2, dp2)"
    "dp_ok dp2" "dp_Info dp2 = ci"
    using decode_with_total [OF 1(2), of LayerTypeLoopback data] 1(2,3) by (cases "IsTCP dp1") auto
  obtain dp3 where "decode_flows (dp_decoded dp2) dp2 = Some dp3" "dp_ok dp3" "dp_Info dp3 = ci"
    using decode_flows_total [OF 2(2), of "dp_decoded dp2"] 2(3) by auto
  with 1 2 show ?thesis by (simp add: decode_def)
qed

section \<open>Frames are decoded to their connection and segment\<close>

definition segment_flow :: "segment \<Rightarrow> Flow option" where
  "segment_flow s = NewFlow EndpointTCPPort (put16 (src_port s)) (put16 (dst_port s))"

definition connection_hash :: "packet \<Rightarrow> segment \<Rightarrow> 64 word option" where
  "connection_hash pkt s =
     do { f \<leftarrow> packet_flow pkt; h \<leftarrow> Flow_FastHash f; g \<leftarrow> segment_flow s; k \<leftarrow> Flow_FastHash g; Some (hashCombine h k) }"

text \<open>What a decoded packet says about the frame it was read from.\<close>

definition decodes :: "DecodedPacket \<Rightarrow> packet \<Rightarrow> segment \<Rightarrow> bool" where
  "decodes dp pkt s \<longleftrightarrow> IsTCP dp \<and> tcp_of (tcp (dp_layers dp)) s \<and> Some (NetFlow dp) = packet_flow pkt \<and>
     Some (FlowHash dp) = connection_hash pkt s"

lemma packet_flow_total: "packet_ok pkt \<Longrightarrow> \<exists>f h. packet_flow pkt = Some f \<and> Flow_FastHash f = Some h"
proof (cases pkt)
  case (V4 tos ident frag ttl csum src dst)
  assume "packet_ok pkt"
  with V4 obtain f where "packet_flow pkt = Some f" by (auto simp: NewFlow_def MaxEndpointSize_def)
  with V4 FastHash_total [OF NewFlow_ok] show ?thesis by auto
next
  case (V6 label hops src dst)
  assume "packet_ok pkt"
  with V6 obtain f where "packet_flow pkt = Some f" by (auto simp: NewFlow_def MaxEndpointSize_def)
  with V6 FastHash_total [OF NewFlow_ok] show ?thesis by auto
qed

lemma segment_flow_total: "\<exists>f h. segment_flow s = Some f \<and> Flow_FastHash f = Some h"
  using FastHash_total [OF NewFlow_ok, of EndpointTCPPort "put16 (src_port s)" "put16 (dst_port s)"]
  by (auto simp: segment_flow_def NewFlow_def MaxEndpointSize_def)

lemma decode_flows_tags:
  "decode_flows (replicate n LayerTypeDot1Q @ layers) dp = decode_flows layers dp"
  by (induction n) simp_all

lemma decode_flows_frame:
  assumes "holds_packet (dp_layers dp) pkt s" and "packet_ok pkt"
  shows "\<exists>dp'. decode_flows (LayerTypeEthernet # replicate n LayerTypeDot1Q @ packet_layer pkt # segment_layers s) dp = Some dp' \<and>
     dp_layers dp' = dp_layers dp \<and> dp_decoded dp' = dp_decoded dp \<and> dp_Info dp' = dp_Info dp \<and>
     Some (NetFlow dp') = packet_flow pkt \<and> Some (FlowHash dp') = connection_hash pkt s"
proof -
  obtain f h where f: "packet_flow pkt = Some f" "Flow_FastHash f = Some h" using packet_flow_total [OF assms(2)] by blast
  obtain g k where g: "segment_flow s = Some g" "Flow_FastHash g = Some k" using segment_flow_total by blast
  have t: "TCP_TransportFlow (tcp (dp_layers dp)) = Some g"
    using assms(1) g(1) by (simp add: holds_packet_def tcp_of_def TCP_TransportFlow_def segment_flow_def)
  have "decode_flows (packet_layer pkt # segment_layers s) dp = decode_flows (segment_layers s) (dp\<lparr>NetFlow := f\<rparr>)"
    using assms(1) f(1) by (cases pkt) (simp_all add: holds_packet_def)
  with f g t show ?thesis
    by (simp add: decode_flows_tags segment_layers_def connection_hash_def)
qed

lemma decode_frame:
  assumes "segment_ok s" and "packet_ok pkt" and "length macs = 12"
  shows "\<exists>dp'. decode largest ci (frame_bytes macs tcis pkt s trailer) dp = Some (largest, dp') \<and> dp_Info dp' = ci \<and> decodes dp' pkt s"
proof -
  let ?ls = "dp_layers dp"
  let ?ls0 = "?ls\<lparr>payload := \<lparr>vis = [], spare = vis (payload ?ls) @ spare (payload ?ls)\<rparr>\<rparr>"
  let ?layers = "LayerTypeEthernet # replicate (length tcis) LayerTypeDot1Q @ packet_layer pkt # segment_layers s"
  obtain ls where ls: "DecodeLayers LayerTypeEthernet (whole (frame_bytes macs tcis pkt s trailer)) ?ls0 = Some (None, ?layers, False, ls)"
    "holds_packet ls pkt s"
    using DecodeLayers_frame [OF assms, of tcis trailer ?ls0] by blast
  let ?dp = "dp\<lparr>dp_Info := ci, FlowHash := 0, dp_decoded := ?layers, dp_layers := ls\<rparr>"
  have tcp: "IsTCP ?dp" by (simp add: IsTCP_def segment_layers_def)
  obtain dp' where "decode_flows ?layers ?dp = Some dp'" "dp_layers dp' = ls" "dp_decoded dp' = ?layers" "dp_Info dp' = ci"
    "Some (NetFlow dp') = packet_flow pkt" "Some (FlowHash dp') = connection_hash pkt s"
    using decode_flows_frame [of ?dp pkt s "length tcis"] ls(2) assms(2) by auto
  with ls tcp show ?thesis
    by (auto simp: decode_def decode_with_def decodes_def IsTCP_def holds_packet_def)
qed

text \<open>The packet and the segment of the opposite direction of a connection.\<close>

fun opposite :: "packet \<Rightarrow> packet \<Rightarrow> bool" where
  "opposite (V4 _ _ _ _ _ src dst) (V4 _ _ _ _ _ src' dst') \<longleftrightarrow> src' = dst \<and> dst' = src"
| "opposite (V6 _ _ src dst) (V6 _ _ src' dst') \<longleftrightarrow> src' = dst \<and> dst' = src"
| "opposite _ _ \<longleftrightarrow> False"

lemma opposite_flow: "opposite pkt pkt' \<Longrightarrow> packet_flow pkt' = map_option Flow_Reverse (packet_flow pkt)"
proof -
  have rev: "NewFlow t b a = map_option Flow_Reverse (NewFlow t a b)" for t a b
    using NewFlow_Reverse [of t a b] by (cases "NewFlow t a b") (auto simp: NewFlow_def split: if_splits)
  show "opposite pkt pkt' \<Longrightarrow> packet_flow pkt' = map_option Flow_Reverse (packet_flow pkt)"
    by (cases "(pkt, pkt')" rule: opposite.cases) (auto simp: rev [symmetric])
qed

lemma connection_hash_opposite:
  assumes "opposite pkt pkt'" and "src_port s' = dst_port s" and "dst_port s' = src_port s" and "packet_ok pkt"
  shows "connection_hash pkt' s' = connection_hash pkt s"
proof -
  obtain f where f: "packet_flow pkt = Some f" "flow_ok f"
    using packet_flow_total [OF assms(4)] NewFlow_ok by (cases pkt) auto
  obtain g where g: "segment_flow s = Some g" "flow_ok g"
    using segment_flow_total [of s] NewFlow_ok by (auto simp: segment_flow_def)
  have "segment_flow s' = Some (Flow_Reverse g)"
    using NewFlow_Reverse g(1) assms(2,3) by (simp add: segment_flow_def)
  with f g opposite_flow [OF assms(1)] FastHash_Reverse show ?thesis by (simp add: connection_hash_def)
qed

section \<open>Batches of packets\<close>

definition decoder_ok :: "decoder \<Rightarrow> bool" where
  "decoder_ok d \<longleftrightarrow> length (decoded_packets d) = batchSize \<and> (\<forall>dp\<in>set (decoded_packets d). dp_ok dp)"

lemma decoder_ok_new: "decoder_ok newDecoder"
  using dp_ok_new by (simp add: decoder_ok_def newDecoder_def)

text \<open>A decoded packet is the result of decoding the packet at its index, into a struct with unknown contents.\<close>

definition decoded_from :: "PacketData \<Rightarrow> DecodedPacket \<Rightarrow> bool" where
  "decoded_from pd dp' \<longleftrightarrow> (\<exists>largest dp largest'. dp_ok dp \<and> decode largest (Info pd) (Data pd) dp = Some (largest', dp'))"

lemma decodeBatch_loop_ok:
  assumes "decoder_ok d" and "pb_inv pb" and "i + n = length (packets pb)" and "length (packets pb) \<le> batchSize"
    and "\<forall>j<i. decoded_from (packets pb ! j) (decoded_packets d ! j)"
  shows "\<exists>d'. decodeBatch_loop n i pb d = Some d' \<and> decoder_ok d' \<and>
    (\<forall>j<i + n. decoded_from (packets pb ! j) (decoded_packets d' ! j))"
  using assms
proof (induction n arbitrary: i d)
  case (Suc n)
  let ?pd = "packets pb ! i" and ?dp = "decoded_packets d ! i"
  have i: "i < length (packets pb)" "i < length (decoded_packets d)" using Suc.prems by (auto simp: decoder_ok_def)
  then have dp: "dp_ok ?dp" using Suc.prems(1) by (auto simp: decoder_ok_def)
  obtain largest dp' where dec: "decode (largestPacket d) (Info ?pd) (Data ?pd) ?dp = Some (largest, dp')" "dp_ok dp'"
    using decode_total [OF dp] by blast
  let ?d = "d\<lparr>largestPacket := largest, decoded_packets := (decoded_packets d)[i := dp']\<rparr>"
  have "decodeBatch_loop (Suc n) i pb d = decodeBatch_loop n (Suc i) pb ?d"
    using i dec(1) Packet_nth [OF Suc.prems(2) i(1)] by simp
  moreover have "decoder_ok ?d"
    using Suc.prems(1) dec(2) by (auto simp: decoder_ok_def dest!: set_update_subset_insert [THEN subsetD])
  moreover have "\<forall>j<Suc i. decoded_from (packets pb ! j) (decoded_packets ?d ! j)"
    using Suc.prems(5) dec(1) dp i(2) by (auto simp: less_Suc_eq decoded_from_def)
  ultimately show ?case using Suc.IH [of ?d "Suc i"] Suc.prems by simp
qed simp

lemma decodeBatch_ok:
  assumes "decoder_ok d" and "pb_inv pb" and "length (packets pb) \<le> batchSize"
  shows "\<exists>dps d'. decodeBatch pb d = Some (dps, d') \<and> decoder_ok d' \<and> list_all2 decoded_from (packets pb) dps"
proof -
  obtain d' where d': "decodeBatch_loop (length (packets pb)) 0 pb d = Some d'" "decoder_ok d'"
    "\<forall>j<length (packets pb). decoded_from (packets pb ! j) (decoded_packets d' ! j)"
    using decodeBatch_loop_ok [OF assms(1,2), of 0 "length (packets pb)"] assms(3) by auto
  have len: "PacketLen pb = int (length (packets pb))"
    using length_packets [OF assms(2)] by (simp add: PacketLen_def BlockLen_def)
  have "list_all2 decoded_from (packets pb) (take (length (packets pb)) (decoded_packets d'))"
    using d'(2,3) assms(3) by (auto simp: list_all2_conv_all_nth decoder_ok_def)
  with d' len assms(1,3) show ?thesis by (simp add: decodeBatch_def decoder_ok_def)
qed

section \<open>Properties\<close>

text \<open>
  C6.  Decoding a batch never panics and loses nothing.  Whatever the bytes of the packets and whatever the structs held before, the handler gets one decoded
  packet for each captured packet, in order, with its capture information; and each Ethernet frame that carries a TCP segment in an
  IPv4 or IPv6 packet, behind any number of VLAN tags and before any trailer, is decoded to the flow of its addresses, its ports, sequence
  number, flags and exactly its content.
\<close>

theorem batch_decoded:
  assumes "decoder_ok d" and "pb_inv pb" and "length (packets pb) \<le> batchSize"
  shows "\<exists>dps d'. decodeBatch pb d = Some (dps, d') \<and> decoder_ok d' \<and> length dps = length (packets pb) \<and>
    (\<forall>i<length dps. dp_Info (dps ! i) = Info (packets pb ! i) \<and>
       (\<forall>macs tcis pkt s trailer. length macs = 12 \<longrightarrow> packet_ok pkt \<longrightarrow> segment_ok s \<longrightarrow>
          Data (packets pb ! i) = frame_bytes macs tcis pkt s trailer \<longrightarrow> decodes (dps ! i) pkt s))"
proof -
  obtain dps d' where d': "decodeBatch pb d = Some (dps, d')" "decoder_ok d'" "list_all2 decoded_from (packets pb) dps"
    using decodeBatch_ok [OF assms] by blast
  have "dp_Info dp' = Info pd" if "decoded_from pd dp'" for pd dp'
    using that decode_total unfolding decoded_from_def by (metis Pair_inject option.inject)
  moreover have "decodes dp' pkt s" if "decoded_from pd dp'" "Data pd = frame_bytes macs tcis pkt s trailer"
    "length macs = 12" "packet_ok pkt" "segment_ok s" for pd dp' macs tcis pkt s trailer
    using that(1,2) decode_frame [OF that(5,4,3), of _ "Info pd" tcis trailer] unfolding decoded_from_def
    by (metis Pair_inject option.inject)
  ultimately show ?thesis using d' by (fastforce simp: list_all2_conv_all_nth)
qed

definition sample_segment :: segment where
  "sample_segment = \<lparr>src_port = 1234, dst_port = 11211, seq_no = 7, ack_no = 0, flag_bits = CHR 0x18, window = 0, checksum = 0, urgent = 0,
     options = [Nop, Nop, Opt (CHR 0x08) ''12345678''], content = ''get a''\<rparr>"

definition sample_packet :: packet where
  "sample_packet = V4 (CHR 0x00) 0 0x4000 (CHR 0x40) 0 ''abcd'' ''efgh''"

definition sample_frame :: "byte list" where
  "sample_frame = frame_bytes ''abcdefghijkl'' [5] sample_packet sample_segment ''pad''"

lemma sample_ok: "segment_ok sample_segment" "packet_ok sample_packet"
proof -
  have "length (concat (map option_bytes (options sample_segment))) = 12" by (simp add: sample_segment_def)
  then have "4 dvd length (concat (map option_bytes (options sample_segment)))" by (simp only:) simp
  then show "segment_ok sample_segment" by (simp add: segment_ok_def) (simp add: sample_segment_def)
qed (simp add: sample_packet_def)

theorem batch_decoded_witness:
  "\<exists>pb dps d'. packets pb = [\<lparr>Info = zeroInfo, Data = sample_frame\<rparr>] \<and> decodeBatch pb newDecoder = Some (dps, d') \<and> length dps = 1 \<and>
     decodes (dps ! 0) sample_packet sample_segment"
proof -
  have new: "pb_inv (NewPacketBuffer 10 1000)" "packets (NewPacketBuffer 10 1000) = []" "0 < offsetsCap (NewPacketBuffer 10 1000)"
    using pb_inv_New [of 10 1000] by auto
  have "length sample_frame \<le> 1000"
    by (simp add: sample_frame_def frame_bytes_def sample_packet_def sample_segment_def segment_bytes_length ip4_header_def)
  with Packet_Append_ok [OF new(1,3), of "\<lparr>Info = zeroInfo, Data = sample_frame\<rparr>"] new(2)
  obtain pb where pb: "pb_inv pb" "packets pb = [\<lparr>Info = zeroInfo, Data = sample_frame\<rparr>]"
    by (auto simp: NewPacketBuffer_def NewBlockBuffer_def BlockBuffer.defs PacketBuffer.defs)
  have "length (packets pb) \<le> batchSize" by (simp add: pb(2) batchSize_def)
  from batch_decoded [OF decoder_ok_new pb(1) this] obtain dps d' where dps: "decodeBatch pb newDecoder = Some (dps, d')" "length dps = 1"
    and all: "\<forall>i<length dps. dp_Info (dps ! i) = Info (packets pb ! i) \<and>
       (\<forall>macs tcis pkt s trailer. length macs = 12 \<longrightarrow> packet_ok pkt \<longrightarrow> segment_ok s \<longrightarrow>
          Data (packets pb ! i) = frame_bytes macs tcis pkt s trailer \<longrightarrow> decodes (dps ! i) pkt s)"
    by (auto simp: pb(2))
  have "Data (packets pb ! 0) = frame_bytes ''abcdefghijkl'' [5] sample_packet sample_segment ''pad''"
    by (simp add: pb(2) sample_frame_def)
  moreover have "length ''abcdefghijkl'' = 12" by simp
  ultimately have "decodes (dps ! 0) sample_packet sample_segment"
    using all dps(2) sample_ok by (metis zero_less_one)
  with pb(2) dps show ?thesis by blast
qed

text \<open>Decoding packets one after the other into the same struct.\<close>

fun decode_seq :: "int \<Rightarrow> (CaptureInfo \<times> byte list) list \<Rightarrow> DecodedPacket \<Rightarrow> (int \<times> DecodedPacket) option" where
  "decode_seq largest [] dp = Some (largest, dp)"
| "decode_seq largest ((ci, data) # ps) dp = do { (largest, dp) \<leftarrow> decode largest ci data dp; decode_seq largest ps dp }"

lemma decode_seq_ok: "dp_ok dp \<Longrightarrow> \<exists>largest' dp'. decode_seq largest ps dp = Some (largest', dp') \<and> dp_ok dp' \<and> largest \<le> largest'"
proof (induction ps arbitrary: largest dp)
  case (Cons p ps)
  obtain ci data where p: "p = (ci, data)" by fastforce
  obtain l dp1 where 1: "decode largest ci data dp = Some (l, dp1)" "dp_ok dp1" "largest \<le> l"
    using decode_total [OF Cons.prems, of largest ci data] by blast
  obtain l' dp' where "decode_seq l ps dp1 = Some (l', dp')" "dp_ok dp'" "l \<le> l'"
    using Cons.IH [OF 1(2), of l] by blast
  with 1 p show ?case by auto
qed auto

text \<open>
  C28.  Whatever bytes arrive, in whatever order, in the same struct: decoding never panics, and the struct stays well formed.  Its sequence number has 32 bits, its network flow fits the
  fixed arrays of a flow, and a header with content or with one of the flags that the assembler looks at has both ports, so that computing its
  flow and its hash cannot panic either.
\<close>

theorem decode_well_typed:
  "\<exists>largest' dp. decode_seq largest ps newDecodedPacket = Some (largest', dp) \<and> largest \<le> largest' \<and>
     Seq (tcp (dp_layers dp)) < 2 ^ 32 \<and> flow_ok (NetFlow dp) \<and>
     (SYN (tcp (dp_layers dp)) \<or> FIN (tcp (dp_layers dp)) \<or> RST (tcp (dp_layers dp)) \<or> vis (t_Payload (tcp (dp_layers dp))) \<noteq> [] \<longrightarrow>
        length (sPort (tcp (dp_layers dp))) = 2 \<and> length (dPort (tcp (dp_layers dp))) = 2) \<and>
     (\<exists>f h k. TCP_TransportFlow (tcp (dp_layers dp)) = Some f \<and> Flow_FastHash f = Some h \<and> Flow_FastHash (NetFlow dp) = Some k)"
proof -
  obtain largest' dp where dp: "decode_seq largest ps newDecodedPacket = Some (largest', dp)" "dp_ok dp" "largest \<le> largest'"
    using decode_seq_ok [OF dp_ok_new] by blast
  then have ok: "layers_ok (dp_layers dp)" "ports_ok (tcp (dp_layers dp))" "flow_ok (NetFlow dp)" by (auto simp: dp_ok_def layers_ok_def)
  obtain f where "TCP_TransportFlow (tcp (dp_layers dp)) = Some f" "flow_ok f" using layers_ok_flows(3) [OF ok(1)] by blast
  with FastHash_total ok(3) have "\<exists>f h k. TCP_TransportFlow (tcp (dp_layers dp)) = Some f \<and> Flow_FastHash f = Some h \<and> Flow_FastHash (NetFlow dp) = Some k"
    by blast
  with dp ok(2,3) show ?thesis unfolding ports_ok_def by simp
qed

theorem decode_well_typed_witness:
  "\<exists>largest' dp. decode_seq 0 [(zeroInfo, sample_frame), (zeroInfo, ''garbage'')] newDecodedPacket = Some (largest', dp) \<and>
     Seq (tcp (dp_layers dp)) < 2 ^ 32 \<and> flow_ok (NetFlow dp)"
  using decode_well_typed [of 0 "[(zeroInfo, sample_frame), (zeroInfo, ''garbage'')]"] by blast

text \<open>
  Both directions of a connection get the same hash, so that they reach the same assembly worker, and opposite flows: this holds for frames that
  swap addresses and ports, whatever else differs and whatever the structs held before.
\<close>

theorem directions_share_hash:
  assumes "segment_ok s" and "segment_ok s'" and "packet_ok pkt" and "packet_ok pkt'" and "length macs = 12" and "length macs' = 12"
    and "opposite pkt pkt'" and "src_port s' = dst_port s" and "dst_port s' = src_port s"
  shows "\<exists>dp1 dp2. decode l1 ci1 (frame_bytes macs tcis pkt s trailer) dp = Some (l1, dp1) \<and>
    decode l2 ci2 (frame_bytes macs' tcis' pkt' s' trailer') dp' = Some (l2, dp2) \<and>
    FlowHash dp1 = FlowHash dp2 \<and> NetFlow dp2 = Flow_Reverse (NetFlow dp1)"
proof -
  obtain dp1 where 1: "decode l1 ci1 (frame_bytes macs tcis pkt s trailer) dp = Some (l1, dp1)" "decodes dp1 pkt s"
    using decode_frame [OF assms(1,3,5)] by blast
  obtain dp2 where 2: "decode l2 ci2 (frame_bytes macs' tcis' pkt' s' trailer') dp' = Some (l2, dp2)" "decodes dp2 pkt' s'"
    using decode_frame [OF assms(2,4,6)] by blast
  from 1(2) 2(2) connection_hash_opposite [OF assms(7-9,3)] have "FlowHash dp1 = FlowHash dp2"
    unfolding decodes_def by (metis option.inject)
  moreover from 1(2) 2(2) opposite_flow [OF assms(7)] have "NetFlow dp2 = Flow_Reverse (NetFlow dp1)"
    unfolding decodes_def by (metis option.inject option.simps(9))
  ultimately show ?thesis using 1(1) 2(1) by blast
qed

definition sample_reply :: segment where
  "sample_reply = sample_segment\<lparr>src_port := 11211, dst_port := 1234, content := ''END''\<rparr>"

theorem directions_share_hash_witness:
  "\<exists>dp1 dp2. decode 0 zeroInfo sample_frame newDecodedPacket = Some (0, dp1) \<and>
     decode 0 zeroInfo (frame_bytes ''mnopqrstuvwx'' [] (V4 (CHR 0x00) 0 0 (CHR 0x30) 0 ''efgh'' ''abcd'') sample_reply []) newDecodedPacket = Some (0, dp2) \<and>
     FlowHash dp1 = FlowHash dp2 \<and> NetFlow dp2 = Flow_Reverse (NetFlow dp1)"
  unfolding sample_frame_def
proof (rule directions_share_hash [OF sample_ok(1) _ sample_ok(2)])
  show "segment_ok sample_reply" using sample_ok(1) by (simp add: segment_ok_def sample_reply_def)
qed (simp_all add: sample_packet_def sample_reply_def sample_segment_def)

text \<open>The first fragment of a fragmented IPv4 packet: the flag for more fragments is set and the offset is zero.\<close>

definition fragment_bytes :: "byte list \<Rightarrow> byte list \<Rightarrow> byte list \<Rightarrow> byte list \<Rightarrow> byte list" where
  "fragment_bytes macs src dst body = macs @ put16 0x0800 @ ip4_header (CHR 0x00) 1 0x2000 (CHR 0x40) 0 src dst (length body) @ body"

lemma DecodeLayers_fragment:
  assumes "length macs = 12" and "length src = 4" and "length dst = 4" and "length body \<le> 65515"
  shows "\<exists>err decoded ls'. DecodeLayers LayerTypeEthernet (whole (fragment_bytes macs src dst body)) ls = Some (err, decoded, False, ls') \<and>
     LayerTypeTCP \<notin> set decoded \<and> tcp ls' = tcp ls"
proof -
  let ?ip = "ip4_header (CHR 0x00) 1 0x2000 (CHR 0x40) 0 src dst (length body) @ body"
  obtain e where e: "Ethernet_DecodeFromBytes \<lparr>vis = macs @ put16 0x0800 @ ?ip, spare = []\<rparr> (ether ls) = (None, False, e)"
    "EthernetType e = 0x0800" "eth_Payload e = \<lparr>vis = ?ip, spare = []\<rparr>"
    using Ethernet_decode_frame [OF assms(1), of "0x0800" ?ip "[]" "ether ls"] by auto
  obtain ip where ip: "IPv4_DecodeFromBytes \<lparr>vis = ?ip, spare = []\<rparr> (ipv4 ls) = (None, False, ip)" "IPv4_NextLayerType ip = LayerTypeOther"
    using IPv4_decode_frame [OF assms(2,3,4), where frag = "0x2000" and tos = "CHR 0x00" and ident = 1 and ttl = "CHR 0x40" and csum = 0 and trailer = "[]" and sp = "[]" and ip = "ipv4 ls"]  by (auto simp: flag_def)
  have "?ip \<noteq> []" by (simp add: ip4_header_def)
  moreover have "DecodeLayers LayerTypeEthernet (whole (fragment_bytes macs src dst body)) ls =
      DecodeLayers_loop LayerTypeEthernet LayerTypeIPv4 \<lparr>vis = ?ip, spare = []\<rparr> (ls\<lparr>ether := e\<rparr>) [LayerTypeEthernet] False"
    unfolding DecodeLayers_def fragment_bytes_def whole_def using e assms(1)
    by (subst DecodeLayers_loop.simps) (auto simp: layer_decoder_def Ethernet_NextLayerType_def EthernetType_LayerType_def)
  moreover have "\<exists>err. DecodeLayers_loop LayerTypeEthernet LayerTypeOther data l ds False = Some (err, ds, False, l)" for data l ds
    by (subst DecodeLayers_loop.simps) (simp add: layer_decoder_def)
  ultimately show ?thesis using ip
    by (subst (asm) DecodeLayers_loop.simps [of _ LayerTypeIPv4]) (fastforce simp: layer_decoder_def)
qed

lemma DecodeLayers_not_loopback:
  assumes "4 \<le> length data" and "data ! 1 \<noteq> CHR 0x00"
  shows "\<exists>err. DecodeLayers LayerTypeLoopback (whole data) ls = Some (err, [], False, ls)"
proof -
  obtain a b c d rest where data: "data = a # b # c # d # rest"
    using assms(1) by (metis (no_types, opaque_lifting) Suc_le_length_iff eval_nat_numeral(2,3) numeral_2_eq_2 semiring_norm(26,27))
  have "of_char b \<noteq> (0 :: nat)" using assms(2) data of_char_eq_iff [of b "CHR 0x00", where ?'a = nat] by simp
  then have "255 < be [d, c, b, a]" by simp
  with assms show ?thesis
    unfolding DecodeLayers_def
    by (subst DecodeLayers_loop.simps) (auto simp: whole_def layer_decoder_def Loopback_DecodeFromBytes_def data)
qed



end
