(* ===== verification/Capture.thy ===== *)
theory Capture
  imports PacketBuffer Strconv
begin

text \<open>
  Packet capture, \<^verbatim>\<open>capture/capture.go\<close>.  The pcap library is a parameter: the record \<open>pcap\<close> holds the calls that open
  a handle, and \<open>read\<close> is \<open>ZeroCopyReadPacketData\<close> on an open one.  The locale \<open>packet_source\<close> is the \<open>PacketSource\<close>
  interface as the decoder uses it; both the plain source here and the replayer interpret it.
\<close>

section \<open>Opening a source\<close>

datatype capture_error =
    ErrNoSource | ErrAmbiguousSource | ErrNoPort | CaptureEOF | NextErrorTimeoutExpired | BufferError buffer_error | PcapError string

definition snapLen :: int where
  "snapLen = 65535"

fun portFilter_loop :: "string \<Rightarrow> int list \<Rightarrow> string" where
  "portFilter_loop expr [] = expr"
| "portFilter_loop expr (port # ports) = portFilter_loop (expr @ '' or tcp port '' @ Itoa port) ports"

definition portFilter :: "int list \<Rightarrow> capture_error + string" where
  "portFilter ports =
     (case ports of [] \<Rightarrow> Inl ErrNoPort
      | p # ps \<Rightarrow> Inr (portFilter_loop (''tcp port '' @ Itoa p) ps))"

text \<open>The calls of the pcap library that open a handle; \<open>'i\<close> is an inactive and \<open>'h\<close> an active handle.\<close>

record ('i, 'h) pcap =
  NewInactiveHandle :: "string \<Rightarrow> capture_error + 'i"
  SetSnapLen :: "'i \<Rightarrow> int \<Rightarrow> capture_error + 'i"
  SetPromisc :: "'i \<Rightarrow> bool \<Rightarrow> capture_error + 'i"
  SetTimeout :: "'i \<Rightarrow> int \<Rightarrow> capture_error + 'i"
  SetBufferSize :: "'i \<Rightarrow> int \<Rightarrow> capture_error + 'i"
  Activate :: "'i \<Rightarrow> capture_error + 'h"
  OpenOffline :: "string \<Rightarrow> capture_error + 'h"
  SetBPFFilter :: "'h \<Rightarrow> string \<Rightarrow> capture_error + 'h"

text \<open>\<open>if err != nil { return nil, err }\<close>\<close>

definition attempt :: "'e + 'a \<Rightarrow> ('a \<Rightarrow> 'e + 'b) \<Rightarrow> 'e + 'b" where
  "attempt r f = (case r of Inl err \<Rightarrow> Inl err | Inr x \<Rightarrow> f x)"

definition newLiveCapture :: "('i, 'h) pcap \<Rightarrow> string \<Rightarrow> int \<Rightarrow> capture_error + 'h" where
  "newLiveCapture api netInterface bufferSize =
     attempt (NewInactiveHandle api netInterface) (\<lambda>inactive.
     attempt (SetSnapLen api inactive snapLen) (\<lambda>inactive.
     attempt (SetPromisc api inactive True) (\<lambda>inactive.
     attempt (SetTimeout api inactive (10 * 1000000)) (\<lambda>inactive.
     attempt (SetBufferSize api inactive (gint (bufferSize * 1024 * 1024))) (Activate api)))))"

definition makeHandle :: "('i, 'h) pcap \<Rightarrow> string \<Rightarrow> string \<Rightarrow> int \<Rightarrow> capture_error + 'h" where
  "makeHandle api netInterface infile bufferSize =
     (if netInterface \<noteq> [] \<and> infile \<noteq> [] then Inl ErrAmbiguousSource
      else if netInterface \<noteq> [] then newLiveCapture api netInterface bufferSize
      else if infile \<noteq> [] then OpenOffline api infile
      else Inl ErrNoSource)"

text \<open>Whether the source that \<open>New\<close> returns is wrapped in a replayer.\<close>

datatype 'h opened = Plain 'h | Replayed 'h nat nat

definition Capture_New ::
  "('i, 'h) pcap \<Rightarrow> string \<Rightarrow> string \<Rightarrow> int \<Rightarrow> bool \<Rightarrow> int list \<Rightarrow> capture_error + 'h opened" where
  "Capture_New api netInterface infile bufferSize noDelay ports =
     attempt (makeHandle api netInterface infile bufferSize) (\<lambda>handle.
     attempt (portFilter ports) (\<lambda>bpf.
     attempt (SetBPFFilter api handle bpf) (\<lambda>handle.
       if \<not> noDelay \<and> infile \<noteq> [] then Inr (Replayed handle 1000 (8 * 1024 * 1024)) else Inr (Plain handle))))"

section \<open>Collecting packets\<close>

type_synonym 'h reader = "'h \<Rightarrow> (capture_error + PacketData) \<times> 'h"

text \<open>The loop of \<open>CollectPackets\<close>: \<open>i\<close> packets have been read, at most \<open>n\<close> more may be.\<close>

fun Collect_loop :: "'h reader \<Rightarrow> nat \<Rightarrow> nat \<Rightarrow> PacketBuffer \<Rightarrow> 'h \<Rightarrow> (capture_error option \<times> PacketBuffer \<times> 'h) option" where
  "Collect_loop read 0 i pb h = Some (None, pb, h)"
| "Collect_loop read (Suc n) i pb h =
     (if BytesRemaining pb < snapLen then Some (None, pb, h)
      else case read h of
        (Inl err, h) \<Rightarrow>
          if (err = CaptureEOF \<or> err = NextErrorTimeoutExpired) \<and> i > 0 then Some (None, pb, h) else Some (Some err, pb, h)
      | (Inr pd, h) \<Rightarrow>
          do { (err, pb) \<leftarrow> Packet_Append pb pd;
               case err of Some e \<Rightarrow> Some (Some (BufferError e), pb, h) | None \<Rightarrow> Collect_loop read n (Suc i) pb h })"

definition CollectPackets :: "'h reader \<Rightarrow> 'h \<Rightarrow> PacketBuffer \<Rightarrow> (capture_error option \<times> PacketBuffer \<times> 'h) option" where
  "CollectPackets read h pb = (let pb = Packet_Clear pb in Collect_loop read (nat (PacketCap pb)) 0 pb h)"

definition DiscardPacket :: "'h reader \<Rightarrow> 'h \<Rightarrow> capture_error option \<times> 'h" where
  "DiscardPacket read h = (case read h of (Inl err, h) \<Rightarrow> (Some err, h) | (Inr _, h) \<Rightarrow> (None, h))"

section \<open>The interface\<close>

locale packet_source =
  fixes inv :: "'s \<Rightarrow> bool"
    and collect :: "'s \<Rightarrow> PacketBuffer \<Rightarrow> (capture_error option \<times> PacketBuffer \<times> 's) option"
    and discard :: "'s \<Rightarrow> (capture_error option \<times> 's) option"
  assumes collect_ok: "\<lbrakk> inv s; pb_inv pb; 0 < offsetsCap pb \<rbrakk> \<Longrightarrow>
      \<exists>err pb' s'. collect s pb = Some (err, pb', s') \<and> inv s' \<and> pb_inv pb' \<and>
        offsetsCap pb' = offsetsCap pb \<and> bytesCap pb' = bytesCap pb \<and>
        (err = None \<longrightarrow> snapLen \<le> int (bytesCap pb) \<longrightarrow> packets pb' \<noteq> [])"
    and discard_ok: "inv s \<Longrightarrow> \<exists>err s'. discard s = Some (err, s') \<and> inv s'"

section \<open>Nothing is lost between the handle and the buffer\<close>

text \<open>The first \<open>n\<close> reads from a handle.\<close>

fun reads :: "'h reader \<Rightarrow> nat \<Rightarrow> 'h \<Rightarrow> (capture_error + PacketData) list \<times> 'h" where
  "reads read 0 h = ([], h)"
| "reads read (Suc n) h = (let (r, h) = read h; (rs, h) = reads read n h in (r # rs, h))"

lemma Collect_loop_total:
  "\<lbrakk> pb_inv pb; 0 < offsetsCap pb \<rbrakk> \<Longrightarrow> \<exists>err pb' h'. Collect_loop read n i pb h = Some (err, pb', h') \<and> pb_inv pb' \<and>
     offsetsCap pb' = offsetsCap pb \<and> bytesCap pb' = bytesCap pb \<and> (\<exists>ps. packets pb' = packets pb @ ps) \<and>
     (err = None \<longrightarrow> i = 0 \<longrightarrow> 0 < n \<longrightarrow> snapLen \<le> BytesRemaining pb \<longrightarrow> packets pb' \<noteq> [])"
proof (induction n arbitrary: i pb h)
  case (Suc n)
  show ?case
  proof (cases "BytesRemaining pb < snapLen")
    case False
    obtain r h1 where r: "read h = (r, h1)" by force
    show ?thesis
    proof (cases r)
      case (Inr pd)
      obtain err pb1 where a: "Packet_Append pb pd = Some (err, pb1)" "pb_inv pb1" "offsetsCap pb1 = offsetsCap pb"
        "bytesCap pb1 = bytesCap pb" "err = None \<longrightarrow> packets pb1 = packets pb @ [pd]" "err \<noteq> None \<longrightarrow> pb1 = pb"
        using Packet_Append_ok [OF Suc.prems, of pd] by (metis option.distinct(1))
      show ?thesis
      proof (cases err)
        case None
        from Suc.IH [of pb1 "Suc i" h1] Suc.prems(2) a None r Inr False show ?thesis by fastforce
      qed (use a r Inr False in auto)
    qed (use Suc.prems r False in auto)
  qed (use Suc.prems in simp)
qed simp

text \<open>
  How a batch relates to the reads: \<open>ps\<close> packets were read and stored; the loop stopped because the buffer had no
  room for another packet, or because of the answer \<open>e\<close> of the next read.
\<close>

lemma Collect_loop_reads:
  assumes "pb_inv pb" and "length (packets pb) + n \<le> offsetsCap pb" and small: "\<And>h pd h'. read h = (Inr pd, h') \<Longrightarrow> int (length (Data pd)) \<le> snapLen"
    and "0 < offsetsCap pb"
  shows "\<exists>err pb' h' ps. Collect_loop read n i pb h = Some (err, pb', h') \<and> pb_inv pb' \<and> packets pb' = packets pb @ ps \<and>
    ((\<exists>h1. reads read (length ps) h = (map Inr ps, h1) \<and>
       (h' = h1 \<and> err = None \<and> (length ps = n \<or> BytesRemaining pb' < snapLen) \<or>
        (\<exists>e. read h1 = (Inl e, h') \<and>
           err = (if (e = CaptureEOF \<or> e = NextErrorTimeoutExpired) \<and> i + length ps > 0 then None else Some e)))))"
  using assms(1,2,4)
proof (induction n arbitrary: i pb h)
  case 0
  then show ?case by (intro exI [of _ None] exI [of _ pb] exI [of _ h] exI [of _ "[]"]) simp
next
  case (Suc n)
  obtain r h1 where r: "read h = (r, h1)" by force
  consider "BytesRemaining pb < snapLen" | "\<not> BytesRemaining pb < snapLen" "\<exists>e. r = Inl e"
    | pd where "\<not> BytesRemaining pb < snapLen" "r = Inr pd" by (cases r) auto
  then show ?case
  proof cases
    case 1
    with Suc.prems show ?thesis by (intro exI [of _ None] exI [of _ pb] exI [of _ h] exI [of _ "[]"]) simp
  next
    case 2
    then obtain e where e: "r = Inl e" by blast
    with 2 r Suc.prems show ?thesis
      by (intro exI [of _ "if (e = CaptureEOF \<or> e = NextErrorTimeoutExpired) \<and> i > 0 then None else Some e"]
          exI [of _ pb] exI [of _ h1] exI [of _ "[]"]) auto
  next
    case 3
    have "length (bytes pb) + length (Data pd) \<le> bytesCap pb"
      using small [of h pd h1] 3 r by (simp add: BytesRemaining_def)
    then obtain pb1 where a: "Packet_Append pb pd = Some (None, pb1)" "pb_inv pb1" "packets pb1 = packets pb @ [pd]"
      "offsetsCap pb1 = offsetsCap pb"
      using Packet_Append_ok [OF Suc.prems(1,3), of pd] Suc.prems(2) by auto
    from Suc.IH [OF a(2), of "Suc i" h1] a(3,4) Suc.prems(2,3)
    obtain err pb' h' ps h2 where c: "Collect_loop read n (Suc i) pb1 h1 = Some (err, pb', h')" "pb_inv pb'"
      "packets pb' = packets pb1 @ ps" "reads read (length ps) h1 = (map Inr ps, h2)"
      "h' = h2 \<and> err = None \<and> (length ps = n \<or> BytesRemaining pb' < snapLen) \<or>
        (\<exists>e. read h2 = (Inl e, h') \<and>
           err = (if (e = CaptureEOF \<or> e = NextErrorTimeoutExpired) \<and> Suc i + length ps > 0 then None else Some e))"
      by auto
    have "Collect_loop read (Suc n) i pb h = Some (err, pb', h')" using 3 r a(1) c(1) by simp
    moreover have "reads read (length (pd # ps)) h = (map Inr (pd # ps), h2)" using 3 r c(4) by simp
    ultimately show ?thesis using c(2,3,5) a(3)
      by (intro exI [of _ err] exI [of _ pb'] exI [of _ h'] exI [of _ "pd # ps"]) auto
  qed
qed

interpretation plain: packet_source "\<lambda>_. True" "CollectPackets read" "\<lambda>h. Some (DiscardPacket read h)" for read :: "'h reader"
proof
  fix h :: 'h and pb :: PacketBuffer
  assume "pb_inv pb" "0 < offsetsCap pb"
  moreover from this have "pb_inv (Packet_Clear pb)" "0 < offsetsCap (Packet_Clear pb)"
    using pb_inv_Clear [of pb] by (auto simp: Packet_Clear_def Block_Clear_def)
  ultimately show "\<exists>err pb' s'. CollectPackets read h pb = Some (err, pb', s') \<and> True \<and> pb_inv pb' \<and>
      offsetsCap pb' = offsetsCap pb \<and> bytesCap pb' = bytesCap pb \<and>
      (err = None \<longrightarrow> snapLen \<le> int (bytesCap pb) \<longrightarrow> packets pb' \<noteq> [])"
    using Collect_loop_total [of "Packet_Clear pb" read "nat (PacketCap (Packet_Clear pb))" 0 h]
    by (auto simp: CollectPackets_def Packet_Clear_def Block_Clear_def PacketCap_def BytesRemaining_def)
qed auto

section \<open>Properties\<close>

text \<open>The handle delivers at most the snapshot length of a packet.\<close>

definition short_packets :: "'h reader \<Rightarrow> bool" where
  "short_packets read \<longleftrightarrow> (\<forall>h pd h'. read h = (Inr pd, h') \<longrightarrow> int (length (Data pd)) \<le> snapLen)"

text \<open>
  C24.  \<open>CollectPackets\<close> hands over exactly what the handle delivers: the batch is the packets of the next reads, in order, none lost
  and none twice.  It ends when the buffer is full, when there might be no room for another packet, or at the first read that
  yields no packet; an end of file or time-out is reported only if nothing was read before it.
\<close>

theorem collect_lossless:
  assumes "pb_inv pb" and "0 < offsetsCap pb" and "short_packets read"
  shows "\<exists>err pb' h' h1. CollectPackets read h pb = Some (err, pb', h') \<and> pb_inv pb' \<and>
    reads read (length (packets pb')) h = (map Inr (packets pb'), h1) \<and>
    (h' = h1 \<and> err = None \<and> (length (packets pb') = offsetsCap pb \<or> BytesRemaining pb' < snapLen) \<or>
     (\<exists>e. read h1 = (Inl e, h') \<and>
        err = (if (e = CaptureEOF \<or> e = NextErrorTimeoutExpired) \<and> packets pb' \<noteq> [] then None else Some e)))"
proof -
  have c: "pb_inv (Packet_Clear pb)" "packets (Packet_Clear pb) = []" "offsetsCap (Packet_Clear pb) = offsetsCap pb"
    using pb_inv_Clear [OF assms(1)] by (auto simp: Packet_Clear_def Block_Clear_def)
  have sm: "\<And>h pd h'. read h = (Inr pd, h') \<Longrightarrow> int (length (Data pd)) \<le> snapLen"
    using assms(3) unfolding short_packets_def by blast
  have "CollectPackets read h pb = Collect_loop read (offsetsCap pb) 0 (Packet_Clear pb) h"
    by (simp add: CollectPackets_def PacketCap_def c(3))
  with Collect_loop_reads [where read = read and n = "offsetsCap pb" and i = 0 and h = h, OF c(1) _ sm] c(2,3) assms(2) show ?thesis by simp
qed

text \<open>A handle that delivers the packets of a list and then the end of the file.\<close>

fun list_read :: "PacketData list \<Rightarrow> (capture_error + PacketData) \<times> PacketData list" where
  "list_read [] = (Inl CaptureEOF, [])"
| "list_read (pd # pds) = (Inr (pd\<lparr>Data := take 65535 (Data pd)\<rparr>), pds)"

theorem collect_lossless_witness:
  "\<exists>err pb' h' h1. CollectPackets list_read [\<lparr>Info = zeroInfo, Data = ''ab''\<rparr>] (NewPacketBuffer 10 100000) = Some (err, pb', h') \<and>
    pb_inv pb' \<and> reads list_read (length (packets pb')) [\<lparr>Info = zeroInfo, Data = ''ab''\<rparr>] = (map Inr (packets pb'), h1)"
proof -
  have small: "short_packets list_read"
    unfolding short_packets_def
  proof (intro allI impI)
    fix h pd h'
    show "list_read h = (Inr pd, h') \<Longrightarrow> int (length (Data pd)) \<le> snapLen" by (cases h) (auto simp: snapLen_def)
  qed
  have "pb_inv (NewPacketBuffer 10 100000)" "0 < offsetsCap (NewPacketBuffer 10 100000)"
    using pb_inv_New [of 10 100000] by auto
  from collect_lossless [OF this small, where h = "[\<lparr>Info = zeroInfo, Data = ''ab''\<rparr>]"] show ?thesis by blast
qed

text \<open>Reading a filter expression back.\<close>

fun filter_ports :: "string list \<Rightarrow> int list option" where
  "filter_ports (a # b # n # rest) =
     (if a = ''tcp'' \<and> b = ''port''
      then case Atoi n of
          Inl _ \<Rightarrow> None
        | Inr p \<Rightarrow> (case rest of [] \<Rightarrow> Some [p] | c # rest' \<Rightarrow> if c = ''or'' then map_option ((#) p) (filter_ports rest') else None)
      else None)"
| "filter_ports _ = None"

lemma Itoa_no_space: "CHR '' '' \<notin> set (Itoa i)"
  using Utoa_digits [of "nat i"] Utoa_digits [of "nat (- i)"] by (auto simp: Itoa_def is_digit_def)

lemma portFilter_loop_acc: "portFilter_loop (a @ b) ports = a @ portFilter_loop b ports"
  by (induction ports arbitrary: b) simp_all

lemma split_clause: "bytes_Split (CHR '' '') (''tcp port '' @ s) = ''tcp'' # ''port'' # bytes_Split (CHR '' '') s"
  by (simp split: list.splits)

lemma filter_ports_loop:
  "\<forall>p\<in>set (port # ports). int64 p \<Longrightarrow>
   filter_ports (bytes_Split (CHR '' '') (portFilter_loop (''tcp port '' @ Itoa port) ports)) = Some (port # ports)"
proof (induction ports arbitrary: port)
  case Nil
  then show ?case using Itoa_no_space [of port] by (simp add: split_clause bytes_Split_nosep Atoi_Itoa del: append.simps)
next
  case (Cons p ports)
  have "portFilter_loop (''tcp port '' @ Itoa port) (p # ports) =
      ''tcp port '' @ Itoa port @ CHR '' '' # ''or'' @ CHR '' '' # portFilter_loop (''tcp port '' @ Itoa p) ports"
    using portFilter_loop_acc [of "''tcp port '' @ Itoa port @ '' or ''" "''tcp port '' @ Itoa p" ports] by simp
  moreover have "bytes_Split (CHR '' '') \<dots> = ''tcp'' # ''port'' # Itoa port # ''or'' #
      bytes_Split (CHR '' '') (portFilter_loop (''tcp port '' @ Itoa p) ports)"
    unfolding split_clause using Itoa_no_space [of port] by (simp add: bytes_Split_append bytes_Split_append [of _ "''or''", simplified])
  ultimately show ?case using Cons by (simp add: Atoi_Itoa)
qed

text \<open>
  The filter expression names exactly the requested ports: reading the expression back gives the list of ports, and an empty list is
  refused.
\<close>

theorem port_filter_roundtrip:
  assumes "\<forall>p\<in>set ports. int64 p"
  shows "case portFilter ports of
      Inl err \<Rightarrow> err = ErrNoPort \<and> ports = []
    | Inr expr \<Rightarrow> filter_ports (bytes_Split (CHR '' '') expr) = Some ports"
  using assms filter_ports_loop by (cases ports) (simp_all add: portFilter_def del: append.simps bytes_Split.simps)

theorem port_filter_roundtrip_witness:
  "portFilter [80, 90] = Inr ''tcp port 80 or tcp port 90'' \<and>
   filter_ports (bytes_Split (CHR '' '') ''tcp port 80 or tcp port 90'') = Some [80, 90]"
proof -
  have "portFilter [80, 90] = Inr ''tcp port 80 or tcp port 90''" by code_simp
  with port_filter_roundtrip [of "[80, 90]"] show ?thesis by (simp add: int64_def del: bytes_Split.simps)
qed

end
