(* ===== verification/Runs.thy ===== *)
theory Runs
  imports Main
begin

text \<open>
  Runs of labelled step relations, for the components whose goroutines are interleaved, and the argument by which such a system is shown to
  come to rest: the locale \<open>winding_down\<close> asks for an invariant, a weight that every step except the external ones lowers, and a possible
  step while something is left to do.
\<close>

section \<open>Runs\<close>

inductive runs :: "('s \<Rightarrow> 'l \<Rightarrow> 's \<Rightarrow> bool) \<Rightarrow> 's \<Rightarrow> 'l list \<Rightarrow> 's \<Rightarrow> bool" for step where
  runs_nil: "runs step p [] p"
| runs_snoc: "\<lbrakk> runs step p ls q; step q l r \<rbrakk> \<Longrightarrow> runs step p (ls @ [l]) r"

inductive_cases runs_nilE [elim!]: "runs step p [] q"

declare runs_nil [simp, intro]

lemma runs_snoc_iff: "runs step p (ls @ [l]) r \<longleftrightarrow> (\<exists>q. runs step p ls q \<and> step q l r)"
  by (subst runs.simps) auto

lemma runs_append_iff: "runs step p (ls @ ms) r \<longleftrightarrow> (\<exists>q. runs step p ls q \<and> runs step q ms r)"
proof (induction ms arbitrary: r rule: rev_induct)
  case (snoc l ms)
  then show ?case unfolding append_assoc [symmetric] runs_snoc_iff by blast
qed (auto elim: runs.cases)

lemma runs_one_iff [simp]: "runs step p [l] q \<longleftrightarrow> step p l q"
  using runs_snoc_iff [of step p "[]" l q] by auto

lemma runs_Cons_iff: "runs step p (l # ls) r \<longleftrightarrow> (\<exists>q. step p l q \<and> runs step q ls r)"
  using runs_append_iff [of step p "[l]" ls r] by simp

lemma runs_cons: "\<lbrakk> step p l q; runs step q ls r \<rbrakk> \<Longrightarrow> runs step p (l # ls) r"
  by (auto simp: runs_Cons_iff)

lemma runs_invariant:
  assumes "runs step p ls q" and "I p" and "\<And>p l q. \<lbrakk> step p l q; I p; l \<in> set ls \<rbrakk> \<Longrightarrow> I q"
  shows "I q"
  using assms by (induction rule: runs.induct) auto

section \<open>Coming to rest\<close>

text \<open>Weights are sums over the parties; one of them moves.\<close>

lemma sum_list_update_nat: "i < length xs \<Longrightarrow> (\<Sum>x\<leftarrow>xs[i := y]. f x) + f (xs ! i) = (\<Sum>x\<leftarrow>xs. f x) + (f y :: nat)"
proof (induction xs arbitrary: i)
  case (Cons x xs)
  then show ?case by (cases i) (auto simp: ac_simps)
qed simp

locale winding_down =
  fixes step :: "'s \<Rightarrow> 'l \<Rightarrow> 's \<Rightarrow> bool" and inv :: "'s \<Rightarrow> bool" and external :: "'l \<Rightarrow> bool" and weight :: "'s \<Rightarrow> nat" and done_with :: "'s \<Rightarrow> bool"
  assumes inv_step: "\<lbrakk> step p l q; inv p; \<not> external l \<rbrakk> \<Longrightarrow> inv q"
    and lowers: "\<lbrakk> step p l q; inv p; \<not> external l \<rbrakk> \<Longrightarrow> weight q < weight p"
    and progress: "\<lbrakk> inv p; \<not> done_with p \<rbrakk> \<Longrightarrow> \<exists>l q. step p l q \<and> \<not> external l"
begin

lemma inv_runs: "\<lbrakk> runs step p ls q; inv p; \<forall>l\<in>set ls. \<not> external l \<rbrakk> \<Longrightarrow> inv q"
  by (rule runs_invariant [of step p ls q inv]) (auto dest: inv_step)

text \<open>A run without external steps is no longer than the weight says, and stops only when nothing is left to do.\<close>

lemma bounded: "\<lbrakk> runs step p ls q; inv p; \<forall>l\<in>set ls. \<not> external l \<rbrakk> \<Longrightarrow> length ls + weight q \<le> weight p"
proof (induction rule: runs.induct)
  case (runs_snoc p ls q l r)
  then have "inv q" using inv_runs by simp
  with runs_snoc lowers [of q l r] show ?case by simp
qed simp

lemma not_stuck:
  assumes "runs step p ls q" and "inv p" and "\<forall>l\<in>set ls. \<not> external l" and "\<not> done_with q"
  shows "\<exists>l r. step q l r \<and> \<not> external l"
  using progress [OF inv_runs [OF assms(1-3)] assms(4)] .

lemma finishes: "inv p \<Longrightarrow> \<exists>ls q. runs step p ls q \<and> (\<forall>l\<in>set ls. \<not> external l) \<and> done_with q"
proof (induction "weight p" arbitrary: p rule: less_induct)
  case less
  show ?case
  proof (cases "done_with p")
    case True
    then show ?thesis by (intro exI [of _ "[]"]) auto
  next
    case False
    with progress less.prems obtain l q where s: "step p l q" "\<not> external l" by blast
    with less lowers inv_step obtain ls r where "runs step q ls r" "\<forall>l\<in>set ls. \<not> external l" "done_with r" by metis
    with s show ?thesis by (intro exI [of _ "l # ls"]) (auto intro: runs_cons)
  qed
qed

end

end
