(* ===== verification/DecodePool.thy ===== *)
theory DecodePool
  imports Decode Capture Runs
begin

text \<open>
  The pool of decoding goroutines, \<^verbatim>\<open>decode/pool.go\<close> and \<^verbatim>\<open>decode/worker.go\<close>.  The pool's \<open>Run\<close> and the \<open>loop\<close> of every worker interleave: the step
  relation has one rule for each communication of each goroutine.  A step is labelled with the batch that \<open>Run\<close> hands to a worker or that a
  worker hands to the handler.  The client relies on the source through the locale \<open>packet_source\<close> and on the buffer through its invariant.
\<close>

section \<open>Workers\<close>

text \<open>Where a worker's \<open>loop\<close> is: about to send itself to the ready queue, waiting for work, in the handler, or returned.\<close>

datatype loop_pc = Publish | Await | Handle | Stopped

record worker =
  pb :: PacketBuffer
  workReady :: nat
  closed :: bool
  phase :: loop_pc
  dec :: decoder

text \<open>Where \<open>Run\<close> is: in its loop, receiving from the ready queue to close the worker number \<open>i\<close>, or returned.\<close>

datatype run_pc = Running | Closing nat | Exited

record 's Pool =
  numWorkers :: nat
  src :: 's
  readyQ :: "nat list"
  PacketsCaptured :: int
  PacketsDropped :: int
  workers :: "worker list"
  pc :: run_pc

definition startWorker :: "nat \<Rightarrow> nat \<Rightarrow> worker" where
  "startWorker batch maxBytes = \<lparr>pb = NewPacketBuffer batch maxBytes, workReady = 0, closed = False, phase = Publish, dec = newDecoder\<rparr>"

definition NewPool :: "nat \<Rightarrow> 's \<Rightarrow> 's Pool" where
  "NewPool n source =
     \<lparr>numWorkers = n, src = source, readyQ = [], PacketsCaptured = 0, PacketsDropped = 0,
      workers = replicate n (startWorker 1000 (8 * 1024 * 1024)), pc = Running\<rparr>"

definition upd_worker :: "nat \<Rightarrow> (worker \<Rightarrow> worker) \<Rightarrow> 's Pool \<Rightarrow> 's Pool" where
  "upd_worker i f p = p\<lparr>workers := (workers p)[i := f (workers p ! i)]\<rparr>"

definition buf :: "worker \<Rightarrow> PacketBuffer" where
  "buf w = pb w"

text \<open>
  Sending on a channel is possible while there is room: \<open>workReady\<close> holds one element, the ready queue \<open>numWorkers\<close>.  A send
  that has to wait is \<^const>\<open>None\<close>.
\<close>

definition work :: "nat \<Rightarrow> 's Pool \<Rightarrow> 's Pool option" where
  "work i p =
     (if PacketLen (pb (workers p ! i)) > 0
      then if workReady (workers p ! i) < 1 then Some (upd_worker i (\<lambda>w. w\<lparr>workReady := workReady w + 1\<rparr>) p) else None
      else if length (readyQ p) < numWorkers p then Some (p\<lparr>readyQ := readyQ p @ [i]\<rparr>) else None)"

text \<open>Closing a closed channel panics.\<close>

definition close :: "nat \<Rightarrow> 's Pool \<Rightarrow> 's Pool option" where
  "close i p = (if closed (workers p ! i) then None else Some (upd_worker i (\<lambda>w. w\<lparr>closed := True\<rparr>) p))"

definition Stats :: "'s Pool \<Rightarrow> int \<times> int" where
  "Stats p = (PacketsCaptured p, PacketsDropped p)"

section \<open>Handing packets to a worker\<close>

type_synonym 's collector = "'s \<Rightarrow> PacketBuffer \<Rightarrow> (capture_error option \<times> PacketBuffer \<times> 's) option"

text \<open>The loop repeats the call until it does not time out.\<close>

partial_function (option) collect_loop ::
  "'s collector \<Rightarrow> nat \<Rightarrow> 's Pool \<Rightarrow> (capture_error option \<times> 's Pool) option" where
  "collect_loop collect i p =
     do { (err, b, s) \<leftarrow> collect (src p) (buf (workers p ! i));
          let p = upd_worker i (\<lambda>w. w\<lparr>pb := b\<rparr>) (p\<lparr>src := s\<rparr>);
          if err \<noteq> Some NextErrorTimeoutExpired
          then Some (err, p\<lparr>PacketsCaptured := gint (PacketsCaptured p + PacketLen (buf (workers p ! i)))\<rparr>)
          else collect_loop collect i p }"

declare collect_loop.simps [code]

definition sendToWorker :: "'s collector \<Rightarrow> nat \<Rightarrow> 's Pool \<Rightarrow> (capture_error option \<times> 's Pool) option" where
  "sendToWorker collect i p =
     do { (err, p) \<leftarrow> collect_loop collect i p;
          if err = Some CaptureEOF then Some (err, p)
          else if err \<noteq> None then Some (err, p)
          else do { p \<leftarrow> work i p; Some (None, p) } }"

section \<open>The goroutines\<close>

datatype label = Sent "PacketData list" | Handled "DecodedPacket list" | Silent

text \<open>What a call of \<open>sendToWorker\<close> that ended with \<open>err\<close> hands over.\<close>

definition sent_label :: "capture_error option \<Rightarrow> PacketBuffer \<Rightarrow> label" where
  "sent_label err b = (if err = None \<and> packets b \<noteq> [] then Sent (packets b) else Silent)"

inductive step :: "'s collector \<Rightarrow> ('s \<Rightarrow> (capture_error option \<times> 's) option) \<Rightarrow> 's Pool \<Rightarrow> label \<Rightarrow> 's Pool \<Rightarrow> bool"
  for collect discard where
  dispatch: "\<lbrakk> pc p = Running; readyQ p = i # q; sendToWorker collect i (p\<lparr>readyQ := q\<rparr>) = Some (err, p'); err \<noteq> Some CaptureEOF \<rbrakk>
    \<Longrightarrow> step collect discard p (sent_label err (pb (workers p' ! i))) p'"
| reach_eof: "\<lbrakk> pc p = Running; readyQ p = i # q; sendToWorker collect i (p\<lparr>readyQ := q\<rparr>) = Some (Some CaptureEOF, p'); close i p' = Some p'' \<rbrakk>
    \<Longrightarrow> step collect discard p Silent (p''\<lparr>pc := Closing 1\<rparr>)"
| discard_one: "\<lbrakk> pc p = Running; readyQ p = []; discard (src p) = Some (err, s) \<rbrakk>
    \<Longrightarrow> step collect discard p Silent (p\<lparr>src := s, PacketsDropped := (if err = None then gint (PacketsDropped p + 1) else PacketsDropped p)\<rparr>)"
| close_next: "\<lbrakk> pc p = Closing k; k < numWorkers p; readyQ p = i # q; close i (p\<lparr>readyQ := q\<rparr>) = Some p' \<rbrakk>
    \<Longrightarrow> step collect discard p Silent (p'\<lparr>pc := Closing (Suc k)\<rparr>)"
| exit: "\<lbrakk> pc p = Closing k; numWorkers p \<le> k \<rbrakk> \<Longrightarrow> step collect discard p Silent (p\<lparr>pc := Exited\<rparr>)"
| publish: "\<lbrakk> i < length (workers p); phase (workers p ! i) = Publish; length (readyQ p) < numWorkers p \<rbrakk>
    \<Longrightarrow> step collect discard p Silent (upd_worker i (\<lambda>w. w\<lparr>phase := Await\<rparr>) (p\<lparr>readyQ := readyQ p @ [i]\<rparr>))"
| take_work: "\<lbrakk> i < length (workers p); phase (workers p ! i) = Await; 0 < workReady (workers p ! i) \<rbrakk>
    \<Longrightarrow> step collect discard p Silent (upd_worker i (\<lambda>w. w\<lparr>phase := Handle, workReady := workReady w - 1\<rparr>) p)"
| stop: "\<lbrakk> i < length (workers p); phase (workers p ! i) = Await; workReady (workers p ! i) = 0; closed (workers p ! i) \<rbrakk>
    \<Longrightarrow> step collect discard p Silent (upd_worker i (\<lambda>w. w\<lparr>phase := Stopped\<rparr>) p)"
| handle: "\<lbrakk> i < length (workers p); phase (workers p ! i) = Handle; decodeBatch (pb (workers p ! i)) (dec (workers p ! i)) = Some (dps, d) \<rbrakk>
    \<Longrightarrow> step collect discard p (Handled dps) (upd_worker i (\<lambda>w. w\<lparr>phase := Publish, dec := d\<rparr>) p)"

abbreviation run :: "'s collector \<Rightarrow> ('s \<Rightarrow> (capture_error option \<times> 's) option) \<Rightarrow> 's Pool \<Rightarrow> label list \<Rightarrow> 's Pool \<Rightarrow> bool" where
  "run collect discard \<equiv> runs (step collect discard)"

inductive_cases stepE: "step collect discard p l p'"

section \<open>Ownership of the buffers\<close>

text \<open>The buffer and the decoder of a worker.\<close>

definition buf_ok :: "PacketBuffer \<Rightarrow> bool" where
  "buf_ok b \<longleftrightarrow> pb_inv b \<and> offsetsCap b = 1000 \<and> bytesCap b = 8388608"

text \<open>
  A worker is in the ready queue only while it waits without work, and its \<open>workReady\<close> channel holds something only if its buffer
  has been filled.
\<close>

definition worker_ok :: "bool \<Rightarrow> worker \<Rightarrow> bool" where
  "worker_ok queued w \<longleftrightarrow> buf_ok (pb w) \<and> decoder_ok (dec w) \<and>
     (case phase w of
        Publish \<Rightarrow> workReady w = 0 \<and> \<not> closed w \<and> \<not> queued
      | Await \<Rightarrow> workReady w \<le> 1 \<and> (workReady w = 1 \<longrightarrow> \<not> closed w \<and> \<not> queued \<and> packets (pb w) \<noteq> []) \<and> (queued \<longrightarrow> \<not> closed w)
      | Handle \<Rightarrow> workReady w = 0 \<and> \<not> closed w \<and> \<not> queued
      | Stopped \<Rightarrow> workReady w = 0 \<and> closed w \<and> \<not> queued)"

definition closed_count :: "worker list \<Rightarrow> nat" where
  "closed_count ws = length (filter closed ws)"

fun pc_ok :: "run_pc \<Rightarrow> worker list \<Rightarrow> bool" where
  "pc_ok Running ws \<longleftrightarrow> closed_count ws = 0"
| "pc_ok (Closing k) ws \<longleftrightarrow> closed_count ws = k"
| "pc_ok Exited ws \<longleftrightarrow> closed_count ws = length ws"

definition pool_ok :: "('s \<Rightarrow> bool) \<Rightarrow> 's Pool \<Rightarrow> bool" where
  "pool_ok sinv p \<longleftrightarrow> sinv (src p) \<and> length (workers p) = numWorkers p \<and> distinct (readyQ p) \<and> set (readyQ p) \<subseteq> {..<numWorkers p} \<and>
     (\<forall>i<numWorkers p. worker_ok (i \<in> set (readyQ p)) (workers p ! i)) \<and> pc_ok (pc p) (workers p)"

lemma pool_ok_New: "sinv s \<Longrightarrow> pool_ok sinv (NewPool n s)"
  using pb_inv_New [of 1000 8388608] decoder_ok_new
  by (simp add: pool_ok_def NewPool_def startWorker_def worker_ok_def buf_ok_def closed_count_def
      NewPacketBuffer_def NewBlockBuffer_def BlockBuffer.defs PacketBuffer.defs)

lemma upd_worker_simps [simp]:
  "workers (upd_worker i f p) = (workers p)[i := f (workers p ! i)]" "readyQ (upd_worker i f p) = readyQ p"
  "numWorkers (upd_worker i f p) = numWorkers p" "src (upd_worker i f p) = src p" "pc (upd_worker i f p) = pc p"
  "PacketsCaptured (upd_worker i f p) = PacketsCaptured p"
  by (simp_all add: upd_worker_def)

lemma room_in_queue:
  assumes "pool_ok sinv p" and "i < numWorkers p" and "i \<notin> set (readyQ p)"
  shows "length (readyQ p) < numWorkers p"
proof -
  have "set (readyQ p) \<subseteq> {..<numWorkers p} - {i}" using assms by (auto simp: pool_ok_def)
  then have "card (set (readyQ p)) \<le> card ({..<numWorkers p} - {i})" by (intro card_mono) auto
  then show ?thesis using assms by (simp add: pool_ok_def distinct_card)
qed

lemma closed_count_close:
  "\<lbrakk> i < length ws; \<not> closed (ws ! i); closed w \<rbrakk> \<Longrightarrow> closed_count (ws[i := w]) = Suc (closed_count ws)"
proof (induction ws arbitrary: i)
  case (Cons x ws)
  then show ?case by (cases i) (auto simp: closed_count_def)
qed simp

lemma closed_count_same:
  "closed w = closed (ws ! i) \<Longrightarrow> closed_count (ws[i := w]) = closed_count ws"
proof (induction ws arbitrary: i)
  case (Cons x ws)
  then show ?case by (cases i) (auto simp: closed_count_def)
qed simp

lemma closed_count_all: "closed_count ws = length ws \<longleftrightarrow> (\<forall>w\<in>set ws. closed w)"
  by (metis closed_count_def filter_id_conv length_filter_less less_irrefl)

text \<open>Replacing one worker.\<close>

lemma pool_ok_upd:
  assumes "pool_ok sinv p" and "i < numWorkers p" and "sinv (src p')" and "numWorkers p' = numWorkers p" and "workers p' = (workers p)[i := w]"
    and "set (readyQ p') \<subseteq> {..<numWorkers p}" and "distinct (readyQ p')"
    and "\<forall>j. j \<noteq> i \<longrightarrow> (j \<in> set (readyQ p')) = (j \<in> set (readyQ p))" and "worker_ok (i \<in> set (readyQ p')) w"
    and "pc_ok (pc p') ((workers p)[i := w])"
  shows "pool_ok sinv p'"
  using assms by (auto simp: pool_ok_def nth_list_update)

lemma pc_ok_same: "closed w = closed (ws ! i) \<Longrightarrow> pc_ok c (ws[i := w]) = pc_ok c ws"
  by (cases c) (simp_all add: closed_count_same)

text \<open>The worker at the head of the ready queue waits, without work and with its channel open.\<close>

lemma queue_head:
  assumes "pool_ok sinv p" and "readyQ p = i # q"
  shows "i < numWorkers p" and "length (workers p) = numWorkers p" and "i \<notin> set q" and "distinct q" and "set q \<subseteq> {..<numWorkers p}"
    and "phase (workers p ! i) = Await" and "workReady (workers p ! i) = 0" and "\<not> closed (workers p ! i)"
    and "buf_ok (pb (workers p ! i))" and "decoder_ok (dec (workers p ! i))"
proof -
  have i: "i < numWorkers p" "worker_ok True (workers p ! i)" using assms by (auto simp: pool_ok_def)
  then show "phase (workers p ! i) = Await" "workReady (workers p ! i) = 0" "\<not> closed (workers p ! i)"
    "buf_ok (pb (workers p ! i))" "decoder_ok (dec (workers p ! i))"
    by (auto simp: worker_ok_def le_Suc_eq split: loop_pc.splits)
qed (use assms in \<open>auto simp: pool_ok_def\<close>)

lemma busy_worker:
  assumes "pool_ok sinv p" and "i < length (workers p)"
  shows "i < numWorkers p" and "length (workers p) = numWorkers p" and "worker_ok (i \<in> set (readyQ p)) (workers p ! i)"
  using assms by (auto simp: pool_ok_def)

text \<open>A step of one worker that leaves the queue and its closing alone.\<close>

lemma pool_ok_worker:
  assumes "pool_ok sinv p" and "i < length (workers p)" and "closed (f (workers p ! i)) = closed (workers p ! i)"
    and "worker_ok (i \<in> set (readyQ p)) (f (workers p ! i))"
  shows "pool_ok sinv (upd_worker i f p)"
  using busy_worker [OF assms(1,2)] assms
  by (intro pool_ok_upd [OF assms(1), of i _ "f (workers p ! i)"]) (auto simp: pool_ok_def pc_ok_same)

section \<open>Batches in flight\<close>

definition busy :: "worker \<Rightarrow> bool" where
  "busy w \<longleftrightarrow> phase w = Handle \<or> 0 < workReady w"

definition in_flight :: "'s Pool \<Rightarrow> PacketData list multiset" where
  "in_flight p = image_mset (\<lambda>w. packets (pb w)) (filter_mset busy (mset (workers p)))"

abbreviation batch_of :: "worker \<Rightarrow> PacketData list multiset" where
  "batch_of w \<equiv> (if busy w then {#packets (pb w)#} else {#})"

lemma in_flight_upd:
  assumes "workers p' = (workers p)[i := w]" and "i < length (workers p)"
  shows "in_flight p' + batch_of (workers p ! i) = in_flight p + batch_of w"
proof -
  have "image_mset f (filter_mset P (mset (ws[i := w]))) + (if P (ws ! i) then {#f (ws ! i)#} else {#}) =
      image_mset f (filter_mset P (mset ws)) + (if P w then {#f w#} else {#})" if "i < length ws" for f P and ws :: "worker list"
    using that
  proof (induction ws arbitrary: i)
    case (Cons x ws)
    show ?case
    proof (cases i)
      case (Suc j)
      with Cons.IH [of j] Cons.prems show ?thesis by (auto split: if_splits)
    qed (auto simp: ac_simps)
  qed simp
  from this [OF assms(2), of "\<lambda>w. packets (pb w)" busy] show ?thesis by (simp only: in_flight_def assms(1))
qed

lemma in_flight_upd_worker:
  "i < length (workers p) \<Longrightarrow> in_flight (upd_worker i f p) + batch_of (workers p ! i) = in_flight p + batch_of (f (workers p ! i))"
  by (rule in_flight_upd) simp_all

lemma in_flight_queue [simp]: "in_flight (p\<lparr>readyQ := q\<rparr>) = in_flight p"
  by (simp add: in_flight_def)

fun sent_batches :: "label list \<Rightarrow> PacketData list list" where
  "sent_batches [] = []"
| "sent_batches (Sent ps # ls) = ps # sent_batches ls"
| "sent_batches (_ # ls) = sent_batches ls"

fun handled_batches :: "label list \<Rightarrow> DecodedPacket list list" where
  "handled_batches [] = []"
| "handled_batches (Handled dps # ls) = dps # handled_batches ls"
| "handled_batches (_ # ls) = handled_batches ls"

lemma sent_batches_append [simp]: "sent_batches (ls @ ls') = sent_batches ls @ sent_batches ls'"
  by (induction ls rule: sent_batches.induct) simp_all

lemma handled_batches_append [simp]: "handled_batches (ls @ ls') = handled_batches ls @ handled_batches ls'"
  by (induction ls rule: handled_batches.induct) simp_all

text \<open>A worker that waits, is not in the queue and was not closed will never be used again.\<close>

definition leaked :: "nat \<Rightarrow> 's Pool \<Rightarrow> bool" where
  "leaked i p \<longleftrightarrow> i < length (workers p) \<and> i \<notin> set (readyQ p) \<and>
     (let w = workers p ! i in phase w = Await \<and> workReady w = 0 \<and> \<not> closed w)"

context packet_source
begin

text \<open>What a call of \<open>collect_loop\<close> on worker \<open>i\<close> changes.\<close>

definition fetched :: "nat \<Rightarrow> 's Pool \<Rightarrow> capture_error option \<Rightarrow> 's Pool \<Rightarrow> bool" where
  "fetched i p err p' \<longleftrightarrow> inv (src p') \<and> numWorkers p' = numWorkers p \<and> readyQ p' = readyQ p \<and> pc p' = pc p \<and>
    (\<exists>b. workers p' = (workers p)[i := (workers p ! i)\<lparr>pb := b\<rparr>] \<and> buf_ok b \<and> (err = None \<longrightarrow> packets b \<noteq> [])) \<and>
    err \<noteq> Some NextErrorTimeoutExpired"

lemma collect_loop_effect:
  assumes "collect_loop collect i p = Some (err, p')" and "i < length (workers p)" and "inv (src p)" and "buf_ok (pb (workers p ! i))"
  shows "fetched i p err p'"
proof -
  let ?P = "\<lambda>c i p r. c = collect \<longrightarrow> i < length (workers p) \<longrightarrow> inv (src p) \<longrightarrow> buf_ok (pb (workers p ! i)) \<longrightarrow> fetched i p (fst r) (snd r)"
  have "?P collect i p (err, p')"
  proof (rule collect_loop.raw_induct [where P = ?P, OF _ assms(1)], intro impI)
    fix loop c i and p :: "'s Pool" and r
    assume IH: "\<And>c i p r. loop c i p = Some r \<Longrightarrow> ?P c i p r"
      and body: "c (src p) (buf (workers p ! i)) \<bind>
        (\<lambda>(err, b, s).
            let p = upd_worker i (pb_update (\<lambda>_. b)) (p\<lparr>src := s\<rparr>)
            in if err \<noteq> Some NextErrorTimeoutExpired
               then Some (err, p\<lparr>PacketsCaptured := gint (PacketsCaptured p + PacketLen (buf (workers p ! i)))\<rparr>) else loop c i p) = Some r"
      and c: "c = collect" and i: "i < length (workers p)" and s: "inv (src p)" and b: "buf_ok (pb (workers p ! i))"
    obtain e b1 s1 where r1: "collect (src p) (pb (workers p ! i)) = Some (e, b1, s1)" "inv s1" "buf_ok b1" "e = None \<longrightarrow> packets b1 \<noteq> []"
      using collect_ok [OF s, of "pb (workers p ! i)"] b by (fastforce simp: buf_ok_def snapLen_def)
    let ?p = "upd_worker i (\<lambda>w. w\<lparr>pb := b1\<rparr>) (p\<lparr>src := s1\<rparr>)"
    show "fetched i p (fst r) (snd r)"
    proof (cases "e = Some NextErrorTimeoutExpired")
      case True
      with body r1 c have "loop collect i ?p = Some r" by (simp add: buf_def Let_def)
      from IH [OF this] i r1 have "fetched i ?p (fst r) (snd r)" by simp
      then show ?thesis using i by (auto simp: fetched_def)
    next
      case False
      with body r1 c i show ?thesis by (auto simp: fetched_def buf_def Let_def)
    qed
  qed
  with assms(2-4) show ?thesis by simp
qed

lemma sendToWorker_effect:
  assumes "sendToWorker collect i p = Some (err, p')" and "i < length (workers p)" and "inv (src p)" and "buf_ok (pb (workers p ! i))"
  shows "err \<noteq> Some NextErrorTimeoutExpired \<and> inv (src p') \<and> numWorkers p' = numWorkers p \<and> readyQ p' = readyQ p \<and> pc p' = pc p \<and>
    (\<exists>b. workers p' = (workers p)[i := (workers p ! i)\<lparr>pb := b, workReady := workReady (workers p ! i) + (if err = None then 1 else 0)\<rparr>] \<and>
      buf_ok b \<and> (err = None \<longrightarrow> packets b \<noteq> []))"
proof -
  obtain p1 where p1: "collect_loop collect i p = Some (err, p1)"
    using assms(1) by (auto simp: sendToWorker_def Option.bind_eq_Some_conv split: if_splits)
  from collect_loop_effect [OF this assms(2-4)] obtain b where
    f: "err \<noteq> Some NextErrorTimeoutExpired" "inv (src p1)" "numWorkers p1 = numWorkers p" "readyQ p1 = readyQ p" "pc p1 = pc p"
    "workers p1 = (workers p)[i := (workers p ! i)\<lparr>pb := b\<rparr>]" "buf_ok b" "err = None \<longrightarrow> packets b \<noteq> []"
    unfolding fetched_def by blast
  have "PacketLen b > 0" if "err = None"
    using f(7,8) that length_packets [of b] by (auto simp: PacketLen_def BlockLen_def buf_ok_def)
  with p1 f assms(1,2) show ?thesis
    by (auto simp: sendToWorker_def work_def Option.bind_eq_Some_conv split: if_splits)
qed

lemma dispatch_effect:
  assumes "sendToWorker collect i (p\<lparr>readyQ := q\<rparr>) = Some (err, p')" and "pool_ok inv p" and "readyQ p = i # q"
  obtains b where "inv (src p')" and "numWorkers p' = numWorkers p" and "readyQ p' = q" and "pc p' = pc p"
    and "workers p' = (workers p)[i := (workers p ! i)\<lparr>pb := b, workReady := if err = None then 1 else 0\<rparr>]"
    and "buf_ok b" and "err = None \<longrightarrow> packets b \<noteq> []"
  using sendToWorker_effect [OF assms(1)] queue_head [OF assms(2,3)] assms(2) by (auto simp: pool_ok_def)

lemma handle_batch:
  assumes "pool_ok inv p" and "i < length (workers p)" and "decodeBatch (pb (workers p ! i)) (dec (workers p ! i)) = Some (dps, d)"
  shows "decoder_ok d" and "list_all2 decoded_from (packets (pb (workers p ! i))) dps"
proof -
  have b: "decoder_ok (dec (workers p ! i))" "buf_ok (pb (workers p ! i))" using busy_worker(3) [OF assms(1,2)] by (auto simp: worker_ok_def)
  then have "length (packets (pb (workers p ! i))) \<le> batchSize"
    using length_packets by (auto simp: buf_ok_def batchSize_def pb_inv_def)
  with decodeBatch_ok [OF b(1) _ this] b(2) assms(3)
  show "decoder_ok d" "list_all2 decoded_from (packets (pb (workers p ! i))) dps" by (auto simp: buf_ok_def)
qed

lemma step_ok:
  assumes "step collect discard p l p'" and "pool_ok inv p"
  shows "pool_ok inv p' \<and> numWorkers p' = numWorkers p"
  using assms
proof (induction rule: step.induct)
  case (dispatch p i q err p')
  note i = queue_head [OF dispatch.prems dispatch(2)]
  obtain b where p': "inv (src p')" "numWorkers p' = numWorkers p" "readyQ p' = q" "pc p' = pc p"
    "workers p' = (workers p)[i := (workers p ! i)\<lparr>pb := b, workReady := if err = None then 1 else 0\<rparr>]" "buf_ok b" "err = None \<longrightarrow> packets b \<noteq> []"
    by (rule dispatch_effect [OF dispatch(3) dispatch.prems dispatch(2)])
  have "pool_ok inv p'"
    by (rule pool_ok_upd [OF dispatch.prems i(1) p'(1,2,5)])
      (use p' i dispatch in \<open>auto simp: worker_ok_def closed_count_same pool_ok_def\<close>)
  with p' show ?case by simp
next
  case (reach_eof p i q p' p'')
  note i = queue_head [OF reach_eof.prems reach_eof(2)]
  obtain b where p': "inv (src p')" "numWorkers p' = numWorkers p" "readyQ p' = q" "pc p' = pc p"
    "workers p' = (workers p)[i := (workers p ! i)\<lparr>pb := b, workReady := if Some CaptureEOF = None then 1 else 0\<rparr>]" "buf_ok b"
    by (rule dispatch_effect [OF reach_eof(3) reach_eof.prems reach_eof(2)])
  then have p'': "inv (src p'')" "numWorkers p'' = numWorkers p" "readyQ p'' = q"
    "workers p'' = (workers p)[i := (workers p ! i)\<lparr>pb := b, workReady := 0, closed := True\<rparr>]"
    using reach_eof(4) i by (auto simp: close_def split: if_splits)
  have "pool_ok inv (p''\<lparr>pc := Closing 1\<rparr>)"
    by (rule pool_ok_upd [OF reach_eof.prems i(1), where w = "(workers p ! i)\<lparr>pb := b, workReady := 0, closed := True\<rparr>"])
      (use p'' p' i reach_eof in \<open>auto simp: worker_ok_def closed_count_close pool_ok_def\<close>)
  with p'' show ?case by simp
next
  case (discard_one p err s)
  then show ?case using discard_ok [of "src p"] by (auto simp: pool_ok_def)
next
  case (close_next p k i q p')
  note i = queue_head [OF close_next.prems close_next(3)]
  have "p' = upd_worker i (\<lambda>w. w\<lparr>closed := True\<rparr>) (p\<lparr>readyQ := q\<rparr>)"
    using close_next(4) by (auto simp: close_def split: if_splits)
  moreover have "pool_ok inv (p'\<lparr>pc := Closing (Suc k)\<rparr>)"
    by (rule pool_ok_upd [OF close_next.prems i(1), where w = "(workers p ! i)\<lparr>closed := True\<rparr>"])
      (use calculation i close_next in \<open>auto simp: worker_ok_def closed_count_close pool_ok_def\<close>)
  ultimately show ?case by simp
next
  case (exit p k)
  then show ?case using length_filter_le [of closed "workers p"] by (auto simp: pool_ok_def closed_count_def)
next
  case (publish i p)
  note i = busy_worker [OF publish.prems publish(1)]
  have "pool_ok inv (upd_worker i (\<lambda>w. w\<lparr>phase := Await\<rparr>) (p\<lparr>readyQ := readyQ p @ [i]\<rparr>))"
    by (rule pool_ok_upd [OF publish.prems i(1), where w = "(workers p ! i)\<lparr>phase := Await\<rparr>"])
      (use i publish in \<open>auto simp: pool_ok_def worker_ok_def pc_ok_same\<close>)
  then show ?case by simp
next
  case (take_work i p)
  with busy_worker(3) [OF take_work.prems take_work(1)] show ?case by (auto intro!: pool_ok_worker simp: worker_ok_def)
next
  case (stop i p)
  with busy_worker(3) [OF stop.prems stop(1)] show ?case by (auto intro!: pool_ok_worker simp: worker_ok_def)
next
  case (handle i p dps d)
  with busy_worker(3) [OF handle.prems handle(1)] handle_batch(1) [OF handle.prems handle(1,3)] show ?case
    by (auto intro!: pool_ok_worker simp: worker_ok_def)
qed

lemma run_ok: "\<lbrakk> run collect discard p ls p'; pool_ok inv p \<rbrakk> \<Longrightarrow> pool_ok inv p' \<and> numWorkers p' = numWorkers p"
  by (induction rule: runs.induct) (auto dest: step_ok)

text \<open>Every step moves at most one batch.\<close>

lemma step_batches:
  assumes "step collect discard p l p'" and "pool_ok inv p"
  shows "case l of Sent ps \<Rightarrow> in_flight p' = in_flight p + {#ps#}
     | Handled dps \<Rightarrow> (\<exists>ps. list_all2 decoded_from ps dps \<and> in_flight p = in_flight p' + {#ps#})
     | Silent \<Rightarrow> in_flight p' = in_flight p"
  using assms
proof (induction rule: step.induct)
  case (dispatch p i q err p')
  note i = queue_head [OF dispatch.prems dispatch(2)]
  obtain b where p': "workers p' = (workers p)[i := (workers p ! i)\<lparr>pb := b, workReady := if err = None then 1 else 0\<rparr>]" "buf_ok b" "err = None \<longrightarrow> packets b \<noteq> []"
    by (rule dispatch_effect [OF dispatch(3) dispatch.prems dispatch(2)])
  with in_flight_upd [OF p'(1)] i show ?case by (auto simp: sent_label_def busy_def split: if_splits)
next
  case (reach_eof p i q p' p'')
  note i = queue_head [OF reach_eof.prems reach_eof(2)]
  obtain b where p': "workers p' = (workers p)[i := (workers p ! i)\<lparr>pb := b, workReady := if Some CaptureEOF = None then 1 else 0\<rparr>]"
    by (rule dispatch_effect [OF reach_eof(3) reach_eof.prems reach_eof(2)])
  then have "workers (p''\<lparr>pc := Closing 1\<rparr>) = (workers p)[i := (workers p ! i)\<lparr>pb := b, workReady := 0, closed := True\<rparr>]"
    using reach_eof(4) i by (auto simp: close_def split: if_splits)
  from in_flight_upd [OF this] i show ?case by (simp add: busy_def)
next
  case (close_next p k i q p')
  note i = queue_head [OF close_next.prems close_next(3)]
  have "workers (p'\<lparr>pc := Closing (Suc k)\<rparr>) = (workers p)[i := (workers p ! i)\<lparr>closed := True\<rparr>]"
    using close_next(4) by (auto simp: close_def split: if_splits)
  from in_flight_upd [OF this] i show ?case by (simp add: busy_def)
next
  case (publish i p)
  with in_flight_upd_worker [of i "p\<lparr>readyQ := readyQ p @ [i]\<rparr>" "\<lambda>w. w\<lparr>phase := Await\<rparr>"] show ?case
    by (simp add: busy_def split: if_splits)
next
  case (take_work i p)
  with in_flight_upd_worker [of i p "\<lambda>w. w\<lparr>phase := Handle, workReady := workReady w - 1\<rparr>"] show ?case
    by (simp add: busy_def)
next
  case (stop i p)
  with in_flight_upd_worker [of i p "\<lambda>w. w\<lparr>phase := Stopped\<rparr>"] show ?case
    by (simp add: busy_def)
next
  case (handle i p dps d)
  have "workReady (workers p ! i) = 0" using busy_worker(3) [OF handle.prems handle(1)] handle(2) by (simp add: worker_ok_def)
  with handle(1,2) in_flight_upd_worker [of i p "\<lambda>w. w\<lparr>phase := Publish, dec := d\<rparr>"]
    handle_batch(2) [OF handle.prems handle(1,3)] show ?case by (auto simp: busy_def)
qed (simp_all add: in_flight_def)

lemma run_batches:
  assumes "run collect discard p ls p'" and "pool_ok inv p" and "in_flight p = {#}"
  shows "\<exists>bs. list_all2 (list_all2 decoded_from) bs (handled_batches ls) \<and> mset (sent_batches ls) = mset bs + in_flight p'"
  using assms
proof (induction rule: runs.induct)
  case (runs_nil p)
  then show ?case by simp
next
  case (runs_snoc p ls p' l p'')
  then obtain bs where bs: "list_all2 (list_all2 decoded_from) bs (handled_batches ls)" "mset (sent_batches ls) = mset bs + in_flight p'" by blast
  from step_batches [OF runs_snoc.hyps(2)] run_ok [OF runs_snoc.hyps(1) runs_snoc.prems(1)] have
    st: "case l of Sent ps \<Rightarrow> in_flight p'' = in_flight p' + {#ps#}
     | Handled dps \<Rightarrow> (\<exists>ps. list_all2 decoded_from ps dps \<and> in_flight p' = in_flight p'' + {#ps#})
     | Silent \<Rightarrow> in_flight p'' = in_flight p'" by blast
  show ?case
  proof (cases l)
    case (Handled dps)
    with st obtain ps where "list_all2 decoded_from ps dps" "in_flight p' = in_flight p'' + {#ps#}" by auto
    with bs Handled show ?thesis by (intro exI [of _ "bs @ [ps]"]) (auto simp: list_all2_appendI)
  qed (use st bs in auto)
qed

end

end
