(* ===== verification/DecodeRun.thy ===== *)
theory DecodeRun
  imports DecodePool
begin

text \<open>
  Runs of the decode pool: shutting down takes boundedly many steps, a pool that reads a capture file never gets stuck, a read error costs a
  worker, and every batch is decoded exactly once.
\<close>

section \<open>Shutting down\<close>

fun worker_weight :: "worker \<Rightarrow> nat" where
  "worker_weight w = (case phase w of Handle \<Rightarrow> 4 | Publish \<Rightarrow> 3 | Await \<Rightarrow> (if 0 < workReady w then 5 else if closed w then 1 else 2) | Stopped \<Rightarrow> 0)"

declare worker_weight.simps [simp del]

definition weight :: "'s Pool \<Rightarrow> nat" where
  "weight p = sum_list (map worker_weight (workers p)) + (if pc p = Exited then 0 else 1)"

lemma sum_list_less:
  "\<lbrakk> i < length ws; worker_weight w < worker_weight (ws ! i) \<rbrakk> \<Longrightarrow> sum_list (map worker_weight (ws[i := w])) < sum_list (map worker_weight ws)"
proof (induction ws arbitrary: i)
  case (Cons x ws)
  then show ?case by (cases i) auto
qed simp

lemma weight_bound: "weight p \<le> 5 * length (workers p) + 1"
proof -
  have "sum_list (map worker_weight ws) \<le> 5 * length ws" for ws
    by (induction ws) (auto simp: worker_weight.simps split: loop_pc.splits)
  then show ?thesis by (simp add: weight_def le_SucI)
qed

text \<open>A source that reports no error but the end of the file.\<close>

definition only_eof :: "('s \<Rightarrow> bool) \<Rightarrow> 's collector \<Rightarrow> bool" where
  "only_eof sinv collect \<longleftrightarrow>
     (\<forall>s b err b' s'. sinv s \<longrightarrow> buf_ok b \<longrightarrow> collect s b = Some (err, b', s') \<longrightarrow> err = None \<or> err = Some CaptureEOF)"

context packet_source
begin

lemma shutdown_step:
  assumes "step collect discard p l p'" and "pool_ok inv p" and "pc p \<noteq> Running"
  shows "weight p' < weight p \<and> pc p' \<noteq> Running"
  using assms
proof (induction rule: step.induct)
  case (close_next p k i q p')
  note i = queue_head [OF close_next.prems(1) close_next(3)]
  have "workers p' = (workers p)[i := (workers p ! i)\<lparr>closed := True\<rparr>]"
    using close_next(4) by (auto simp: close_def split: if_splits)
  then show ?case using i close_next(1) sum_list_less [of i "workers p" "(workers p ! i)\<lparr>closed := True\<rparr>"]
    by (simp add: weight_def worker_weight.simps)
next
  case (publish i p)
  then show ?case using busy_worker(3) [OF publish.prems(1) publish(1)] sum_list_less [of i "workers p" "(workers p ! i)\<lparr>phase := Await\<rparr>"]
    by (simp add: weight_def worker_weight.simps worker_ok_def)
next
  case (take_work i p)
  then show ?case using sum_list_less [of i "workers p" "(workers p ! i)\<lparr>phase := Handle, workReady := workReady (workers p ! i) - 1\<rparr>"]
    by (simp add: weight_def worker_weight.simps)
next
  case (stop i p)
  then show ?case using sum_list_less [of i "workers p" "(workers p ! i)\<lparr>phase := Stopped\<rparr>"]
    by (simp add: weight_def worker_weight.simps)
next
  case (handle i p dps d)
  then show ?case using sum_list_less [of i "workers p" "(workers p ! i)\<lparr>phase := Publish, dec := d\<rparr>"]
    by (simp add: weight_def worker_weight.simps)
qed (auto simp: weight_def)

lemma shutdown_bounded:
  assumes "run collect discard p ls p'" and "pool_ok inv p" and "pc p \<noteq> Running"
  shows "length ls + weight p' \<le> weight p \<and> pc p' \<noteq> Running"
  using assms
proof (induction rule: runs.induct)
  case (runs_snoc p ls p' l p'')
  then show ?case using shutdown_step [of p' l p''] run_ok [OF runs_snoc.hyps(1)] by fastforce
qed simp

text \<open>A pool in which no worker was lost can always go on.\<close>

lemma batch_handled:
  assumes "pool_ok inv p" and "i < length (workers p)"
  shows "\<exists>dps d. decodeBatch (pb (workers p ! i)) (dec (workers p ! i)) = Some (dps, d)"
proof -
  have b: "decoder_ok (dec (workers p ! i))" "buf_ok (pb (workers p ! i))" using busy_worker(3) [OF assms(1,2)] by (auto simp: worker_ok_def)
  then have "length (packets (pb (workers p ! i))) \<le> batchSize"
    using length_packets by (auto simp: buf_ok_def batchSize_def pb_inv_def)
  then show ?thesis
    using decodeBatch_ok [OF b(1), of "pb (workers p ! i)"] b(2) unfolding buf_ok_def by blast
qed

lemma worker_enabled:
  assumes "pool_ok inv p" and "i < length (workers p)" and "\<not> leaked i p" and "i \<notin> set (readyQ p)" and "phase (workers p ! i) \<noteq> Stopped"
  shows "\<exists>l p'. step collect discard p l p'"
proof (cases "phase (workers p ! i)")
  case Publish
  with room_in_queue [OF assms(1)] busy_worker(1) [OF assms(1,2)] assms(4) step.publish [OF assms(2)] show ?thesis by blast
next
  case Await
  with assms(3,4) have "0 < workReady (workers p ! i) \<or> workReady (workers p ! i) = 0 \<and> closed (workers p ! i)"
    using assms(2) by (auto simp: leaked_def)
  with step.take_work [OF assms(2) Await] step.stop [OF assms(2) Await] show ?thesis by blast
next
  case Handle
  with batch_handled [OF assms(1,2)] step.handle [OF assms(2)] show ?thesis by blast
qed (use assms in simp)

lemma progress:
  assumes "pool_ok inv p" and "\<forall>i. \<not> leaked i p" and "\<And>i q. readyQ p = i # q \<Longrightarrow> \<exists>err p'. sendToWorker collect i (p\<lparr>readyQ := q\<rparr>) = Some (err, p')"
    and "pc p \<noteq> Exited"
  shows "\<exists>l p'. step collect discard p l p'"
proof (cases "pc p")
  case Running
  show ?thesis
  proof (cases "readyQ p")
    case Nil
    obtain err s where "discard (src p) = Some (err, s)" using discard_ok [of "src p"] assms(1) by (auto simp: pool_ok_def)
    from step.discard_one [where discard = discard, OF Running Nil this] show ?thesis by blast
  next
    case (Cons i q)
    obtain err p' where send: "sendToWorker collect i (p\<lparr>readyQ := q\<rparr>) = Some (err, p')" using assms(3) [OF Cons] by blast
    show ?thesis
    proof (cases "err = Some CaptureEOF")
      case True
      obtain b where "workers p' = (workers p)[i := (workers p ! i)\<lparr>pb := b, workReady := if err = None then 1 else 0\<rparr>]"
        by (rule dispatch_effect [OF send assms(1) Cons])
      then obtain p'' where "close i p' = Some p''" using queue_head(1,2,8) [OF assms(1) Cons] by (simp add: close_def)
      with step.reach_eof [OF Running Cons] send True show ?thesis by blast
    next
      case False
      from step.dispatch [OF Running Cons send False] show ?thesis by blast
    qed
  qed
next
  case (Closing k)
  show ?thesis
  proof (cases "numWorkers p \<le> k")
    case True
    from step.exit [OF Closing this] show ?thesis by blast
  next
    case False
    then have "\<exists>w\<in>set (workers p). \<not> closed w"
      using assms(1) Closing closed_count_all [of "workers p"] by (auto simp: pool_ok_def)
    then obtain i where i: "i < length (workers p)" "\<not> closed (workers p ! i)" by (auto simp: in_set_conv_nth)
    show ?thesis
    proof (cases "readyQ p")
      case Nil
      have "phase (workers p ! i) \<noteq> Stopped" using busy_worker(3) [OF assms(1) i(1)] i(2) by (auto simp: worker_ok_def)
      with worker_enabled [OF assms(1) i(1)] assms(2) Nil show ?thesis by simp
    next
      case (Cons j q)
      then obtain p' where "close j (p\<lparr>readyQ := q\<rparr>) = Some p'" using queue_head(8) [OF assms(1) Cons] by (simp add: close_def)
      with step.close_next [OF Closing _ Cons] False show ?thesis by force
    qed
  qed
qed (use assms in simp)

lemma only_eof_send:
  assumes "only_eof inv collect" and "i < length (workers p)" and "inv (src p)" and "buf_ok (pb (workers p ! i))" and "workReady (workers p ! i) = 0"
  shows "\<exists>err p'. sendToWorker collect i p = Some (err, p') \<and> (err = None \<or> err = Some CaptureEOF)"
proof -
  obtain err b s where c: "collect (src p) (pb (workers p ! i)) = Some (err, b, s)" "err = None \<longrightarrow> packets b \<noteq> []" "buf_ok b"
    using collect_ok [OF assms(3), of "pb (workers p ! i)"] assms(4) by (fastforce simp: buf_ok_def snapLen_def)
  have e: "err = None \<or> err = Some CaptureEOF" using assms(1,3,4) c(1) unfolding only_eof_def by blast
  have "PacketLen b > 0" if "err = None"
    using c(2,3) that length_packets [of b] by (auto simp: PacketLen_def BlockLen_def buf_ok_def)
  with e c(1) assms(2,5) show ?thesis
    by (subst sendToWorker_def, subst collect_loop.simps) (auto simp: buf_def Let_def work_def)
qed

lemma no_leak_step:
  assumes "step collect discard p l p'" and "pool_ok inv p" and "only_eof inv collect" and "\<forall>i. \<not> leaked i p"
  shows "\<forall>i. \<not> leaked i p'"
  using assms
proof (induction rule: step.induct)
  case (dispatch p i q err p')
  note i = queue_head [OF dispatch.prems(1) dispatch(2)]
  obtain b where p': "readyQ p' = q" "workers p' = (workers p)[i := (workers p ! i)\<lparr>pb := b, workReady := if err = None then 1 else 0\<rparr>]"
    by (rule dispatch_effect [OF dispatch(3) dispatch.prems(1) dispatch(2)])
  have "err = None"
    using only_eof_send [OF dispatch.prems(2), of i "p\<lparr>readyQ := q\<rparr>"] i dispatch(3,4) dispatch.prems(1) by (auto simp: pool_ok_def)
  with p' i dispatch.prems(3) dispatch(2) show ?case by (auto simp: leaked_def Let_def nth_list_update split: if_splits)
next
  case (reach_eof p i q p' p'')
  note i = queue_head [OF reach_eof.prems(1) reach_eof(2)]
  obtain b where p': "readyQ p' = q" "workers p' = (workers p)[i := (workers p ! i)\<lparr>pb := b, workReady := if Some CaptureEOF = None then 1 else 0\<rparr>]"
    by (rule dispatch_effect [OF reach_eof(3) reach_eof.prems(1) reach_eof(2)])
  with i reach_eof.prems(3) reach_eof(2,4) show ?case
    by (auto simp: leaked_def Let_def close_def nth_list_update split: if_splits)
next
  case (close_next p k i q p')
  then show ?case using queue_head(1,2) [OF close_next.prems(1) close_next(3)]
    by (auto simp: leaked_def Let_def close_def nth_list_update split: if_splits)
next
  case (handle i p dps d)
  then show ?case by (auto simp: leaked_def Let_def nth_list_update split: if_splits)
qed (auto simp: leaked_def Let_def nth_list_update split: if_splits)

lemma no_leak_run:
  assumes "run collect discard p ls p'" and "pool_ok inv p" and "only_eof inv collect" and "\<forall>i. \<not> leaked i p"
  shows "\<forall>i. \<not> leaked i p'"
  using assms by (induction rule: runs.induct) (auto dest: run_ok no_leak_step)

text \<open>A lost worker stays lost, and \<open>Run\<close> never returns.\<close>

lemma leaked_step:
  assumes "step collect discard p l p'" and "pool_ok inv p" and "leaked j p"
  shows "leaked j p'"
  using assms
proof (induction rule: step.induct)
  case (dispatch p i q err p')
  note i = queue_head [OF dispatch.prems(1) dispatch(2)]
  obtain b where p': "readyQ p' = q" "workers p' = (workers p)[i := (workers p ! i)\<lparr>pb := b, workReady := if err = None then 1 else 0\<rparr>]"
    by (rule dispatch_effect [OF dispatch(3) dispatch.prems(1) dispatch(2)])
  with i dispatch.prems(2) dispatch(2) show ?case by (auto simp: leaked_def Let_def nth_list_update)
next
  case (reach_eof p i q p' p'')
  obtain b where p': "readyQ p' = q" "workers p' = (workers p)[i := (workers p ! i)\<lparr>pb := b, workReady := if Some CaptureEOF = None then 1 else 0\<rparr>]"
    by (rule dispatch_effect [OF reach_eof(3) reach_eof.prems(1) reach_eof(2)])
  with reach_eof.prems(2) reach_eof(2,4) show ?case
    by (auto simp: leaked_def Let_def close_def nth_list_update split: if_splits)
next
  case (close_next p k i q p')
  then show ?case by (auto simp: leaked_def Let_def close_def nth_list_update split: if_splits)
qed (auto simp: leaked_def Let_def nth_list_update)

lemma leaked_run:
  assumes "run collect discard p ls p'" and "pool_ok inv p" and "leaked j p"
  shows "leaked j p' \<and> pc p' \<noteq> Exited"
proof -
  have l: "leaked j p'" using assms by (induction rule: runs.induct) (auto dest: run_ok leaked_step)
  moreover have "pool_ok inv p'" using run_ok [OF assms(1,2)] by simp
  ultimately show ?thesis
    using closed_count_all [of "workers p'"] by (auto simp: leaked_def Let_def pool_ok_def)
qed

text \<open>When \<open>Run\<close> has returned, nothing is in flight.\<close>

lemma exited_idle: "\<lbrakk> pool_ok inv p; pc p = Exited \<rbrakk> \<Longrightarrow> in_flight p = {#}"
proof -
  assume ok: "pool_ok inv p" and ex: "pc p = Exited"
  then have "closed w" if "w \<in> set (workers p)" for w using closed_count_all [of "workers p"] that by (simp add: pool_ok_def)
  moreover have "\<not> (busy w \<and> closed w)" if "worker_ok b w" for b w
    using that by (cases "phase w") (auto simp: busy_def worker_ok_def le_Suc_eq)
  moreover have "\<exists>b. worker_ok b w" if "w \<in> set (workers p)" for w
    using that ok by (auto simp: in_set_conv_nth pool_ok_def)
  ultimately have "\<forall>w\<in>set (workers p). \<not> busy w" by blast
  then show ?thesis by (simp add: in_flight_def filter_mset_eq_conv [of _ _ "{#}"])
qed

end

section \<open>Properties\<close>

text \<open>A capture file: reading fails at its end only, and delivers packets of at most the snapshot length.\<close>

definition file_handle :: "'h reader \<Rightarrow> bool" where
  "file_handle read \<longleftrightarrow> (\<forall>h e h'. read h = (Inl e, h') \<longrightarrow> e = CaptureEOF) \<and> short_packets read"

lemma file_only_eof:
  fixes read :: "'h reader"
  assumes "file_handle read"
  shows "only_eof (\<lambda>_. True) (CollectPackets read)"
  unfolding only_eof_def
proof (intro allI impI)
  fix h :: 'h and b err b' h'
  assume b: "buf_ok b" and c: "CollectPackets read h b = Some (err, b', h')"
  have "short_packets read" "pb_inv b" "0 < offsetsCap b" using assms b by (auto simp: file_handle_def buf_ok_def)
  from collect_lossless [OF this(2,3,1), of h] c assms show "err = None \<or> err = Some CaptureEOF"
    by (auto simp: file_handle_def split: if_splits)
qed

lemma idle_New: "in_flight (NewPool n h) = {#}"
  by (simp add: in_flight_def NewPool_def startWorker_def busy_def)

lemma no_leak_New: "\<not> leaked i (NewPool n h)"
  by (auto simp: leaked_def NewPool_def startWorker_def Let_def)

text \<open>A pool with one worker, after that worker has published itself.\<close>

definition ready_pool :: "'s \<Rightarrow> 's Pool" where
  "ready_pool s = upd_worker 0 (\<lambda>w. w\<lparr>phase := Await\<rparr>) ((NewPool 1 s)\<lparr>readyQ := [0]\<rparr>)"

lemma run_ready: "run collect discard (NewPool 1 s) [Silent] (ready_pool s)"
proof -
  have "step collect discard (NewPool 1 s) Silent (upd_worker 0 (\<lambda>w. w\<lparr>phase := Await\<rparr>) ((NewPool 1 s)\<lparr>readyQ := readyQ (NewPool 1 s) @ [0]\<rparr>))"
    by (rule step.publish) (simp_all add: NewPool_def startWorker_def)
  with runs_snoc [OF runs_nil] show ?thesis by (force simp: ready_pool_def NewPool_def)
qed

lemma ready_pool_simps:
  "pc (ready_pool s) = Running" "readyQ (ready_pool s) = [0]" "src (ready_pool s) = s" "length (workers (ready_pool s)) = 1"
  "workReady (workers (ready_pool s) ! 0) = 0" "buf_ok (pb (workers (ready_pool s) ! 0))"
  using pool_ok_New [of "\<lambda>_. True" s 1] by (simp_all add: ready_pool_def NewPool_def startWorker_def pool_ok_def worker_ok_def)

definition sample_file :: "PacketData list" where
  "sample_file = [\<lparr>Info = zeroInfo, Data = ''ab''\<rparr>]"

lemma list_read_file: "file_handle list_read"
  unfolding file_handle_def short_packets_def
proof (intro conjI allI impI)
  fix h e h' pd
  show "list_read h = (Inl e, h') \<Longrightarrow> e = CaptureEOF" by (cases h) auto
  show "list_read h = (Inr pd, h') \<Longrightarrow> int (length (Data pd)) \<le> snapLen" by (cases h) (auto simp: snapLen_def)
qed

lemma run_sample:
  "\<exists>ps p. run (CollectPackets list_read) (\<lambda>h. Some (DiscardPacket list_read h)) (NewPool 1 sample_file) [Silent, Sent ps] p"
proof -
  let ?p = "(ready_pool sample_file)\<lparr>readyQ := []\<rparr>"
  obtain err p' where send: "sendToWorker (CollectPackets list_read) 0 ?p = Some (err, p')" "err = None \<or> err = Some CaptureEOF"
    using plain.only_eof_send [OF file_only_eof [OF list_read_file], of 0 ?p] ready_pool_simps [of sample_file] by auto
  obtain e b h' where c: "CollectPackets list_read sample_file (pb (workers ?p ! 0)) = Some (e, b, h')"
    using plain.collect_ok [of "pb (workers ?p ! 0)" list_read sample_file] ready_pool_simps(6) [of sample_file] by (auto simp: buf_ok_def)
  have "e = None \<or> e = Some CaptureEOF"
    using file_only_eof [OF list_read_file] c ready_pool_simps(6) [of sample_file] unfolding only_eof_def by fastforce
  moreover have "e \<noteq> Some CaptureEOF"
    using collect_lossless [of "pb (workers ?p ! 0)" list_read sample_file] c list_read_file ready_pool_simps(6) [of sample_file]
    by (auto simp: buf_ok_def file_handle_def sample_file_def split: if_splits)
  ultimately have "err = None"
    using send c ready_pool_simps [of sample_file]
    by (auto simp: sendToWorker_def collect_loop.simps [of _ 0 ?p] buf_def Let_def Option.bind_eq_Some_conv split: if_splits)
  with plain.sendToWorker_effect [OF send(1)] ready_pool_simps [of sample_file] obtain b' where
    b': "workers p' ! 0 = (workers ?p ! 0)\<lparr>pb := b', workReady := 1\<rparr>" "packets b' \<noteq> []" by auto
  have "step (CollectPackets list_read) (\<lambda>h. Some (DiscardPacket list_read h)) (ready_pool sample_file) (sent_label err (pb (workers p' ! 0))) p'"
    by (rule step.dispatch) (use send \<open>err = None\<close> ready_pool_simps in auto)
  from runs_snoc [OF run_ready this] show ?thesis using \<open>err = None\<close> b' by (auto simp: sent_label_def)
qed

text \<open>
  C9.  Every batch is decoded exactly once.  For every source and every interleaving of \<open>Run\<close> with the workers, the batches that were handed to
  workers are those that were handed to the handler, each decoded packet by packet, together with those still in the buffer of a
  busy worker; when \<open>Run\<close> has returned after the end of the file, all of them have been handled.
\<close>

theorem batches_decoded_once:
  assumes "run (CollectPackets read) (\<lambda>h. Some (DiscardPacket read h)) (NewPool n h) ls p"
  shows "\<exists>bs. list_all2 (list_all2 decoded_from) bs (handled_batches ls) \<and> mset (sent_batches ls) = mset bs + in_flight p \<and>
    (pc p = Exited \<longrightarrow> in_flight p = {#})"
  using plain.run_batches [OF assms] plain.exited_idle [of p] plain.run_ok [OF assms] pool_ok_New [of "\<lambda>_. True" h n] idle_New [of n h] by auto

theorem batches_decoded_once_witness:
  "\<exists>ls p bs. run (CollectPackets list_read) (\<lambda>h. Some (DiscardPacket list_read h)) (NewPool 1 sample_file) ls p \<and> sent_batches ls \<noteq> [] \<and>
     list_all2 (list_all2 decoded_from) bs (handled_batches ls) \<and> mset (sent_batches ls) = mset bs + in_flight p"
proof -
  obtain ps p where r: "run (CollectPackets list_read) (\<lambda>h. Some (DiscardPacket list_read h)) (NewPool 1 sample_file) [Silent, Sent ps] p"
    using run_sample by blast
  from batches_decoded_once [OF this] r show ?thesis by fastforce
qed





text \<open>
  C37.  A read error other than the end of the file costs a worker for good: it is neither given work nor put back into the queue, \<open>Run\<close> will never return,
  and with a single worker no packet is captured any more.
\<close>

theorem error_loses_worker:
  assumes "run (CollectPackets read) (\<lambda>h. Some (DiscardPacket read h)) (NewPool n h) ls p" and "pc p = Running" and "readyQ p = i # q"
    and "sendToWorker (CollectPackets read) i (p\<lparr>readyQ := q\<rparr>) = Some (Some (PcapError e), p')"
    and "run (CollectPackets read) (\<lambda>h. Some (DiscardPacket read h)) p' ls' p''"
  shows "leaked i p'' \<and> pc p'' \<noteq> Exited \<and> (n = 1 \<longrightarrow> sent_batches ls' = [])"
proof -
  have ok: "pool_ok (\<lambda>_. True) p" "numWorkers p = n"
    using plain.run_ok [OF assms(1)] pool_ok_New [of "\<lambda>_. True" h n] by (auto simp: NewPool_def)
  have "step (CollectPackets read) (\<lambda>h. Some (DiscardPacket read h)) p (sent_label (Some (PcapError e)) (pb (workers p' ! i))) p'"
    by (rule step.dispatch [OF assms(2-4)]) simp
  from plain.step_ok [OF this ok(1)] have ok': "pool_ok (\<lambda>_. True) p'" "numWorkers p' = n" using ok(2) by auto
  obtain b where "readyQ p' = q" "workers p' = (workers p)[i := (workers p ! i)\<lparr>pb := b, workReady := if Some (PcapError e) = None then 1 else 0\<rparr>]"
    by (rule plain.dispatch_effect [OF assms(4) ok(1) assms(3)])
  then have l: "leaked i p'" using queue_head [OF ok(1) assms(3)] by (simp add: leaked_def)
  have "sent_batches ls' = []" if "n = 1"
    using assms(5) l ok' that
  proof (induction rule: runs.induct)
    case (runs_snoc p0 ls p1 lb p2)
    have p1: "leaked i p1" "pool_ok (\<lambda>_. True) p1" "numWorkers p1 = 1"
      using plain.leaked_run [OF runs_snoc.hyps(1)] plain.run_ok [OF runs_snoc.hyps(1)] runs_snoc.prems by auto
    then have "readyQ p1 = []" by (cases "readyQ p1") (auto simp: leaked_def pool_ok_def)
    with runs_snoc.hyps(2) have "sent_batches [lb] = []" by (auto elim!: stepE)
    with runs_snoc show ?case by simp
  qed simp
  with plain.leaked_run [OF assms(5) ok'(1) l] show ?thesis by simp
qed

text \<open>A handle that always fails.\<close>

definition broken_read :: "unit reader" where
  "broken_read h = (Inl (PcapError ''read error''), h)"

theorem error_loses_worker_witness:
  "\<exists>p. sendToWorker (CollectPackets broken_read) 0 ((ready_pool ())\<lparr>readyQ := []\<rparr>) = Some (Some (PcapError ''read error''), p) \<and> leaked 0 p"
proof -
  let ?p = "(ready_pool ())\<lparr>readyQ := []\<rparr>"
  let ?b = "pb (workers ?p ! 0)"
  have b: "offsetsCap ?b = 1000" "bytesCap ?b = 8388608" using ready_pool_simps(6) [of "()"] by (auto simp: buf_ok_def)
  have "\<not> BytesRemaining (Packet_Clear ?b) < snapLen"
    using b by (simp add: BytesRemaining_def Packet_Clear_def Block_Clear_def snapLen_def)
  then have "Collect_loop broken_read (Suc 999) 0 (Packet_Clear ?b) () = Some (Some (PcapError ''read error''), Packet_Clear ?b, ())"
    by (simp only: Collect_loop.simps) (simp add: broken_read_def)
  moreover have "nat (PacketCap (Packet_Clear ?b)) = Suc 999" using b by (simp add: PacketCap_def Packet_Clear_def Block_Clear_def)
  ultimately have "CollectPackets broken_read () ?b = Some (Some (PcapError ''read error''), Packet_Clear ?b, ())"
    by (simp only: CollectPackets_def Let_def)
  then obtain p where p: "sendToWorker (CollectPackets broken_read) 0 ?p = Some (Some (PcapError ''read error''), p)"
    using ready_pool_simps [of "()"] by (simp add: sendToWorker_def collect_loop.simps [of _ 0 ?p] buf_def Let_def)
  from error_loses_worker [OF run_ready ready_pool_simps(1,2) p runs_nil] p show ?thesis by blast
qed

end
