(* ===== verification/Replay.thy ===== *)
theory Replay
  imports Capture
begin

text \<open>
  The pacing of capture files, \<^verbatim>\<open>capture/replay.go\<close>.  Times are nanoseconds, with 0 for Go's zero time; the readings of the wall clock
  are arguments of the operations.  Durations are 64-bit: a difference of times saturates, a sum of durations wraps.
  The packet source below the replayer is given by its \<open>CollectPackets\<close> (the argument \<open>collect\<close>).
\<close>

section \<open>The replayer\<close>

record 'h replayer =
  start :: int
  first :: int
  rbuffer :: PacketBuffer
  cursor :: int
  received :: int
  dropped :: int
  src :: 'h

definition replayerTimeout :: int where
  "replayerTimeout = 10000000"

definition maxDuration :: int where
  "maxDuration = 9223372036854775807"

text \<open>\<open>Time.Sub\<close>.\<close>

definition time_Sub :: "int \<Rightarrow> int \<Rightarrow> int" where
  "time_Sub t u = max (- maxDuration - 1) (min maxDuration (t - u))"

definition newReplayer :: "'h \<Rightarrow> nat \<Rightarrow> nat \<Rightarrow> 'h replayer" where
  "newReplayer h batchSize maxBytes =
     \<lparr>start = 0, first = 0, rbuffer = NewPacketBuffer batchSize maxBytes, cursor = 0, received = 0, dropped = 0, src = h\<rparr>"

type_synonym 'h collector = "'h \<Rightarrow> PacketBuffer \<Rightarrow> (capture_error option \<times> PacketBuffer \<times> 'h) option"

definition fill :: "'h collector \<Rightarrow> 'h replayer \<Rightarrow> (capture_error option \<times> 'h replayer) option" where
  "fill collect r =
     do { (err, b, h) \<leftarrow> collect (src r) (rbuffer r);
          let r = r\<lparr>rbuffer := b, src := h\<rparr>;
          if err \<noteq> None then Some (err, r)
          else let r = r\<lparr>cursor := 0\<rparr> in
            if first r = 0
            then do { p \<leftarrow> Packet (rbuffer r) 0; Some (None, r\<lparr>first := Timestamp (Info p)\<rparr>) }
            else Some (None, r) }"

text \<open>The loop of \<open>dropExpired\<close>; \<open>n\<close> is the number of packets from the cursor to the end of the buffer.\<close>

fun dropExpired_loop :: "int \<Rightarrow> nat \<Rightarrow> 'h replayer \<Rightarrow> 'h replayer option" where
  "dropExpired_loop dropUntil 0 r = Some r"
| "dropExpired_loop dropUntil (Suc n) r =
     do { p \<leftarrow> Packet (rbuffer r) (cursor r);
          if Timestamp (Info p) > dropUntil then Some r
          else dropExpired_loop dropUntil n (r\<lparr>dropped := gint (dropped r + 1), cursor := gint (cursor r + 1)\<rparr>) }"

definition dropExpired :: "'h replayer \<Rightarrow> int \<Rightarrow> 'h replayer option" where
  "dropExpired r elapsed =
     dropExpired_loop (first r + elapsed + replayerTimeout div -2) (nat (PacketLen (rbuffer r) - cursor r)) r"

text \<open>The loop that fetches batches until there is a packet that is not too old.  It may run forever on an endless source.\<close>

partial_function (option) refill :: "'h collector \<Rightarrow> int \<Rightarrow> 'h replayer \<Rightarrow> (capture_error option \<times> 'h replayer) option" where
  "refill collect elapsed r =
     (if cursor r \<ge> PacketLen (rbuffer r)
      then do { (err, r) \<leftarrow> fill collect r;
                if err \<noteq> None then Some (err, r)
                else do { r \<leftarrow> dropExpired r elapsed; refill collect elapsed r } }
      else Some (None, r))"

declare refill.simps [code]

fun deliver :: "int \<Rightarrow> nat \<Rightarrow> 'h replayer \<Rightarrow> PacketBuffer \<Rightarrow> (capture_error option \<times> PacketBuffer \<times> 'h replayer) option" where
  "deliver writeUntil 0 r pb = Some (None, pb, r)"
| "deliver writeUntil (Suc n) r pb =
     (if BytesRemaining pb < snapLen then Some (None, pb, r)
      else do { p \<leftarrow> Packet (rbuffer r) (cursor r);
                let r = r\<lparr>received := gint (received r + 1)\<rparr>;
                if Timestamp (Info p) > writeUntil
                then Some (if PacketLen pb = 0 then Some NextErrorTimeoutExpired else None, pb, r)
                else do { (err, pb) \<leftarrow> Packet_Append pb p;
                          case err of
                            Some e \<Rightarrow> Some (Some (BufferError e), pb, r)
                          | None \<Rightarrow> deliver writeUntil n (r\<lparr>cursor := gint (cursor r + 1)\<rparr>) pb } })"

definition Replay_CollectPackets ::
  "'h collector \<Rightarrow> int \<Rightarrow> int \<Rightarrow> 'h replayer \<Rightarrow> PacketBuffer \<Rightarrow> (capture_error option \<times> PacketBuffer \<times> 'h replayer) option" where
  "Replay_CollectPackets collect now0 now r pb =
     (let pb = Packet_Clear pb;
          r = (if start r = 0 then r\<lparr>start := now0\<rparr> else r);
          elapsed = time_Sub now (start r) in
      do { r \<leftarrow> dropExpired r elapsed;
           (err, r) \<leftarrow> refill collect elapsed r;
           if err \<noteq> None then Some (err, pb, r)
           else deliver (first r + gint (elapsed + replayerTimeout)) (nat (PacketLen (rbuffer r) - cursor r)) r pb })"

definition Replay_DiscardPacket :: "'h collector \<Rightarrow> int \<Rightarrow> 'h replayer \<Rightarrow> (capture_error option \<times> 'h replayer) option" where
  "Replay_DiscardPacket collect now r =
     do { (stop, err, r) \<leftarrow>
            (if cursor r \<ge> PacketLen (rbuffer r)
             then do { (err, r) \<leftarrow> fill collect r; Some (PacketLen (rbuffer r) = 0 \<or> err \<noteq> None, err, r) }
             else Some (False, None, r));
          if stop then Some (err, r)
          else do { p \<leftarrow> Packet (rbuffer r) (cursor r);
                    let offset = time_Sub (Timestamp (Info p)) (first r); elapsed = time_Sub now (start r) in
                    if offset > gint (elapsed + replayerTimeout) then Some (Some NextErrorTimeoutExpired, r)
                    else Some (None, r\<lparr>cursor := gint (cursor r + 1), received := gint (received r + 1)\<rparr>) } }"

definition Replay_Stats :: "'h replayer \<Rightarrow> int \<times> int" where
  "Replay_Stats r = (received r, dropped r)"

section \<open>Delivered packets\<close>

definition rep_inv :: "'h replayer \<Rightarrow> bool" where
  "rep_inv r \<longleftrightarrow> pb_inv (rbuffer r) \<and> 0 < offsetsCap (rbuffer r) \<and> 0 \<le> cursor r \<and> int (offsetsCap (rbuffer r)) < 4611686018427387904 \<and>
     cursor r \<le> int (offsetsCap (rbuffer r))"

lemma PacketLen_packets: "pb_inv pb \<Longrightarrow> PacketLen pb = int (length (packets pb))"
  by (simp add: PacketLen_def BlockLen_def length_packets)

lemma Packet_cursor:
  assumes "rep_inv r" and "cursor r < PacketLen (rbuffer r)"
  shows "Packet (rbuffer r) (cursor r) = Some (packets (rbuffer r) ! nat (cursor r))"
proof -
  have "nat (cursor r) < length (packets (rbuffer r))" using assms by (auto simp: rep_inv_def PacketLen_packets)
  with Packet_nth [of "rbuffer r" "nat (cursor r)"] assms show ?thesis by (simp add: rep_inv_def)
qed

text \<open>The packets of the current batch that have not been passed yet.\<close>

definition waiting :: "'h replayer \<Rightarrow> PacketData list" where
  "waiting r = drop (nat (cursor r)) (packets (rbuffer r))"

lemma cursor_step: "\<lbrakk> rep_inv r; cursor r < PacketLen (rbuffer r) \<rbrakk> \<Longrightarrow> gint (cursor r + 1) = cursor r + 1 \<and>
    rep_inv (r\<lparr>cursor := cursor r + 1\<rparr>) \<and> waiting r = packets (rbuffer r) ! nat (cursor r) # waiting (r\<lparr>cursor := cursor r + 1\<rparr>)"
proof -
  assume r: "rep_inv r" "cursor r < PacketLen (rbuffer r)"
  have l: "PacketLen (rbuffer r) \<le> int (offsetsCap (rbuffer r))" using r(1) by (simp add: rep_inv_def pb_inv_def PacketLen_def BlockLen_def)
  have "nat (cursor r) < length (packets (rbuffer r))" using r by (auto simp: rep_inv_def PacketLen_packets)
  then have "waiting r = packets (rbuffer r) ! nat (cursor r) # drop (Suc (nat (cursor r))) (packets (rbuffer r))"
    by (simp add: waiting_def Cons_nth_drop_Suc)
  moreover have "Suc (nat (cursor r)) = nat (cursor r + 1)" using r(1) by (simp add: rep_inv_def nat_add_distrib)
  moreover have "gint (cursor r + 1) = cursor r + 1"
    using r l by (intro gint_id) (auto simp: rep_inv_def int64_def)
  ultimately show ?thesis using r l by (simp add: waiting_def rep_inv_def)
qed

lemma dropExpired_loop_ok:
  assumes "rep_inv r" and "n = nat (PacketLen (rbuffer r) - cursor r)"
  shows "\<exists>r'. dropExpired_loop until n r = Some r' \<and> rep_inv r' \<and> rbuffer r' = rbuffer r \<and> first r' = first r \<and>
    start r' = start r \<and> src r' = src r \<and> received r' = received r \<and>
    waiting r' = dropWhile (\<lambda>p. Timestamp (Info p) \<le> until) (waiting r)"
  using assms
proof (induction n arbitrary: r)
  case 0
  then have "waiting r = []" using PacketLen_packets [of "rbuffer r"] by (simp add: waiting_def rep_inv_def)
  with 0 show ?case by simp
next
  case (Suc n)
  then have lt: "cursor r < PacketLen (rbuffer r)" by simp
  note cs = cursor_step [OF Suc.prems(1) lt]
  show ?case
  proof (cases "Timestamp (Info (packets (rbuffer r) ! nat (cursor r))) > until")
    case True
    with Suc.prems(1) cs Packet_cursor [OF Suc.prems(1) lt] show ?thesis by auto
  next
    case False
    define r1 where "r1 = r\<lparr>dropped := gint (dropped r + 1), cursor := cursor r + 1\<rparr>"
    have "rep_inv r1" "n = nat (PacketLen (rbuffer r1) - cursor r1)" using cs Suc.prems by (auto simp: r1_def rep_inv_def)
    from Suc.IH [OF this] False cs Packet_cursor [OF Suc.prems(1) lt] show ?thesis
      by (auto simp: r1_def waiting_def)
  qed
qed

lemma dropExpired_ok:
  assumes "rep_inv r"
  shows "\<exists>r'. dropExpired r elapsed = Some r' \<and> rep_inv r' \<and> rbuffer r' = rbuffer r \<and> first r' = first r \<and>
    start r' = start r \<and> src r' = src r \<and> received r' = received r \<and>
    waiting r' = dropWhile (\<lambda>p. Timestamp (Info p) \<le> first r + elapsed - 5000000) (waiting r)"
  using dropExpired_loop_ok [OF assms refl, of "first r + elapsed + replayerTimeout div -2"]
  by (simp add: dropExpired_def replayerTimeout_def)

text \<open>What is left after dropping starts with a packet that is not too old.\<close>

lemma waiting_fresh:
  assumes "waiting r = dropWhile (\<lambda>p. Timestamp (Info p) \<le> until) ps" and "rep_inv r" and "cursor r < PacketLen (rbuffer r)"
  shows "\<exists>p qs. waiting r = p # qs \<and> Timestamp (Info p) > until"
proof -
  obtain p qs where w: "waiting r = p # qs" using cursor_step [OF assms(2,3)] by auto
  then have "\<not> Timestamp (Info p) \<le> until" using assms(1) by (metis (no_types, lifting) hd_dropWhile list.distinct(1) list.sel(1))
  with w show ?thesis by simp
qed

lemma deliver_ok:
  assumes "rep_inv r" and "n = nat (PacketLen (rbuffer r) - cursor r)" and "pb_inv pb" and "0 < offsetsCap pb"
  shows "\<exists>err pb' r' ps. deliver until n r pb = Some (err, pb', r') \<and> rep_inv r' \<and> pb_inv pb' \<and>
    offsetsCap pb' = offsetsCap pb \<and> bytesCap pb' = bytesCap pb \<and>
    packets pb' = packets pb @ ps \<and> waiting r = ps @ waiting r' \<and> (\<forall>p\<in>set ps. Timestamp (Info p) \<le> until) \<and>
    first r' = first r \<and> start r' = start r \<and> rbuffer r' = rbuffer r \<and>
    (err = None \<longrightarrow> packets pb = [] \<longrightarrow> 0 < n \<longrightarrow> snapLen \<le> BytesRemaining pb \<longrightarrow> packets pb' \<noteq> [])"
  using assms
proof (induction n arbitrary: r pb)
  case 0
  then show ?case by auto
next
  case (Suc n)
  then have lt: "cursor r < PacketLen (rbuffer r)" by simp
  note cs = cursor_step [OF Suc.prems(1) lt] and pc = Packet_cursor [OF Suc.prems(1) lt]
  define p where "p = packets (rbuffer r) ! nat (cursor r)"
  define r1 where "r1 = r\<lparr>received := gint (received r + 1)\<rparr>"
  have r1: "rep_inv r1" "waiting r1 = waiting r" using Suc.prems(1) by (auto simp: r1_def rep_inv_def waiting_def)
  consider "BytesRemaining pb < snapLen" | "\<not> BytesRemaining pb < snapLen" "Timestamp (Info p) > until"
    | "\<not> BytesRemaining pb < snapLen" "\<not> Timestamp (Info p) > until" by blast
  then show ?case
  proof cases
    case 1
    with Suc.prems(1,3,4) show ?thesis by auto
  next
    case 2
    then have "deliver until (Suc n) r pb = Some (if PacketLen pb = 0 then Some NextErrorTimeoutExpired else None, pb, r1)"
      using pc by (simp add: p_def r1_def)
    then show ?thesis using Suc.prems(3) r1 PacketLen_packets [OF Suc.prems(3)] by (auto simp: r1_def)
  next
    case 3
    obtain err pb1 where a: "Packet_Append pb p = Some (err, pb1)" "pb_inv pb1" "offsetsCap pb1 = offsetsCap pb"
      "bytesCap pb1 = bytesCap pb" "err = None \<longrightarrow> packets pb1 = packets pb @ [p]" "err \<noteq> None \<longrightarrow> pb1 = pb"
      using Packet_Append_ok [OF Suc.prems(3,4), of p] by (metis option.distinct(1))
    show ?thesis
    proof (cases err)
      case (Some e)
      with 3 pc a have "deliver until (Suc n) r pb = Some (Some (BufferError e), pb, r1)" by (simp add: p_def r1_def)
      with Suc.prems(3) r1 show ?thesis by (auto simp: r1_def)
    next
      case None
      define r2 where "r2 = r1\<lparr>cursor := cursor r + 1\<rparr>"
      have eq: "deliver until (Suc n) r pb = deliver until n r2 pb1"
        using 3 pc a(1) None cs by (simp add: p_def r1_def r2_def)
      have r2: "rep_inv r2" "n = nat (PacketLen (rbuffer r2) - cursor r2)" "waiting r = p # waiting r2"
        "first r2 = first r" "start r2 = start r" "rbuffer r2 = rbuffer r"
        using cs Suc.prems(2) by (auto simp: r2_def r1_def rep_inv_def waiting_def p_def)
      from Suc.IH [OF r2(1,2) a(2)] a(3) Suc.prems(4)
      obtain err pb' r' ps where d: "deliver until n r2 pb1 = Some (err, pb', r')" "rep_inv r'" "pb_inv pb'"
        "offsetsCap pb' = offsetsCap pb1" "bytesCap pb' = bytesCap pb1"
        "packets pb' = packets pb1 @ ps" "waiting r2 = ps @ waiting r'" "\<forall>p\<in>set ps. Timestamp (Info p) \<le> until"
        "first r' = first r2" "start r' = start r2" "rbuffer r' = rbuffer r2" by auto
      show ?thesis unfolding eq using d a None r2 3(2)
        by (intro exI [of _ err] exI [of _ pb'] exI [of _ r'] exI [of _ "p # ps"]) auto
    qed
  qed
qed

text \<open>A replayer over a packet source.\<close>

context packet_source
begin

definition replays :: "'s replayer \<Rightarrow> bool" where
  "replays r \<longleftrightarrow> rep_inv r \<and> inv (src r) \<and> snapLen \<le> int (bytesCap (rbuffer r))"

lemma fill_ok:
  assumes "replays r"
  shows "\<exists>err r'. fill collect r = Some (err, r') \<and> replays r' \<and> start r' = start r \<and>
    (err = None \<longrightarrow> cursor r' = 0 \<and> packets (rbuffer r') \<noteq> [] \<and>
       (\<exists>pb'. collect (src r) (rbuffer r) = Some (None, pb', src r')))"
proof -
  have r: "rep_inv r" "inv (src r)" "snapLen \<le> int (bytesCap (rbuffer r))" using assms by (auto simp: replays_def)
  obtain err b h where c: "collect (src r) (rbuffer r) = Some (err, b, h)" "inv h" "pb_inv b" "offsetsCap b = offsetsCap (rbuffer r)"
    "bytesCap b = bytesCap (rbuffer r)" "err = None \<longrightarrow> packets b \<noteq> []"
    using collect_ok [OF r(2), of "rbuffer r"] r(1,3) by (auto simp: rep_inv_def)
  have p0: "\<exists>p. Packet b 0 = Some p" if "err = None"
    using Packet_nth [OF c(3), of 0] c(6) that by auto
  show ?thesis using c r p0
    by (cases err) (auto simp: fill_def replays_def rep_inv_def Let_def)
qed

end

text \<open>A handle that can deliver at most \<open>m\<close> more batches into buffers with room for a packet.\<close>

definition drains :: "'h reader \<Rightarrow> ('h \<Rightarrow> nat) \<Rightarrow> bool" where
  "drains read m \<longleftrightarrow>
     (\<forall>h pb pb' h'. pb_inv pb \<and> 0 < offsetsCap pb \<and> snapLen \<le> int (bytesCap pb) \<and>
        CollectPackets read h pb = Some (None, pb', h') \<longrightarrow> m h' < m h)"

text \<open>
  The loop ends when the source does.
\<close>

lemma refill_ok:
  assumes "plain.replays r" and "drains read m"
  shows "\<exists>err r'. refill (CollectPackets read) elapsed r = Some (err, r') \<and> plain.replays r' \<and> start r' = start r \<and>
    (err = None \<longrightarrow> cursor r' < PacketLen (rbuffer r') \<and>
       (r' = r \<or> (\<exists>p ps. waiting r' = p # ps \<and> Timestamp (Info p) > first r' + elapsed - 5000000)))"
  using assms(1)
proof (induction "m (src r)" arbitrary: r rule: less_induct)
  case less
  show ?case
  proof (cases "cursor r \<ge> PacketLen (rbuffer r)")
    case False
    with less.prems show ?thesis by (subst refill.simps) auto
  next
    case True
    obtain err r1 where f: "fill (CollectPackets read) r = Some (err, r1)" "plain.replays r1" "start r1 = start r"
      "err = None \<longrightarrow> cursor r1 = 0 \<and> packets (rbuffer r1) \<noteq> [] \<and> (\<exists>pb'. CollectPackets read (src r) (rbuffer r) = Some (None, pb', src r1))"
      using plain.fill_ok [OF less.prems, of read] by blast
    show ?thesis
    proof (cases err)
      case (Some e)
      with f True show ?thesis by (subst refill.simps) auto
    next
      case None
      obtain r2 where d: "dropExpired r1 elapsed = Some r2" "rep_inv r2" "rbuffer r2 = rbuffer r1" "first r2 = first r1"
        "start r2 = start r1" "src r2 = src r1" "waiting r2 = dropWhile (\<lambda>p. Timestamp (Info p) \<le> first r1 + elapsed - 5000000) (waiting r1)"
        using dropExpired_ok [of r1 elapsed] f(2) by (auto simp: plain.replays_def)
      have r2: "plain.replays r2" using d f(2) by (simp add: plain.replays_def)
      have "m (src r2) < m (src r)"
        using assms(2) f(4) None d(6) less.prems unfolding drains_def plain.replays_def rep_inv_def by metis
      from less.hyps [OF this r2] obtain err' r' where h: "refill (CollectPackets read) elapsed r2 = Some (err', r')"
        "plain.replays r'" "start r' = start r2"
        "err' = None \<longrightarrow> cursor r' < PacketLen (rbuffer r') \<and>
           (r' = r2 \<or> (\<exists>p ps. waiting r' = p # ps \<and> Timestamp (Info p) > first r' + elapsed - 5000000))" by blast
      have eq: "refill (CollectPackets read) elapsed r = refill (CollectPackets read) elapsed r2"
        using True f(1) None d(1) by (subst refill.simps) simp
      have "\<exists>p ps. waiting r' = p # ps \<and> Timestamp (Info p) > first r' + elapsed - 5000000"
        if "r' = r2" "cursor r' < PacketLen (rbuffer r')"
        using waiting_fresh [OF d(7,2)] that d(4) by simp
      with h eq d(5) f(3) show ?thesis by auto
    qed
  qed
qed

text \<open>Delivering into an empty buffer.\<close>

lemma deliver_clear:
  assumes "plain.replays r" and "pb_inv pb'" and "packets pb' = []" and "offsetsCap pb' = offsetsCap pb" and "bytesCap pb' = bytesCap pb"
    and "BytesRemaining pb' = int (bytesCap pb)" and "0 < offsetsCap pb" and "cursor r < PacketLen (rbuffer r)"
  shows "\<exists>err pb1 r' ps. deliver until (nat (PacketLen (rbuffer r) - cursor r)) r pb' = Some (err, pb1, r') \<and> plain.replays r' \<and> pb_inv pb1 \<and>
    offsetsCap pb1 = offsetsCap pb \<and> bytesCap pb1 = bytesCap pb \<and> packets pb1 = ps \<and> waiting r = ps @ waiting r' \<and>
    (\<forall>p\<in>set ps. Timestamp (Info p) \<le> until) \<and> first r' = first r \<and> start r' = start r \<and>
    (err = None \<longrightarrow> snapLen \<le> int (bytesCap pb) \<longrightarrow> packets pb1 \<noteq> [])"
proof -
  have inv: "rep_inv r" "0 < offsetsCap pb'" "0 < nat (PacketLen (rbuffer r) - cursor r)" using assms by (auto simp: plain.replays_def)
  from deliver_ok [OF inv(1) refl assms(2) inv(2), of until] inv(3) assms show ?thesis by (fastforce simp: plain.replays_def)
qed

lemma Replay_collect:
  assumes "plain.replays r" and "pb_inv pb" and "0 < offsetsCap pb" and "drains read m"
  shows "\<exists>err pb' r'. Replay_CollectPackets (CollectPackets read) now0 now r pb = Some (err, pb', r') \<and> plain.replays r' \<and> pb_inv pb' \<and>
    offsetsCap pb' = offsetsCap pb \<and> bytesCap pb' = bytesCap pb \<and> start r' = (if start r = 0 then now0 else start r) \<and>
    (\<forall>p\<in>set (packets pb'). Timestamp (Info p) \<le> first r' + gint (time_Sub now (start r') + 10000000)) \<and>
    (packets pb' \<noteq> [] \<longrightarrow> Timestamp (Info (hd (packets pb'))) > first r' + time_Sub now (start r') - 5000000) \<and>
    (err = None \<longrightarrow> snapLen \<le> int (bytesCap pb) \<longrightarrow> packets pb' \<noteq> [])"
proof -
  define r0 where "r0 = (if start r = 0 then r\<lparr>start := now0\<rparr> else r)"
  define elapsed where "elapsed = time_Sub now (start r0)"
  have st: "start r0 = (if start r = 0 then now0 else start r)" by (simp add: r0_def)
  have clear: "pb_inv (Packet_Clear pb)" "packets (Packet_Clear pb) = []" "offsetsCap (Packet_Clear pb) = offsetsCap pb"
    "bytesCap (Packet_Clear pb) = bytesCap pb" "BytesRemaining (Packet_Clear pb) = int (bytesCap pb)"
    using pb_inv_Clear [OF assms(2)] by (auto simp: Packet_Clear_def Block_Clear_def BytesRemaining_def)
  have r0: "rep_inv r0" "snapLen \<le> int (bytesCap (rbuffer r0))" using assms(1) by (auto simp: r0_def rep_inv_def plain.replays_def)
  obtain r1 where d: "dropExpired r0 elapsed = Some r1" "rep_inv r1" "rbuffer r1 = rbuffer r0" "first r1 = first r0"
    "start r1 = start r0" "waiting r1 = dropWhile (\<lambda>p. Timestamp (Info p) \<le> first r0 + elapsed - 5000000) (waiting r0)"
    using dropExpired_ok [OF r0(1)] by blast
  have r1: "plain.replays r1" using d r0(2) by (simp add: plain.replays_def)
  obtain err r2 where f: "refill (CollectPackets read) elapsed r1 = Some (err, r2)" "plain.replays r2" "start r2 = start r1"
    "err = None \<longrightarrow> cursor r2 < PacketLen (rbuffer r2) \<and>
       (r2 = r1 \<or> (\<exists>p ps. waiting r2 = p # ps \<and> Timestamp (Info p) > first r2 + elapsed - 5000000))"
    using refill_ok [OF r1 assms(4)] by blast
  have run: "Replay_CollectPackets (CollectPackets read) now0 now r pb =
      (if err \<noteq> None then Some (err, Packet_Clear pb, r2)
       else deliver (first r2 + gint (elapsed + replayerTimeout)) (nat (PacketLen (rbuffer r2) - cursor r2)) r2 (Packet_Clear pb))"
    using d(1) f(1) by (simp add: Replay_CollectPackets_def Let_def r0_def [symmetric] elapsed_def [symmetric])
  show ?thesis
  proof (cases err)
    case (Some e)
    then show ?thesis using run f(2,3) st d(5) clear by auto
  next
    case None
    then have fresh: "\<exists>p ps. waiting r2 = p # ps \<and> Timestamp (Info p) > first r2 + elapsed - 5000000"
      using f(4) waiting_fresh [OF d(6,2)] d(4) by (cases "r2 = r1") auto
    obtain err' pb' r' ps where v: "deliver (first r2 + gint (elapsed + replayerTimeout)) (nat (PacketLen (rbuffer r2) - cursor r2)) r2 (Packet_Clear pb) =
        Some (err', pb', r')" "plain.replays r'" "pb_inv pb'" "offsetsCap pb' = offsetsCap pb" "bytesCap pb' = bytesCap pb"
      "packets pb' = ps" "waiting r2 = ps @ waiting r'"
      "\<forall>p\<in>set ps. Timestamp (Info p) \<le> first r2 + gint (elapsed + replayerTimeout)" "first r' = first r2" "start r' = start r2"
      "err' = None \<longrightarrow> snapLen \<le> int (bytesCap pb) \<longrightarrow> packets pb' \<noteq> []"
      using deliver_clear [OF f(2) clear assms(3)] f(4) None by blast
    have "Timestamp (Info (hd ps)) > first r2 + elapsed - 5000000" if "ps \<noteq> []"
      using fresh v(7) that by (cases ps) auto
    then show ?thesis using run None v st d(5) f(3)
      by (auto simp: elapsed_def replayerTimeout_def)
  qed
qed

section \<open>The replayer is a packet source\<close>

text \<open>The state of the source is the replayer together with the readings of the clock to come.\<close>

type_synonym 'h replay_state = "'h replayer \<times> int list"

text \<open>The clock; when the list of readings is used up it stands still.\<close>

definition tick :: "int list \<Rightarrow> int \<times> int list" where
  "tick ts = (case ts of [] \<Rightarrow> (0, []) | [t] \<Rightarrow> (t, [t]) | t # ts \<Rightarrow> (t, ts))"

definition collect_replayed :: "'h reader \<Rightarrow> 'h replay_state \<Rightarrow> PacketBuffer \<Rightarrow> (capture_error option \<times> PacketBuffer \<times> 'h replay_state) option" where
  "collect_replayed read s pb =
     (let (now0, ts) = tick (snd s); (now, ts) = tick ts in
      do { (err, pb, r) \<leftarrow> Replay_CollectPackets (CollectPackets read) now0 now (fst s) pb; Some (err, pb, r, ts) })"

definition discard_replayed :: "'h reader \<Rightarrow> 'h replay_state \<Rightarrow> (capture_error option \<times> 'h replay_state) option" where
  "discard_replayed read s =
     (let (now, ts) = tick (snd s) in do { (err, r) \<leftarrow> Replay_DiscardPacket (CollectPackets read) now (fst s); Some (err, r, ts) })"

lemma Replay_discard:
  assumes "plain.replays r"
  shows "\<exists>err r'. Replay_DiscardPacket (CollectPackets read) now r = Some (err, r') \<and> plain.replays r'"
proof -
  have pass: "\<exists>err r'. do { p \<leftarrow> Packet (rbuffer r) (cursor r);
        let offset = time_Sub (Timestamp (Info p)) (first r); elapsed = time_Sub now (start r) in
        if offset > gint (elapsed + replayerTimeout) then Some (Some NextErrorTimeoutExpired, r)
        else Some (None, r\<lparr>cursor := gint (cursor r + 1), received := gint (received r + 1)\<rparr>) } = Some (err, r') \<and> plain.replays r'"
    if "plain.replays r" "cursor r < PacketLen (rbuffer r)" for r :: "'a replayer"
    using that cursor_step [of r] Packet_cursor [of r] by (auto simp: plain.replays_def rep_inv_def Let_def)
  show ?thesis
  proof (cases "cursor r \<ge> PacketLen (rbuffer r)")
    case True
    obtain err r1 where f: "fill (CollectPackets read) r = Some (err, r1)" "plain.replays r1"
      "err = None \<longrightarrow> cursor r1 = 0 \<and> packets (rbuffer r1) \<noteq> []"
      using plain.fill_ok [OF assms, of read] by blast
    then have "cursor r1 < PacketLen (rbuffer r1)" if "err = None" using that PacketLen_packets [of "rbuffer r1"] by (auto simp: plain.replays_def rep_inv_def)
    with f True pass [of r1] show ?thesis by (cases err) (auto simp: Replay_DiscardPacket_def)
  next
    case False
    with pass [OF assms] show ?thesis by (simp add: Replay_DiscardPacket_def)
  qed
qed

text \<open>A handle that ends, such as a capture file; a replayer over it is again a packet source.\<close>

locale draining_handle =
  fixes read :: "'h reader"
    and m :: "'h \<Rightarrow> nat"
  assumes draining: "drains read m"

sublocale draining_handle \<subseteq> replayed: packet_source "plain.replays \<circ> fst" "collect_replayed read" "discard_replayed read"
proof
  fix s :: "'h replay_state" and pb :: PacketBuffer
  assume s: "(plain.replays \<circ> fst) s"
  show "\<exists>err s'. discard_replayed read s = Some (err, s') \<and> (plain.replays \<circ> fst) s'"
    using Replay_discard [of "fst s" read "fst (tick (snd s))"] s by (auto simp: discard_replayed_def split_beta)
  assume pb: "pb_inv pb" "0 < offsetsCap pb"
  show "\<exists>err pb' s'. collect_replayed read s pb = Some (err, pb', s') \<and> (plain.replays \<circ> fst) s' \<and> pb_inv pb' \<and>
      offsetsCap pb' = offsetsCap pb \<and> bytesCap pb' = bytesCap pb \<and> (err = None \<longrightarrow> snapLen \<le> int (bytesCap pb) \<longrightarrow> packets pb' \<noteq> [])"
    using Replay_collect [OF _ pb draining, of "fst s" "fst (tick (snd s))" "fst (tick (snd (tick (snd s))))"] s
    by (auto simp: collect_replayed_def split_beta)
qed

section \<open>Properties\<close>


text \<open>A list of packets drains: every batch takes at least one.\<close>

lemma Collect_list_read:
  "\<lbrakk> Collect_loop list_read n i pb h = Some (err, pb', h') \<rbrakk> \<Longrightarrow> length h' \<le> length h \<and>
     (err = None \<longrightarrow> i = 0 \<longrightarrow> 0 < n \<longrightarrow> snapLen \<le> BytesRemaining pb \<longrightarrow> length h' < length h)"
proof (induction n arbitrary: i pb h)
  case (Suc n)
  show ?case
  proof (cases h)
    case Nil
    with Suc.prems show ?thesis by (auto split: if_splits)
  next
    case (Cons p ps)
    show ?thesis
    proof (cases "BytesRemaining pb < snapLen")
      case False
      with Suc.prems Cons obtain e pb1 where a: "Packet_Append pb (p\<lparr>Data := take 65535 (Data p)\<rparr>) = Some (e, pb1)"
        "(case e of Some e \<Rightarrow> Some (Some (BufferError e), pb1, ps) | None \<Rightarrow> Collect_loop list_read n (Suc i) pb1 ps) = Some (err, pb', h')"
        by (auto simp: bind_eq_Some_conv)
      with Suc.IH [of "Suc i" pb1 ps] Cons show ?thesis by (cases e) auto
    qed (use Suc.prems Cons in auto)
  qed
qed simp

lemma list_read_drains: "drains list_read length"
  unfolding drains_def CollectPackets_def Let_def
proof (intro allI impI)
  fix h pb pb' h'
  assume a: "pb_inv pb \<and> 0 < offsetsCap pb \<and> snapLen \<le> int (bytesCap pb) \<and>
    Collect_loop list_read (nat (PacketCap (Packet_Clear pb))) 0 (Packet_Clear pb) h = Some (None, pb', h')"
  with Collect_list_read [of "nat (PacketCap (Packet_Clear pb))" 0 "Packet_Clear pb" h None pb' h'] show "length h' < length h"
    by (simp add: PacketCap_def Packet_Clear_def Block_Clear_def BytesRemaining_def)
qed

interpretation listed: draining_handle list_read length
  by unfold_locales (rule list_read_drains)


text \<open>
  A packet that is not due yet is counted as received every time it is looked at: here two calls that both time out, and deliver
  nothing, leave the count of received packets at two.
\<close>

theorem waiting_packet_counted_twice:
  "let r = \<lparr>start = 1, first = 1,
       rbuffer = \<lparr>offsets = [1], offsetsCap = 1, bytes = ''x'', bytesCap = 65535, cis = [zeroInfo\<lparr>Timestamp := 9000000000\<rparr>]\<rparr>,
       cursor = 0, received = 0, dropped = 0, src = ()\<rparr>;
     collect = (\<lambda>_ _. None); pb = NewPacketBuffer 1 65535 in
   do { (err1, pb1, r1) \<leftarrow> Replay_CollectPackets collect 1 2 r pb;
        (err2, pb2, r2) \<leftarrow> Replay_CollectPackets collect 2 3 r1 pb1;
        Some (err1, err2, PacketLen pb1, PacketLen pb2, Replay_Stats r2) } =
   Some (Some NextErrorTimeoutExpired, Some NextErrorTimeoutExpired, 0, 0, (2, 0))"
  by (simp add: Replay_CollectPackets_def Packet_Clear_def Block_Clear_def NewPacketBuffer_def NewBlockBuffer_def BlockBuffer.defs
      PacketBuffer.defs time_Sub_def maxDuration_def dropExpired_def PacketLen_def BlockLen_def Packet_def Block_def index_at_def slice_def
      replayerTimeout_def refill.simps BytesRemaining_def snapLen_def gint_id int64_def Replay_Stats_def zeroInfo_def)

end
