(* ===== verification/DecodeReplay.thy ===== *)
theory DecodeReplay
  imports DecodeRun Replay
begin

text \<open>
  The decode pool over a replayed capture file, the program's default for files: the results of \<open>DecodePool\<close> and \<open>DecodeRun\<close>, which rest on the interface \<open>packet_source\<close> only, for the replayer.
\<close>

text \<open>The replayer that \<open>capture.New\<close> puts in front of a file, with the readings of the clock to come.\<close>

definition replayed_file :: "'h \<Rightarrow> int list \<Rightarrow> 'h replay_state" where
  "replayed_file h ts = (newReplayer h 1000 (8 * 1024 * 1024), ts)"

lemma replays_new: "plain.replays (newReplayer h 1000 8388608)"
  using pb_inv_New [of 1000 8388608] by (simp add: plain.replays_def rep_inv_def newReplayer_def snapLen_def)

context draining_handle
begin

lemma replayed_pool:
  assumes "run (collect_replayed read) (discard_replayed read) (NewPool n (replayed_file h ts)) ls p"
  shows "pool_ok (plain.replays \<circ> fst) p \<and> numWorkers p = n \<and>
    (\<exists>bs. list_all2 (list_all2 decoded_from) bs (handled_batches ls) \<and> mset (sent_batches ls) = mset bs + in_flight p)"
proof -
  have new: "pool_ok (plain.replays \<circ> fst) (NewPool n (replayed_file h ts))"
    using replays_new by (intro pool_ok_New) (simp add: replayed_file_def)
  with replayed.run_ok [OF assms] replayed.run_batches [OF assms new idle_New] show ?thesis by (simp add: NewPool_def)
qed

lemma replayed_exited:
  fixes p :: "'h replay_state Pool"
  shows "\<lbrakk> pool_ok (plain.replays \<circ> fst) p; pc p = Exited \<rbrakk> \<Longrightarrow> in_flight p = {#}"
  by (rule replayed.exited_idle)

lemma replayed_handle:
  fixes p :: "'h replay_state Pool"
  shows "\<lbrakk> pool_ok (plain.replays \<circ> fst) p; i < length (workers p); phase (workers p ! i) = Handle \<rbrakk>
   \<Longrightarrow> \<exists>dps d. decodeBatch (pb (workers p ! i)) (dec (workers p ! i)) = Some (dps, d)"
  using replayed.batch_handled by blast

end



end
