(* ===== verification/TcpAssembly.thy ===== *)
theory TcpAssembly
  imports Layers StreamReader
begin

text \<open>
  The TCP reassembly of the vendored \<^verbatim>\<open>gopacket/tcpassembly/assembly.go\<close>, on which \<^verbatim>\<open>assembly/worker.go\<close> relies.  The factory of streams and the streams
  are a parameter: the record \<open>stream_ops\<close> holds the three calls the assembler makes, each of which may change the world \<open>'w\<close> that the
  streams live in.  A stream pool is used by one assembler only, so its locks and the race that its loop guards against are not
  modelled.  Pages and connections are recycled through stacks; the fields that recycling does not reset keep their old values.
  A closed connection is one that is no longer in the map.
\<close>

section \<open>Sequence numbers\<close>

definition invalidSequence :: int where
  "invalidSequence = -1"

definition uint32Max :: int where
  "uint32Max = 0xFFFFFFFF"

definition Difference :: "int \<Rightarrow> int \<Rightarrow> int" where
  "Difference s t =
     (if s > uint32Max - uint32Max div 4 \<and> t < uint32Max div 4 then t + uint32Max - s
      else if t > uint32Max - uint32Max div 4 \<and> s < uint32Max div 4 then t - (s + uint32Max)
      else t - s)"

definition Seq_Add :: "int \<Rightarrow> int \<Rightarrow> int" where
  "Seq_Add s t = (s + t) mod 4294967296"

definition byteSpan :: "int \<Rightarrow> int \<Rightarrow> byte list \<Rightarrow> byte list \<times> int" where
  "byteSpan expected got bytes =
     (if expected = invalidSequence then (bytes, Seq_Add got (int (length bytes)))
      else let span = Difference got expected in
        if span \<le> 0 then (bytes, Seq_Add got (int (length bytes)))
        else if int (length bytes) < span then ([], expected)
        else (drop (nat span) bytes, Seq_Add expected (int (length bytes) - span)))"

section \<open>State\<close>

record page =
  reassembly :: Reassembly
  pseq :: int

definition zeroPage :: page where
  "zeroPage = \<lparr>reassembly = \<lparr>Bytes = [], Skip = 0, Start = False, End = False, Seen = 0\<rparr>, pseq = 0\<rparr>"

record 'i connection =
  pages :: "page list"
  npages :: int
  nextSeq :: int
  created :: int
  lastSeen :: int
  stream :: 'i

type_synonym key = "Flow \<times> Flow"

record ('i, 'w) stream_ops =
  New :: "Flow \<Rightarrow> Flow \<Rightarrow> 'w \<Rightarrow> ('i \<times> 'w) option"
  Reassembled :: "'i \<Rightarrow> Reassembly list \<Rightarrow> 'w \<Rightarrow> 'w option"
  ReassemblyComplete :: "'i \<Rightarrow> 'w \<Rightarrow> 'w option"

text \<open>The assembler with its page cache and its stream pool; the top of each free stack is the head of the list.\<close>

record ('i, 'w) Assembler =
  MaxBufferedPagesPerConnection :: int
  MaxBufferedPagesTotal :: int
  free :: "page list"
  pcSize :: nat
  used :: int
  conns :: "key \<Rightarrow> 'i connection option"
  freeConns :: "int list"
  nextAlloc :: nat
  world :: 'w

definition initialAllocSize :: nat where
  "initialAllocSize = 1024"

definition NewAssembler :: "'w \<Rightarrow> ('i, 'w) Assembler" where
  "NewAssembler w =
     \<lparr>MaxBufferedPagesPerConnection = 0, MaxBufferedPagesTotal = 0, free = replicate initialAllocSize zeroPage,
      pcSize = 2 * initialAllocSize, used = 0, conns = Map.empty, freeConns = [], nextAlloc = initialAllocSize, world = w\<rparr>"

section \<open>Pages\<close>

definition pageCache_grow :: "('i, 'w) Assembler \<Rightarrow> ('i, 'w) Assembler" where
  "pageCache_grow a = a\<lparr>free := replicate (pcSize a) zeroPage @ free a, pcSize := pcSize a * 2\<rparr>"

text \<open>A page from the cache: of its reassembly only the time and the bytes are reset.\<close>

definition pageCache_next :: "int \<Rightarrow> ('i, 'w) Assembler \<Rightarrow> (page \<times> ('i, 'w) Assembler) option" where
  "pageCache_next ts a =
     (let a = (if free a = [] then pageCache_grow a else a) in
      case free a of
        [] \<Rightarrow> None
      | p # ps \<Rightarrow> Some (p\<lparr>reassembly := (reassembly p)\<lparr>Seen := ts, Bytes := []\<rparr>\<rparr>, a\<lparr>free := ps, used := used a + 1\<rparr>))"

definition pageCache_replace :: "page \<Rightarrow> ('i, 'w) Assembler \<Rightarrow> ('i, 'w) Assembler" where
  "pageCache_replace p a = a\<lparr>free := p # free a, used := used a - 1\<rparr>"

definition pageBytes :: nat where
  "pageBytes = 1900"

text \<open>The pages of a packet; the end flag is set on the last one only.\<close>

function pagesFromTCP :: "int \<Rightarrow> byte list \<Rightarrow> bool \<Rightarrow> int \<Rightarrow> ('i, 'w) Assembler \<Rightarrow> (page list \<times> ('i, 'w) Assembler) option" where
  "pagesFromTCP seq bytes end ts a =
     do { (p, a) \<leftarrow> pageCache_next ts a;
          let n = min (length bytes) pageBytes;
          let p = p\<lparr>reassembly := (reassembly p)\<lparr>Bytes := take n bytes\<rparr>, pseq := seq\<rparr>;
          if drop n bytes = [] then Some ([p\<lparr>reassembly := (reassembly p)\<lparr>End := end\<rparr>\<rparr>], a)
          else do { (ps, a) \<leftarrow> pagesFromTCP (Seq_Add seq (int n)) (drop n bytes) end ts a; Some (p # ps, a) } }"
  by pat_completeness auto
termination
  by (relation "measure (\<lambda>(seq, bytes, end, ts, a). length bytes)") (auto simp: pageBytes_def)

section \<open>Connections\<close>

text \<open>Pops the first page and adds it to the return list.\<close>

definition addNextFromConn ::
  "'i connection \<Rightarrow> Reassembly list \<Rightarrow> ('i, 'w) Assembler \<Rightarrow> ('i connection \<times> Reassembly list \<times> ('i, 'w) Assembler) option" where
  "addNextFromConn conn ret a =
     (case pages conn of
        [] \<Rightarrow> None
      | p # ps \<Rightarrow>
          let r = reassembly p;
              r = (if nextSeq conn = invalidSequence then r\<lparr>Skip := -1\<rparr>
                   else if Difference (nextSeq conn) (pseq p) > 0 then r\<lparr>Skip := Difference (nextSeq conn) (pseq p)\<rparr> else r);
              (bytes, next) = byteSpan (nextSeq conn) (pseq p) (Bytes r);
              r = r\<lparr>Bytes := bytes\<rparr> in
          Some (conn\<lparr>pages := ps, npages := npages conn - 1, nextSeq := next\<rparr>, ret @ [r], pageCache_replace (p\<lparr>reassembly := r\<rparr>) a))"

text \<open>The loop of \<open>addContiguous\<close>; \<open>n\<close> is the number of pages, which every round reduces.\<close>

fun addContiguous_loop ::
  "nat \<Rightarrow> 'i connection \<Rightarrow> Reassembly list \<Rightarrow> ('i, 'w) Assembler \<Rightarrow> ('i connection \<times> Reassembly list \<times> ('i, 'w) Assembler) option" where
  "addContiguous_loop n conn ret a =
     (case pages conn of
        [] \<Rightarrow> Some (conn, ret, a)
      | p # ps \<Rightarrow>
          if Difference (nextSeq conn) (pseq p) \<le> 0
          then (case n of
                  0 \<Rightarrow> None
                | Suc n \<Rightarrow> do { (conn, ret, a) \<leftarrow> addNextFromConn conn ret a; addContiguous_loop n conn ret a })
          else Some (conn, ret, a))"

declare addContiguous_loop.simps [simp del]

definition addContiguous ::
  "'i connection \<Rightarrow> Reassembly list \<Rightarrow> ('i, 'w) Assembler \<Rightarrow> ('i connection \<times> Reassembly list \<times> ('i, 'w) Assembler) option" where
  "addContiguous conn ret a = addContiguous_loop (length (pages conn)) conn ret a"

text \<open>The connection leaves the map and its pages go back to the cache.\<close>

definition closeConnection :: "('i, 'w) stream_ops \<Rightarrow> key \<Rightarrow> 'i connection \<Rightarrow> ('i, 'w) Assembler \<Rightarrow> ('i, 'w) Assembler option" where
  "closeConnection ops k conn a =
     do { w \<leftarrow> ReassemblyComplete ops (stream conn) (world a);
          let a = a\<lparr>world := w, conns := (conns a)(k := None), freeConns := lastSeen conn # freeConns a\<rparr>;
          Some (fold pageCache_replace (pages conn) a) }"

definition sendToConnection ::
  "('i, 'w) stream_ops \<Rightarrow> key \<Rightarrow> 'i connection \<Rightarrow> Reassembly list \<Rightarrow> ('i, 'w) Assembler \<Rightarrow> ('i, 'w) Assembler option" where
  "sendToConnection ops k conn ret a =
     do { (conn, ret, a) \<leftarrow> addContiguous conn ret a;
          w \<leftarrow> Reassembled ops (stream conn) ret (world a);
          let a = a\<lparr>world := w, conns := (conns a)(k \<mapsto> conn)\<rparr>;
          if ret = [] then None
          else if End (last ret) then closeConnection ops k conn a else Some a }"

definition skipFlush :: "('i, 'w) stream_ops \<Rightarrow> key \<Rightarrow> 'i connection \<Rightarrow> ('i, 'w) Assembler \<Rightarrow> ('i, 'w) Assembler option" where
  "skipFlush ops k conn a =
     (if pages conn = [] then closeConnection ops k conn a
      else do { (conn, ret, a) \<leftarrow> addNextFromConn conn [] a;
                (conn, ret, a) \<leftarrow> addContiguous conn ret a;
                sendToConnection ops k conn ret a })"

text \<open>The new pages go before the pages at the end of the list that come after them.\<close>

fun insertPages :: "int \<Rightarrow> page list \<Rightarrow> page list \<Rightarrow> page list" where
  "insertPages seq new rev_pages = rev (dropWhile (\<lambda>p. Difference (pseq p) seq < 0) rev_pages) @ new @ rev (takeWhile (\<lambda>p. Difference (pseq p) seq < 0) rev_pages)"

definition insertIntoConn ::
  "TCP \<Rightarrow> 'i connection \<Rightarrow> int \<Rightarrow> ('i, 'w) Assembler \<Rightarrow> ('i connection \<times> Reassembly list \<times> ('i, 'w) Assembler) option" where
  "insertIntoConn t conn ts a =
     (if pages conn \<noteq> [] \<and> pseq (hd (pages conn)) = nextSeq conn then None
      else do { (new, a) \<leftarrow> pagesFromTCP (int (Seq t)) (vis (t_Payload t)) (RST t \<or> FIN t) ts a;
                let conn = conn\<lparr>pages := insertPages (int (Seq t)) new (rev (pages conn)), npages := npages conn + int (length new)\<rparr>;
                if (MaxBufferedPagesPerConnection a > 0 \<and> npages conn \<ge> MaxBufferedPagesPerConnection a) \<or>
                   (MaxBufferedPagesTotal a > 0 \<and> used a \<ge> MaxBufferedPagesTotal a)
                then addNextFromConn conn [] a
                else Some (conn, [], a) })"

definition newConnection :: "'i \<Rightarrow> int \<Rightarrow> ('i, 'w) Assembler \<Rightarrow> ('i connection \<times> ('i, 'w) Assembler) option" where
  "newConnection s ts a =
     (let a = (if freeConns a = [] then a\<lparr>freeConns := replicate (nextAlloc a) 0, nextAlloc := nextAlloc a * 2\<rparr> else a) in
      case freeConns a of
        [] \<Rightarrow> None
      | old # rest \<Rightarrow>
          Some (\<lparr>pages = [], npages = 0, nextSeq = invalidSequence, created = ts, lastSeen = old, stream = s\<rparr>, a\<lparr>freeConns := rest\<rparr>))"

definition getConnection ::
  "('i, 'w) stream_ops \<Rightarrow> key \<Rightarrow> bool \<Rightarrow> int \<Rightarrow> ('i, 'w) Assembler \<Rightarrow> ('i connection option \<times> ('i, 'w) Assembler) option" where
  "getConnection ops k end ts a =
     (if end \<or> conns a k \<noteq> None then Some (conns a k, a)
      else do { (s, w) \<leftarrow> New ops (fst k) (snd k) (world a);
                (conn, a) \<leftarrow> newConnection s ts (a\<lparr>world := w\<rparr>);
                Some (Some conn, a\<lparr>conns := (conns a)(k \<mapsto> conn)\<rparr>) })"

section \<open>Assembling\<close>

text \<open>The part after the connection has been found.\<close>

definition assembleInto ::
  "('i, 'w) stream_ops \<Rightarrow> key \<Rightarrow> 'i connection \<Rightarrow> TCP \<Rightarrow> int \<Rightarrow> ('i, 'w) Assembler \<Rightarrow> ('i, 'w) Assembler option" where
  "assembleInto ops k conn t ts a =
     do { let conn = (if lastSeen conn < ts then conn\<lparr>lastSeen := ts\<rparr> else conn);
          let seq = int (Seq t); let bytes = vis (t_Payload t);
          (conn, ret, a) \<leftarrow>
            (if nextSeq conn = invalidSequence
             then if SYN t
               then Some (conn\<lparr>nextSeq := Seq_Add seq (int (length bytes) + 1)\<rparr>, [\<lparr>Bytes = bytes, Skip = 0, Start = True, End = False, Seen = ts\<rparr>], a)
               else insertIntoConn t conn ts a
             else if Difference (nextSeq conn) seq > 0 then insertIntoConn t conn ts a
             else let (bytes, next) = byteSpan (nextSeq conn) seq bytes in
               Some (conn\<lparr>nextSeq := next\<rparr>, [\<lparr>Bytes = bytes, Skip = 0, Start = False, End = RST t \<or> FIN t, Seen = ts\<rparr>], a));
          if ret \<noteq> [] then sendToConnection ops k conn ret a else Some (a\<lparr>conns := (conns a)(k \<mapsto> conn)\<rparr>) }"

definition AssembleWithTimestamp ::
  "('i, 'w) stream_ops \<Rightarrow> Flow \<Rightarrow> TCP \<Rightarrow> int \<Rightarrow> ('i, 'w) Assembler \<Rightarrow> ('i, 'w) Assembler option" where
  "AssembleWithTimestamp ops netFlow t ts a =
     (if \<not> SYN t \<and> \<not> FIN t \<and> \<not> RST t \<and> vis (t_Payload t) = [] then Some a
      else do { tf \<leftarrow> TCP_TransportFlow t;
                let k = (netFlow, tf);
                (c, a) \<leftarrow> getConnection ops k (\<not> SYN t \<and> vis (t_Payload t) = []) ts a;
                case c of None \<Rightarrow> Some a | Some conn \<Rightarrow> assembleInto ops k conn t ts a })"

section \<open>Flushing\<close>

text \<open>The inner loop; every round sends at least one page, so the number of pages bounds the rounds.  The result tells whether anything was flushed.\<close>

fun flush_loop :: "nat \<Rightarrow> ('i, 'w) stream_ops \<Rightarrow> key \<Rightarrow> int \<Rightarrow> bool \<Rightarrow> ('i, 'w) Assembler \<Rightarrow> (bool \<times> ('i, 'w) Assembler) option" where
  "flush_loop n ops k t flushed a =
     (case conns a k of
        None \<Rightarrow> Some (flushed, a)
      | Some conn \<Rightarrow>
          if pages conn \<noteq> [] \<and> Seen (reassembly (hd (pages conn))) < t
          then (case n of
                  0 \<Rightarrow> None
                | Suc n \<Rightarrow> do { a \<leftarrow> skipFlush ops k conn a; flush_loop n ops k t True a })
          else Some (flushed, a))"

declare flush_loop.simps [simp del]

text \<open>One round of the loop over the connections: how many were flushed and closed.\<close>

definition flush_conn :: "('i, 'w) stream_ops \<Rightarrow> int \<Rightarrow> key \<Rightarrow> nat \<times> nat \<times> ('i, 'w) Assembler \<Rightarrow> (nat \<times> nat \<times> ('i, 'w) Assembler) option" where
  "flush_conn ops t k = (\<lambda>(flushes, closes, a).
     case conns a k of
       None \<Rightarrow> Some (flushes, closes, a)
     | Some conn \<Rightarrow>
         do { (flushed, a) \<leftarrow> flush_loop (length (pages conn)) ops k t False a;
              case conns a k of
                None \<Rightarrow> Some (flushes + 1, closes + 1, a)
              | Some conn \<Rightarrow>
                  if pages conn = [] \<and> lastSeen conn < t
                  then do { a \<leftarrow> closeConnection ops k conn a; Some (flushes + 1, closes + 1, a) }
                  else Some (flushes + (if flushed then 1 else 0), closes, a) })"

fun flush_all :: "('i, 'w) stream_ops \<Rightarrow> int \<Rightarrow> key list \<Rightarrow> nat \<times> nat \<times> ('i, 'w) Assembler \<Rightarrow> (nat \<times> nat \<times> ('i, 'w) Assembler) option" where
  "flush_all ops t [] s = Some s"
| "flush_all ops t (k # ks) s = do { s \<leftarrow> flush_conn ops t k s; flush_all ops t ks s }"

text \<open>\<open>keys\<close> is the order in which Go iterates over the map of connections.\<close>

definition FlushOlderThan :: "('i, 'w) stream_ops \<Rightarrow> key list \<Rightarrow> int \<Rightarrow> ('i, 'w) Assembler \<Rightarrow> (nat \<times> nat \<times> ('i, 'w) Assembler) option" where
  "FlushOlderThan ops keys t a = flush_all ops t keys (0, 0, a)"

end
