(* ===== verification/TcpDelivery.thy ===== *)
theory TcpDelivery
  imports TcpAssembly
begin

text \<open>
  What the assembler delivers when it may buffer no more than one page, as \<^verbatim>\<open>assembly/worker.go\<close> configures it: between two packets no
  page is buffered, every packet is handed on at once, a gap is reported with its first bytes.  The interface to the factory
  of streams is the locale \<open>stream_provider\<close>, in which the assembler is proved total.
\<close>

section \<open>Sequence arithmetic\<close>

definition seq_ok :: "int \<Rightarrow> bool" where
  "seq_ok s \<longleftrightarrow> s = invalidSequence \<or> (0 \<le> s \<and> s \<le> uint32Max)"

lemma Difference_same [simp]: "Difference s s = 0"
  by (simp add: Difference_def uint32Max_def)

lemma Difference_swap: "Difference t s = - Difference s t"
  by (auto simp: Difference_def uint32Max_def)

lemma Difference_bound: "\<lbrakk> seq_ok s; 0 \<le> t; t \<le> uint32Max \<rbrakk> \<Longrightarrow> Difference s t < maxcap"
  by (auto simp: Difference_def uint32Max_def maxcap_def seq_ok_def invalidSequence_def)

lemma Seq_Add_range [simp]: "0 \<le> Seq_Add s n" "Seq_Add s n \<le> uint32Max" "Seq_Add s n \<noteq> invalidSequence"
proof -
  have "0 \<le> Seq_Add s n" "Seq_Add s n < 4294967296" by (simp_all add: Seq_Add_def)
  then show "0 \<le> Seq_Add s n" "Seq_Add s n \<le> uint32Max" "Seq_Add s n \<noteq> invalidSequence"
    by (simp_all add: uint32Max_def invalidSequence_def)
qed

lemma Seq_Add_Add [simp]: "Seq_Add (Seq_Add s m) n = Seq_Add s (m + n)"
  by (simp add: Seq_Add_def mod_simps algebra_simps)

lemma seq_ok_Add [simp]: "seq_ok (Seq_Add s n)"
  by (simp add: seq_ok_def)

lemma seq_ok_invalid [simp]: "seq_ok invalidSequence"
  by (simp add: seq_ok_def)

lemma byteSpan_contiguous [simp]: "byteSpan s s bytes = (bytes, Seq_Add s (int (length bytes)))"
  by (simp add: byteSpan_def Let_def)

lemma byteSpan_ahead: "s = invalidSequence \<or> Difference s t > 0 \<Longrightarrow> byteSpan s t bytes = (bytes, Seq_Add t (int (length bytes)))"
  by (auto simp: byteSpan_def Let_def Difference_swap [of t s])

lemma byteSpan_cases:
  "byteSpan s t bytes = (b, u) \<Longrightarrow> length b \<le> length bytes \<and> (seq_ok s \<longrightarrow> s \<noteq> invalidSequence \<longrightarrow> seq_ok u \<and> u \<noteq> invalidSequence)"
  by (auto simp: byteSpan_def Let_def split: if_splits)

section \<open>The pages of a packet\<close>

definition cache_ok :: "('i, 'w) Assembler \<Rightarrow> bool" where
  "cache_ok a \<longleftrightarrow> 0 < pcSize a \<and> (\<forall>p\<in>set (free a). Skip (reassembly p) < maxcap)"

text \<open>Everything but the page cache.\<close>

definition same_conns :: "('i, 'w) Assembler \<Rightarrow> ('i, 'w) Assembler \<Rightarrow> bool" where
  "same_conns a b \<longleftrightarrow> conns b = conns a \<and> world b = world a \<and> freeConns b = freeConns a \<and> nextAlloc b = nextAlloc a \<and>
     MaxBufferedPagesPerConnection b = MaxBufferedPagesPerConnection a \<and> MaxBufferedPagesTotal b = MaxBufferedPagesTotal a"

lemma same_conns_refl [simp]: "same_conns a a"
  by (simp add: same_conns_def)

lemma same_conns_trans: "\<lbrakk> same_conns a b; same_conns b c \<rbrakk> \<Longrightarrow> same_conns a c"
  by (simp add: same_conns_def)

lemma pageCache_next_ok:
  assumes "cache_ok a"
  shows "\<exists>p a'. pageCache_next ts a = Some (p, a') \<and> cache_ok a' \<and> same_conns a a' \<and> Skip (reassembly p) < maxcap \<and> Seen (reassembly p) = ts"
  using assms by (cases "free a") (auto simp: pageCache_next_def pageCache_grow_def cache_ok_def same_conns_def zeroPage_def maxcap_def Let_def
      gr0_conv_Suc)

lemma pageCache_replace_ok:
  "cache_ok a \<Longrightarrow> Skip (reassembly p) < maxcap \<Longrightarrow> cache_ok (pageCache_replace p a) \<and> same_conns a (pageCache_replace p a)"
  by (simp add: pageCache_replace_def cache_ok_def same_conns_def)

text \<open>Pages that carry consecutive bytes from a sequence number on.\<close>

fun consecutive :: "int \<Rightarrow> page list \<Rightarrow> bool" where
  "consecutive s [] = True"
| "consecutive s (p # ps) \<longleftrightarrow> pseq p = s \<and> consecutive (Seq_Add s (int (length (Bytes (reassembly p))))) ps"

definition page_ok :: "int \<Rightarrow> page \<Rightarrow> bool" where
  "page_ok ts p \<longleftrightarrow> Skip (reassembly p) < maxcap \<and> Seen (reassembly p) = ts \<and> length (Bytes (reassembly p)) \<le> pageBytes"

definition page_data :: "page list \<Rightarrow> byte list" where
  "page_data ps = concat (map (Bytes \<circ> reassembly) ps)"

declare pagesFromTCP.simps [simp del]

lemma pagesFromTCP_ok:
  "cache_ok a \<Longrightarrow> \<exists>ps a'. pagesFromTCP s bytes e ts a = Some (ps, a') \<and> cache_ok a' \<and> same_conns a a' \<and> ps \<noteq> [] \<and>
     consecutive s ps \<and> page_data ps = bytes \<and> End (reassembly (last ps)) = e \<and> (\<forall>p\<in>set ps. page_ok ts p)"
proof (induction s bytes e ts a rule: pagesFromTCP.induct)
  case (1 s bytes e ts a)
  obtain p b where p: "pageCache_next ts a = Some (p, b)" "cache_ok b" "same_conns a b" "Skip (reassembly p) < maxcap"
    "Seen (reassembly p) = ts"
    using pageCache_next_ok [OF "1.prems"] by blast
  let ?n = "min (length bytes) pageBytes"
  show ?case
  proof (cases "drop ?n bytes = []")
    case True
    then have "take ?n bytes = bytes" by simp
    with p True show ?thesis
      by (subst pagesFromTCP.simps) (simp add: Let_def page_data_def page_ok_def)
  next
    case False
    note IH = "1.IH" [OF p(1) refl refl refl False]
    from IH p(2) obtain ps c where c: "pagesFromTCP (Seq_Add s (int ?n)) (drop ?n bytes) e ts b = Some (ps, c)"
      "cache_ok c" "same_conns b c" "ps \<noteq> []" "consecutive (Seq_Add s (int ?n)) ps" "page_data ps = drop ?n bytes"
      "End (reassembly (last ps)) = e" "\<forall>p\<in>set ps. page_ok ts p"
      by blast
    have "same_conns a c" using p(3) c(3) by (rule same_conns_trans)
    with p c False show ?thesis
      by (subst pagesFromTCP.simps) (simp add: Let_def page_data_def page_ok_def)
  qed
qed

section \<open>Draining a connection\<close>

lemma addNextFromConn_contiguous:
  assumes "pages conn = p # ps" and "pseq p = nextSeq conn" and "nextSeq conn \<noteq> invalidSequence"
  shows "addNextFromConn conn ret a =
    Some (conn\<lparr>pages := ps, npages := npages conn - 1, nextSeq := Seq_Add (nextSeq conn) (int (length (Bytes (reassembly p))))\<rparr>,
      ret @ [reassembly p], pageCache_replace p a)"
  using assms by (simp add: addNextFromConn_def Let_def)

lemma addContiguous_drain:
  "\<lbrakk> consecutive (nextSeq conn) (pages conn); nextSeq conn \<noteq> invalidSequence; length (pages conn) \<le> n; cache_ok a;
     \<forall>p\<in>set (pages conn). page_ok ts p \<rbrakk>
   \<Longrightarrow> \<exists>a'. addContiguous_loop n conn ret a =
        Some (conn\<lparr>pages := [], npages := npages conn - int (length (pages conn)),
            nextSeq := (if pages conn = [] then nextSeq conn else Seq_Add (nextSeq conn) (int (length (page_data (pages conn)))))\<rparr>,
          ret @ map reassembly (pages conn), a') \<and> cache_ok a' \<and> same_conns a a'"
proof (induction "pages conn" arbitrary: conn n ret a)
  case Nil
  then show ?case by (subst addContiguous_loop.simps) (simp add: Nil.hyps [symmetric])
next
  case (Cons p ps)
  note pages = Cons.hyps(2) [symmetric]
  from Cons.prems pages obtain m where n: "n = Suc m" "length ps \<le> m" by (cases n) auto
  let ?c = "conn\<lparr>pages := ps, npages := npages conn - 1, nextSeq := Seq_Add (nextSeq conn) (int (length (Bytes (reassembly p))))\<rparr>"
  have seq: "pseq p = nextSeq conn" using Cons.prems pages by simp
  have ok: "cache_ok (pageCache_replace p a)" "same_conns a (pageCache_replace p a)"
    using pageCache_replace_ok [of a p] Cons.prems pages by (auto simp: page_ok_def)
  obtain b where b: "addContiguous_loop m ?c (ret @ [reassembly p]) (pageCache_replace p a) =
      Some (?c\<lparr>pages := [], npages := npages ?c - int (length ps),
         nextSeq := (if ps = [] then nextSeq ?c else Seq_Add (nextSeq ?c) (int (length (page_data ps))))\<rparr>,
       (ret @ [reassembly p]) @ map reassembly ps, b)" "cache_ok b" "same_conns (pageCache_replace p a) b"
    using Cons.hyps(1) [of ?c m "pageCache_replace p a" "ret @ [reassembly p]"] Cons.prems pages n ok by auto
  have "same_conns a b" using ok(2) b(3) by (rule same_conns_trans)
  moreover have "addContiguous_loop n conn ret a = addContiguous_loop m ?c (ret @ [reassembly p]) (pageCache_replace p a)"
    using pages n seq Cons.prems
    by (subst addContiguous_loop.simps) (simp add: addNextFromConn_contiguous)
  ultimately show ?case using b pages by (simp add: page_data_def algebra_simps)
qed

section \<open>One packet\<close>

definition quiet :: "('i, 'z) connection_scheme \<Rightarrow> bool" where
  "quiet conn \<longleftrightarrow> pages conn = [] \<and> npages conn = 0"

text \<open>The bytes missing before a packet; \<open>-1\<close> when the start of the stream was not seen.\<close>

definition missing :: "int \<Rightarrow> int \<Rightarrow> int" where
  "missing expected s = (if expected = invalidSequence then -1 else Difference expected s)"

definition ahead :: "int \<Rightarrow> int \<Rightarrow> bool" where
  "ahead expected s \<longleftrightarrow> expected = invalidSequence \<or> Difference expected s > 0"

lemma addNextFromConn_ahead:
  assumes "pages conn = p # ps" and "ahead (nextSeq conn) (pseq p)"
  shows "\<exists>q. addNextFromConn conn ret a =
    Some (conn\<lparr>pages := ps, npages := npages conn - 1, nextSeq := Seq_Add (pseq p) (int (length (Bytes (reassembly p))))\<rparr>,
      ret @ [reassembly q], pageCache_replace q a) \<and> reassembly q = (reassembly p)\<lparr>Skip := missing (nextSeq conn) (pseq p)\<rparr>"
proof -
  have span: "byteSpan (nextSeq conn) (pseq p) b = (b, Seq_Add (pseq p) (int (length b)))" for b
    using assms(2) by (intro byteSpan_ahead) (auto simp: ahead_def)
  show ?thesis using assms
    by (intro exI [of _ "p\<lparr>reassembly := (reassembly p)\<lparr>Skip := missing (nextSeq conn) (pseq p)\<rparr>\<rparr>"])
      (auto simp: addNextFromConn_def Let_def span ahead_def missing_def)
qed

text \<open>What a packet that is ahead of the stream makes the assembler deliver.\<close>

definition gap_delivery :: "int \<Rightarrow> TCP \<Rightarrow> Reassembly list \<Rightarrow> bool" where
  "gap_delivery expected t ret \<longleftrightarrow> ret \<noteq> [] \<and> (\<forall>r\<in>set ret. reassembly_ok r) \<and> concat (map Bytes ret) = vis (t_Payload t) \<and>
     Skip (hd ret) = missing expected (int (Seq t)) \<and> End (last ret) = (RST t \<or> FIN t)"

definition packet_bounds :: "TCP \<Rightarrow> bool" where
  "packet_bounds t \<longleftrightarrow> int (Seq t) \<le> uint32Max \<and> int (length (vis (t_Payload t))) < maxcap"

lemma map_Bytes_pages: "concat (map Bytes (map reassembly ps)) = page_data ps"
  by (simp add: page_data_def)

lemma page_reassembly_ok: "page_ok ts p \<Longrightarrow> reassembly_ok (reassembly p)"
  by (simp add: page_ok_def reassembly_ok_def chunk_ok_def pageBytes_def maxcap_def)

lemma insertIntoConn_ahead:
  assumes "cache_ok a" and "quiet conn" and "MaxBufferedPagesPerConnection a = 1" and "ahead (nextSeq conn) (int (Seq t))"
    and "seq_ok (nextSeq conn)" and "packet_bounds t"
  shows "\<exists>conn1 ret1 a1 ret a2. insertIntoConn t conn ts a = Some (conn1, ret1, a1) \<and> ret1 \<noteq> [] \<and>
    addContiguous conn1 ret1 a1 =
      Some (conn\<lparr>nextSeq := Seq_Add (int (Seq t)) (int (length (vis (t_Payload t))))\<rparr>, ret, a2) \<and>
    gap_delivery (nextSeq conn) t ret \<and> cache_ok a2 \<and> same_conns a a2"
proof -
  obtain p ps b where p: "pagesFromTCP (int (Seq t)) (vis (t_Payload t)) (RST t \<or> FIN t) ts a = Some (p # ps, b)" "cache_ok b"
    "same_conns a b" "consecutive (int (Seq t)) (p # ps)" "page_data (p # ps) = vis (t_Payload t)"
    "End (reassembly (last (p # ps))) = (RST t \<or> FIN t)" "\<forall>x\<in>set (p # ps). page_ok ts x"
    using pagesFromTCP_ok [OF assms(1), of "int (Seq t)" "vis (t_Payload t)" "RST t \<or> FIN t" ts]
    by (metis neq_Nil_conv)
  let ?c = "conn\<lparr>pages := p # ps, npages := 1 + int (length ps)\<rparr>"
  obtain q where q: "addNextFromConn ?c [] b =
      Some (?c\<lparr>pages := ps, npages := int (length ps), nextSeq := Seq_Add (pseq p) (int (length (Bytes (reassembly p))))\<rparr>,
        [reassembly q], pageCache_replace q b)" "reassembly q = (reassembly p)\<lparr>Skip := missing (nextSeq conn) (pseq p)\<rparr>"
    using addNextFromConn_ahead [of ?c p ps "[]" b] assms(4) p(4) by auto
  let ?d = "?c\<lparr>pages := ps, npages := int (length ps), nextSeq := Seq_Add (pseq p) (int (length (Bytes (reassembly p))))\<rparr>"
  have ins: "insertIntoConn t conn ts a = Some (?d, [reassembly q], pageCache_replace q b)"
    using assms(2,3) p(1,3) q(1) by (simp add: insertIntoConn_def quiet_def same_conns_def)
  have skip: "missing (nextSeq conn) (int (Seq t)) < maxcap"
    using assms(5,6) by (auto simp: missing_def packet_bounds_def maxcap_def intro!: Difference_bound [unfolded maxcap_def])
  have ok: "cache_ok (pageCache_replace q b)" "same_conns b (pageCache_replace q b)"
    using pageCache_replace_ok [OF p(2), of q] q(2) p(4) skip by auto
  obtain a2 where a2: "addContiguous ?d [reassembly q] (pageCache_replace q b) =
      Some (?d\<lparr>pages := [], npages := npages ?d - int (length ps),
            nextSeq := (if ps = [] then nextSeq ?d else Seq_Add (nextSeq ?d) (int (length (page_data ps))))\<rparr>,
          [reassembly q] @ map reassembly ps, a2)" "cache_ok a2" "same_conns (pageCache_replace q b) a2"
    using addContiguous_drain [of ?d "length ps" "pageCache_replace q b" ts "[reassembly q]"] p(4,7) ok(1)
    by (auto simp: addContiguous_def)
  have len: "length (vis (t_Payload t)) = length (Bytes (reassembly p)) + length (page_data ps)"
    using arg_cong [OF p(5), of length] by (simp add: page_data_def)
  have conn': "?d\<lparr>pages := [], npages := npages ?d - int (length ps),
      nextSeq := (if ps = [] then nextSeq ?d else Seq_Add (nextSeq ?d) (int (length (page_data ps))))\<rparr> =
    conn\<lparr>nextSeq := Seq_Add (int (Seq t)) (int (length (vis (t_Payload t))))\<rparr>"
    using assms(2) p(4) len by (cases conn) (auto simp: quiet_def page_data_def)
  have "End (last ([reassembly q] @ map reassembly ps)) = (RST t \<or> FIN t)"
    using p(6) q(2) by (simp add: last_map split: if_splits)
  moreover have "concat (map Bytes ([reassembly q] @ map reassembly ps)) = vis (t_Payload t)"
    using p(5) q(2) by (simp add: page_data_def)
  moreover have "reassembly_ok (reassembly q)"
    using p(4,7) q(2) skip page_reassembly_ok [of ts p] by (simp add: reassembly_ok_def chunk_ok_def)
  ultimately have "gap_delivery (nextSeq conn) t ([reassembly q] @ map reassembly ps)"
    using p(4,7) q(2) page_reassembly_ok [of ts] by (auto simp: gap_delivery_def)
  then show ?thesis
    using ins a2 same_conns_trans [OF same_conns_trans [OF p(3) ok(2)] a2(3)] unfolding conn' by blast
qed

text \<open>What one packet makes the assembler deliver on an open connection, and how it leaves the connection.\<close>

definition delivery :: "'i connection \<Rightarrow> TCP \<Rightarrow> int \<Rightarrow> Reassembly list \<Rightarrow> 'i connection \<Rightarrow> bool" where
  "delivery conn t ts ret conn' \<longleftrightarrow>
     (let s = int (Seq t); expected = nextSeq conn; bytes = vis (t_Payload t) in
      stream conn' = stream conn \<and> quiet conn' \<and> lastSeen conn' = max (lastSeen conn) ts \<and>
      (if expected = invalidSequence \<and> SYN t
       then ret = [\<lparr>Bytes = bytes, Skip = 0, Start = True, End = False, Seen = ts\<rparr>] \<and> nextSeq conn' = Seq_Add s (int (length bytes) + 1)
       else if ahead expected s then gap_delivery expected t ret \<and> nextSeq conn' = Seq_Add s (int (length bytes))
       else ret = [\<lparr>Bytes = fst (byteSpan expected s bytes), Skip = 0, Start = False, End = RST t \<or> FIN t, Seen = ts\<rparr>] \<and>
         nextSeq conn' = snd (byteSpan expected s bytes)))"

lemma delivery_ok:
  assumes "delivery conn t ts ret conn'" and "packet_bounds t" and "seq_ok (nextSeq conn)"
  shows "ret \<noteq> []" and "\<forall>r\<in>set ret. reassembly_ok r" and "seq_ok (nextSeq conn')"
proof -
  have "length (fst (byteSpan (nextSeq conn) (int (Seq t)) (vis (t_Payload t)))) \<le> length (vis (t_Payload t))"
    using byteSpan_cases by (metis prod.collapse)
  moreover have "\<not> ahead (nextSeq conn) (int (Seq t)) \<Longrightarrow> seq_ok (snd (byteSpan (nextSeq conn) (int (Seq t)) (vis (t_Payload t))))"
    using byteSpan_cases assms(3) by (metis ahead_def prod.collapse)
  ultimately show "ret \<noteq> []" "\<forall>r\<in>set ret. reassembly_ok r" "seq_ok (nextSeq conn')"
    using assms by (auto simp: delivery_def Let_def gap_delivery_def reassembly_ok_def chunk_ok_def packet_bounds_def maxcap_def split: if_splits)
qed

text \<open>The assembler between two packets.\<close>

definition asm_ok :: "('i, 'w) Assembler \<Rightarrow> bool" where
  "asm_ok a \<longleftrightarrow> cache_ok a \<and> MaxBufferedPagesPerConnection a = 1 \<and> 0 < nextAlloc a \<and>
     (\<forall>k conn. conns a k = Some conn \<longrightarrow> quiet conn \<and> seq_ok (nextSeq conn))"

text \<open>Handing the bytes over and closing the connection if they were the last.\<close>

definition hand_over ::
  "('i, 'w) stream_ops \<Rightarrow> key \<Rightarrow> 'i connection \<Rightarrow> Reassembly list \<Rightarrow> ('i, 'w) Assembler \<Rightarrow> ('i, 'w) Assembler option" where
  "hand_over ops k conn ret a =
     do { w \<leftarrow> Reassembled ops (stream conn) ret (world a);
          let a = a\<lparr>world := w, conns := (conns a)(k \<mapsto> conn)\<rparr>;
          if End (last ret) then closeConnection ops k conn a else Some a }"

lemma sendToConnection_hand_over:
  assumes "addContiguous conn1 ret1 a1 = Some (conn, ret, a)" and "ret \<noteq> []"
  shows "sendToConnection ops k conn1 ret1 a1 = hand_over ops k conn ret a"
  using assms by (simp add: sendToConnection_def hand_over_def)

lemma addContiguous_quiet: "quiet conn \<Longrightarrow> addContiguous conn ret a = Some (conn, ret, a)"
  by (simp add: addContiguous_def quiet_def addContiguous_loop.simps)

lemma assembleInto_delivers:
  assumes "cache_ok a" and "MaxBufferedPagesPerConnection a = 1" and "quiet conn" and "seq_ok (nextSeq conn)" and "packet_bounds t"
  shows "\<exists>ret conn' a'. assembleInto ops k conn t ts a = hand_over ops k conn' ret a' \<and> delivery conn t ts ret conn' \<and>
    cache_ok a' \<and> same_conns a a'"
proof -
  let ?c = "if lastSeen conn < ts then conn\<lparr>lastSeen := ts\<rparr> else conn"
  have c: "quiet ?c" "nextSeq ?c = nextSeq conn" "lastSeen ?c = max (lastSeen conn) ts" "stream ?c = stream conn"
    using assms(3) by (auto simp: quiet_def)
  have now: ?thesis if "assembleInto ops k conn t ts a = sendToConnection ops k (?c\<lparr>nextSeq := s\<rparr>) [r] a"
    "delivery conn t ts [r] (?c\<lparr>nextSeq := s\<rparr>)" for s r
    using that c(1) assms(1) sendToConnection_hand_over [OF addContiguous_quiet, of "?c\<lparr>nextSeq := s\<rparr>" "[r]" ops k a]
    by (metis list.distinct(1) same_conns_refl delivery_def)
  consider (syn) "nextSeq conn = invalidSequence" "SYN t"
    | (gap) "ahead (nextSeq conn) (int (Seq t))" "\<not> (nextSeq conn = invalidSequence \<and> SYN t)"
    | (data) "\<not> ahead (nextSeq conn) (int (Seq t))"
    by blast
  then show ?thesis
  proof cases
    case syn
    then show ?thesis using c
      by (intro now [of "Seq_Add (int (Seq t)) (int (length (vis (t_Payload t))) + 1)"])
        (auto simp: assembleInto_def delivery_def Let_def quiet_def)
  next
    case gap
    obtain conn1 ret1 a1 ret a2 where ins: "insertIntoConn t ?c ts a = Some (conn1, ret1, a1)" "ret1 \<noteq> []"
      "addContiguous conn1 ret1 a1 = Some (?c\<lparr>nextSeq := Seq_Add (int (Seq t)) (int (length (vis (t_Payload t))))\<rparr>, ret, a2)"
      "gap_delivery (nextSeq conn) t ret" "cache_ok a2" "same_conns a a2"
      using insertIntoConn_ahead [of a ?c t ts] assms gap c by auto
    have "ret \<noteq> []" using ins(4) by (simp add: gap_delivery_def)
    with ins gap have "assembleInto ops k conn t ts a =
        hand_over ops k (?c\<lparr>nextSeq := Seq_Add (int (Seq t)) (int (length (vis (t_Payload t))))\<rparr>) ret a2"
      using sendToConnection_hand_over [OF ins(3), of ops k]
      by (auto simp: assembleInto_def Let_def ahead_def c(2))
    moreover have "delivery conn t ts ret (?c\<lparr>nextSeq := Seq_Add (int (Seq t)) (int (length (vis (t_Payload t))))\<rparr>)"
      using gap ins(4) c by (auto simp: delivery_def Let_def quiet_def)
    ultimately show ?thesis using ins by blast
  next
    case data
    then show ?thesis using c
      by (intro now [of "snd (byteSpan (nextSeq conn) (int (Seq t)) (vis (t_Payload t)))"])
        (auto simp: assembleInto_def delivery_def Let_def quiet_def ahead_def split_beta)
  qed
qed

section \<open>The interface to the streams\<close>

text \<open>
  What the assembler needs of a factory of streams, and what it gives in return.  \<open>owns w k s\<close>: stream \<open>s\<close> was created for the
  key \<open>k\<close>; \<open>conv k\<close> is the conversation that \<open>k\<close> is one direction of, and \<open>view w c\<close> the part of the world that belongs to
  conversation \<open>c\<close>, on which the streams of other conversations have no effect.
\<close>

definition extends :: "('w \<Rightarrow> key \<Rightarrow> 'i \<Rightarrow> bool) \<Rightarrow> ('w \<Rightarrow> 'c \<Rightarrow> 'v) \<Rightarrow> 'c \<Rightarrow> 'w \<Rightarrow> 'w \<Rightarrow> bool" where
  "extends owns view c w w' \<longleftrightarrow> (\<forall>k s. owns w k s \<longrightarrow> owns w' k s) \<and> (\<forall>d. d \<noteq> c \<longrightarrow> view w' d = view w d)"

lemma extends_refl [simp]: "extends owns view c w w"
  by (simp add: extends_def)

lemma extends_trans: "\<lbrakk> extends owns view c u v; extends owns view c v w \<rbrakk> \<Longrightarrow> extends owns view c u w"
  by (simp add: extends_def)

definition asm_inv :: "('w \<Rightarrow> bool) \<Rightarrow> ('w \<Rightarrow> key \<Rightarrow> 'i \<Rightarrow> bool) \<Rightarrow> ('i, 'w) Assembler \<Rightarrow> bool" where
  "asm_inv winv owns a \<longleftrightarrow> asm_ok a \<and> winv (world a) \<and> (\<forall>k conn. conns a k = Some conn \<longrightarrow> owns (world a) k (stream conn))"

lemma asm_inv_same:
  "\<lbrakk> asm_inv winv owns b; same_conns b b'; cache_ok b' \<rbrakk> \<Longrightarrow> asm_inv winv owns b'"
  by (simp add: asm_inv_def asm_ok_def same_conns_def del: split_paired_All)

locale stream_provider =
  fixes ops :: "('i, 'w) stream_ops" and winv :: "'w \<Rightarrow> bool" and key_ok :: "key \<Rightarrow> bool"
    and owns :: "'w \<Rightarrow> key \<Rightarrow> 'i \<Rightarrow> bool" and conv :: "key \<Rightarrow> 'c" and view :: "'w \<Rightarrow> 'c \<Rightarrow> 'v"
  assumes New: "\<lbrakk> winv w; key_ok k \<rbrakk> \<Longrightarrow>
      \<exists>s w'. New ops (fst k) (snd k) w = Some (s, w') \<and> winv w' \<and> owns w' k s \<and> extends owns view (conv k) w w'"
    and Reassembled: "\<lbrakk> winv w; owns w k s; \<forall>r\<in>set rs. reassembly_ok r \<rbrakk> \<Longrightarrow>
      \<exists>w'. Reassembled ops s rs w = Some w' \<and> winv w' \<and> extends owns view (conv k) w w'"
    and Complete: "\<lbrakk> winv w; owns w k s \<rbrakk> \<Longrightarrow>
      \<exists>w'. ReassemblyComplete ops s w = Some w' \<and> winv w' \<and> extends owns view (conv k) w w'"
begin

text \<open>A step of the assembler that only concerns one key.\<close>

lemma closeConnection_ok:
  assumes "asm_inv winv owns a" and "quiet conn" and "owns (world a) k (stream conn)"
  shows "\<exists>a'. closeConnection ops k conn a = Some a' \<and> asm_inv winv owns a' \<and> conns a' = (conns a)(k := None) \<and>
    extends owns view (conv k) (world a) (world a')"
proof -
  obtain w where "ReassemblyComplete ops (stream conn) (world a) = Some w" "winv w" "extends owns view (conv k) (world a) w"
    using Complete [OF _ assms(3)] assms(1) by (auto simp: asm_inv_def)
  with assms show ?thesis
    by (auto simp: closeConnection_def quiet_def asm_inv_def asm_ok_def cache_ok_def extends_def)
qed

lemma hand_over_ok:
  assumes "asm_inv winv owns a" and "quiet conn" and "seq_ok (nextSeq conn)" and "owns (world a) k (stream conn)" and "\<forall>r\<in>set ret. reassembly_ok r"
  shows "\<exists>a'. hand_over ops k conn ret a = Some a' \<and> asm_inv winv owns a' \<and>
    conns a' = (conns a)(k := if End (last ret) then None else Some conn) \<and> extends owns view (conv k) (world a) (world a')"
proof -
  obtain w where w: "Reassembled ops (stream conn) ret (world a) = Some w" "winv w" "extends owns view (conv k) (world a) w"
    using Reassembled [OF _ assms(4,5)] assms(1) by (auto simp: asm_inv_def)
  let ?a = "a\<lparr>world := w, conns := (conns a)(k \<mapsto> conn)\<rparr>"
  have a: "asm_inv winv owns ?a" "owns (world ?a) k (stream conn)"
    using assms w by (auto simp: asm_inv_def asm_ok_def cache_ok_def extends_def simp del: split_paired_All)
  show ?thesis
  proof (cases "End (last ret)")
    case True
    with closeConnection_ok [OF a(1) assms(2) a(2)] w show ?thesis
      by (fastforce simp: hand_over_def intro: extends_trans)
  qed (use w a in \<open>simp add: hand_over_def\<close>)
qed

lemma getConnection_ok:
  assumes "asm_inv winv owns a" and "key_ok k"
  shows "\<exists>c a'. getConnection ops k e ts a = Some (c, a') \<and> asm_inv winv owns a' \<and> c = conns a' k \<and>
    (\<forall>l. l \<noteq> k \<longrightarrow> conns a' l = conns a l) \<and> extends owns view (conv k) (world a) (world a')"
proof (cases "e \<or> conns a k \<noteq> None")
  case True
  then show ?thesis using assms(1) by (auto simp: getConnection_def)
next
  case False
  obtain s w where w: "New ops (fst k) (snd k) (world a) = Some (s, w)" "winv w" "owns w k s" "extends owns view (conv k) (world a) w"
    using New [OF _ assms(2), of "world a"] assms(1) unfolding asm_inv_def by blast
  have "0 < nextAlloc a" using assms(1) by (simp add: asm_inv_def asm_ok_def)
  then obtain conn b where b: "newConnection s ts (a\<lparr>world := w\<rparr>) = Some (conn, b)" "stream conn = s" "quiet conn" "nextSeq conn = invalidSequence"
    "conns b = conns a" "world b = w" "cache_ok b = cache_ok a" "0 < nextAlloc b" "MaxBufferedPagesPerConnection b = MaxBufferedPagesPerConnection a"
    by (cases "freeConns a") (auto simp: newConnection_def quiet_def cache_ok_def Let_def gr0_conv_Suc)
  have "asm_inv winv owns (b\<lparr>conns := (conns b)(k \<mapsto> conn)\<rparr>)"
    using assms(1) b w by (auto simp: asm_inv_def asm_ok_def cache_ok_def extends_def simp del: split_paired_All)
  with False w b show ?thesis by (simp add: getConnection_def)
qed

lemma Assemble_ok:
  assumes "asm_inv winv owns a" and "TCP_TransportFlow t = Some f" and "key_ok (netFlow, f)" and "packet_bounds t"
  shows "\<exists>a'. AssembleWithTimestamp ops netFlow t ts a = Some a' \<and> asm_inv winv owns a' \<and>
    (\<forall>l. l \<noteq> (netFlow, f) \<longrightarrow> conns a' l = conns a l) \<and> extends owns view (conv (netFlow, f)) (world a) (world a')"
proof (cases "\<not> SYN t \<and> \<not> FIN t \<and> \<not> RST t \<and> vis (t_Payload t) = []")
  case True
  then show ?thesis using assms(1) by (simp add: AssembleWithTimestamp_def)
next
  case False
  let ?k = "(netFlow, f)"
  obtain b where b: "getConnection ops ?k (\<not> SYN t \<and> vis (t_Payload t) = []) ts a = Some (conns b ?k, b)" "asm_inv winv owns b"
    "\<forall>l. l \<noteq> ?k \<longrightarrow> conns b l = conns a l" "extends owns view (conv ?k) (world a) (world b)"
    using getConnection_ok [OF assms(1,3)] by blast
  show ?thesis
  proof (cases "conns b ?k")
    case None
    with False assms(2) b show ?thesis by (auto simp: AssembleWithTimestamp_def)
  next
    case (Some conn)
    with b(2) have conn: "quiet conn" "seq_ok (nextSeq conn)" "owns (world b) ?k (stream conn)" "cache_ok b"
      "MaxBufferedPagesPerConnection b = 1"
      by (auto simp: asm_inv_def asm_ok_def)
    obtain ret conn' b' where d: "assembleInto ops ?k conn t ts b = hand_over ops ?k conn' ret b'" "delivery conn t ts ret conn'"
      "cache_ok b'" "same_conns b b'"
      using assembleInto_delivers [OF conn(4,5,1,2) assms(4)] by blast
    from d(2) have "stream conn' = stream conn" "quiet conn'" by (auto simp: delivery_def Let_def)
    with hand_over_ok [OF asm_inv_same [OF b(2) d(4,3)], of conn' ?k ret] delivery_ok [OF d(2) assms(4) conn(2)] conn(3) d(4)
    obtain a' where a': "hand_over ops ?k conn' ret b' = Some a'" "asm_inv winv owns a'"
      "conns a' = (conns b')(?k := if End (last ret) then None else Some conn')" "extends owns view (conv ?k) (world b') (world a')"
      by (auto simp: same_conns_def)
    have "extends owns view (conv ?k) (world a) (world a')"
      using b(4) a'(4) d(4) by (auto simp: same_conns_def intro: extends_trans)
    with False assms(2) b Some d a' show ?thesis by (auto simp: AssembleWithTimestamp_def same_conns_def)
  qed
qed

end

section \<open>Flushing\<close>

definition stale :: "int \<Rightarrow> ('i, 'w) Assembler \<Rightarrow> key \<Rightarrow> bool" where
  "stale t a k \<longleftrightarrow> (case conns a k of None \<Rightarrow> False | Some conn \<Rightarrow> lastSeen conn < t)"

context stream_provider
begin

text \<open>With nothing buffered, flushing closes the connections that have been idle and does nothing else.\<close>

lemma flush_conn_ok:
  assumes "asm_inv winv owns a"
  shows "\<exists>a'. flush_conn ops t k (n, m, a) = Some (n + of_bool (stale t a k), m + of_bool (stale t a k), a') \<and> asm_inv winv owns a' \<and>
    (if stale t a k then conns a' = (conns a)(k := None) \<and> extends owns view (conv k) (world a) (world a') else a' = a)"
proof (cases "conns a k")
  case (Some conn)
  then have conn: "quiet conn" "owns (world a) k (stream conn)" using assms by (auto simp: asm_inv_def asm_ok_def simp del: split_paired_All)
  from Some conn have "flush_loop (length (pages conn)) ops k t False a = Some (False, a)"
    by (simp add: flush_loop.simps quiet_def)
  with Some conn closeConnection_ok [OF assms conn] assms show ?thesis
    by (auto simp: flush_conn_def stale_def quiet_def)
qed (use assms in \<open>simp add: flush_conn_def stale_def\<close>)

lemma flush_all_ok:
  "asm_inv winv owns a \<Longrightarrow> \<exists>n' m' a'. flush_all ops t ks (n, m, a) = Some (n', m', a') \<and> asm_inv winv owns a' \<and>
     (\<forall>l. conns a' l = (if l \<in> set ks \<and> stale t a l then None else conns a l)) \<and>
     (\<forall>k s. owns (world a) k s \<longrightarrow> owns (world a') k s) \<and>
     (\<forall>c. (\<forall>k. conv k = c \<longrightarrow> \<not> stale t a k) \<longrightarrow> view (world a') c = view (world a) c)"
proof (induction ks arbitrary: n m a)
  case (Cons k ks)
  obtain b where b: "flush_conn ops t k (n, m, a) = Some (n + of_bool (stale t a k), m + of_bool (stale t a k), b)" "asm_inv winv owns b"
    "if stale t a k then conns b = (conns a)(k := None) \<and> extends owns view (conv k) (world a) (world b) else b = a"
    using flush_conn_ok [OF Cons.prems] by blast
  have st: "stale t b l \<longleftrightarrow> stale t a l \<and> (l = k \<longrightarrow> \<not> stale t a k)" for l
    using b(3) by (auto simp: stale_def split: if_splits)
  obtain n' m' a' where a': "flush_all ops t ks (n + of_bool (stale t a k), m + of_bool (stale t a k), b) = Some (n', m', a')"
    "asm_inv winv owns a'" "\<forall>l. conns a' l = (if l \<in> set ks \<and> stale t b l then None else conns b l)"
    "\<forall>k s. owns (world b) k s \<longrightarrow> owns (world a') k s"
    "\<forall>c. (\<forall>k. conv k = c \<longrightarrow> \<not> stale t b k) \<longrightarrow> view (world a') c = view (world b) c"
    using Cons.IH [OF b(2)] by blast
  have "conns a' l = (if l \<in> set (k # ks) \<and> stale t a l then None else conns a l)" for l
    using a'(3) b(3) st by (auto split: if_splits simp del: split_paired_All)
  moreover have "\<forall>k s. owns (world a) k s \<longrightarrow> owns (world a') k s"
    using a'(4) b(3) unfolding extends_def by metis
  moreover have "view (world a') c = view (world a) c" if "\<forall>k. conv k = c \<longrightarrow> \<not> stale t a k" for c
    using a'(5) b(3) that st unfolding extends_def by metis
  ultimately show ?case using a' b by (simp del: split_paired_All)
qed simp

end

section \<open>Packets in sequence\<close>

text \<open>A packet without payload and without flags is ignored.\<close>

definition useless :: "TCP \<Rightarrow> bool" where
  "useless t \<longleftrightarrow> \<not> SYN t \<and> \<not> FIN t \<and> \<not> RST t \<and> vis (t_Payload t) = []"

lemma Assemble_useless: "useless t \<Longrightarrow> AssembleWithTimestamp ops netFlow t ts a = Some a"
  by (simp add: AssembleWithTimestamp_def useless_def)

definition in_sequence :: "'i connection \<Rightarrow> TCP \<Rightarrow> int \<Rightarrow> 'i connection \<Rightarrow> bool" where
  "in_sequence conn t ts conn' \<longleftrightarrow> stream conn' = stream conn \<and> quiet conn' \<and> lastSeen conn' = max (lastSeen conn) ts \<and>
     nextSeq conn' = Seq_Add (int (Seq t)) (int (length (vis (t_Payload t))))"

lemma Assemble_in_sequence:
  assumes "asm_ok a" and "conns a (netFlow, f) = Some conn" and "TCP_TransportFlow t = Some f" and "packet_bounds t"
    and "\<not> useless t" and "nextSeq conn = int (Seq t)"
  shows "\<exists>conn' a'. AssembleWithTimestamp ops netFlow t ts a = hand_over ops (netFlow, f) conn'
      [\<lparr>Bytes = vis (t_Payload t), Skip = 0, Start = False, End = RST t \<or> FIN t, Seen = ts\<rparr>] a' \<and>
    in_sequence conn t ts conn' \<and> cache_ok a' \<and> same_conns a a'"
proof -
  have conn: "quiet conn" "seq_ok (nextSeq conn)" "cache_ok a" "MaxBufferedPagesPerConnection a = 1"
    using assms(1,2) by (auto simp: asm_ok_def)
  obtain ret conn' a' where d: "assembleInto ops (netFlow, f) conn t ts a = hand_over ops (netFlow, f) conn' ret a'"
    "delivery conn t ts ret conn'" "cache_ok a'" "same_conns a a'"
    using assembleInto_delivers [OF conn(3,4,1,2) assms(4)] by blast
  have "\<not> ahead (nextSeq conn) (int (Seq t))" "nextSeq conn \<noteq> invalidSequence"
    using assms(6) by (auto simp: ahead_def invalidSequence_def)
  with d(2) assms(6) have "ret = [\<lparr>Bytes = vis (t_Payload t), Skip = 0, Start = False, End = RST t \<or> FIN t, Seen = ts\<rparr>]"
    "in_sequence conn t ts conn'"
    by (auto simp: delivery_def in_sequence_def Let_def)
  with d assms show ?thesis by (auto simp: AssembleWithTimestamp_def getConnection_def useless_def)
qed

text \<open>The first packet of a connection that starts with a SYN.\<close>

lemma Assemble_syn:
  assumes "asm_ok a" and "conns a (netFlow, f) = None" and "TCP_TransportFlow t = Some f" and "packet_bounds t"
    and "SYN t" and "New ops netFlow f (world a) = Some (s, w)"
  shows "\<exists>conn' a'. AssembleWithTimestamp ops netFlow t ts a = hand_over ops (netFlow, f) conn'
      [\<lparr>Bytes = vis (t_Payload t), Skip = 0, Start = True, End = False, Seen = ts\<rparr>] a' \<and>
    stream conn' = s \<and> quiet conn' \<and> ts \<le> lastSeen conn' \<and>
    nextSeq conn' = Seq_Add (int (Seq t)) (int (length (vis (t_Payload t))) + 1) \<and> asm_ok a' \<and> world a' = w \<and>
    (\<forall>l. l \<noteq> (netFlow, f) \<longrightarrow> conns a' l = conns a l)"
proof -
  have "0 < nextAlloc a" using assms(1) by (simp add: asm_ok_def)
  then obtain conn b where b: "newConnection s ts (a\<lparr>world := w\<rparr>) = Some (conn, b)" "stream conn = s" "quiet conn" "nextSeq conn = invalidSequence"
    "conns b = conns a" "world b = w" "cache_ok b = cache_ok a" "0 < nextAlloc b" "MaxBufferedPagesPerConnection b = MaxBufferedPagesPerConnection a"
    by (cases "freeConns a") (auto simp: newConnection_def quiet_def cache_ok_def Let_def gr0_conv_Suc)
  let ?b = "b\<lparr>conns := (conns b)((netFlow, f) \<mapsto> conn)\<rparr>"
  have ok: "asm_ok ?b" using assms(1) b by (auto simp: asm_ok_def cache_ok_def simp del: split_paired_All)
  obtain ret conn' a' where d: "assembleInto ops (netFlow, f) conn t ts ?b = hand_over ops (netFlow, f) conn' ret a'"
    "delivery conn t ts ret conn'" "cache_ok a'" "same_conns ?b a'"
    using assembleInto_delivers [OF _ _ b(3) _ assms(4), of ?b ops "(netFlow, f)" ts] ok b(4) by (auto simp: asm_ok_def simp del: split_paired_All)
  have "asm_ok a'" using ok d(3,4) by (simp add: asm_ok_def same_conns_def del: split_paired_All)
  moreover have "getConnection ops (netFlow, f) (\<not> SYN t \<and> vis (t_Payload t) = []) ts a = Some (Some conn, ?b)"
    using assms(2,5,6) b(1) by (simp add: getConnection_def)
  ultimately show ?thesis using d assms(3,5) b
    by (intro exI [of _ conn'] exI [of _ a']) (auto simp: AssembleWithTimestamp_def delivery_def Let_def same_conns_def)
qed

end
