(* ===== verification/Assembly.thy ===== *)
theory Assembly
  imports Decode TcpDelivery MctextSession Partition
begin

text \<open>
  Pairing the two directions of a connection and feeding them to a consumer: \<^verbatim>\<open>assembly/streamfactory.go\<close> and \<^verbatim>\<open>assembly/worker.go\<close>.
  Consumers are objects shared by two streams and by the map of half-open connections, so they live in a heap and are referred
  to by their index.  With every consumer the heap keeps the connection key that \<open>createConsumer\<close> was called with; the code does
  not read it.  Readers that a consumer releases go back to the buffer pool.  Times are nanoseconds since Go's zero time.
\<close>

section \<open>Connection keys\<close>

type_synonym connectionKey = "Flow \<times> Flow"

definition ck_Reverse :: "connectionKey \<Rightarrow> connectionKey" where
  "ck_Reverse c = (Flow_Reverse (fst c), Flow_Reverse (snd c))"

text \<open>The endpoint's first two bytes in big-endian order; a flow of another type panics, as does an endpoint that is too short.\<close>

definition srcPort :: "Flow \<Rightarrow> int option" where
  "srcPort transportFlow =
     (if ftyp transportFlow \<noteq> EndpointTCPPort then None
      else do { raw \<leftarrow> Endpoint_Raw (Flow_Src transportFlow);
                map_option int (be_at 0 2 (whole raw)) })"

fun isInPortlist :: "int list \<Rightarrow> int \<Rightarrow> bool" where
  "isInPortlist [] port = False"
| "isInPortlist (p # ports) port = (if port = p then True else isInPortlist ports port)"

section \<open>The stream factory\<close>

record streamFactory =
  memcachePorts :: "int list"
  halfOpen :: "connectionKey \<Rightarrow> nat option"
  consumers :: "(connectionKey \<times> McConsumer) list"
  bufferPool :: "Reader list"

datatype side = ClientSide | ServerSide

type_synonym stream_ref = "nat \<times> side"

definition newStreamFactory :: "int list \<Rightarrow> streamFactory" where
  "newStreamFactory ports = \<lparr>memcachePorts = ports, halfOpen = Map.empty, consumers = [], bufferPool = []\<rparr>"

definition IsFromServer :: "streamFactory \<Rightarrow> Flow \<Rightarrow> bool option" where
  "IsFromServer sf transportFlow = do { port \<leftarrow> srcPort transportFlow; Some (isInPortlist (memcachePorts sf) port) }"

definition createConsumer :: "connectionKey \<Rightarrow> streamFactory \<Rightarrow> nat \<times> streamFactory" where
  "createConsumer ck sf =
     (let (c, pool) = NewConsumer (bufferPool sf) in
      (length (consumers sf), sf\<lparr>consumers := consumers sf @ [(ck, c)], bufferPool := pool\<rparr>))"

definition streamFactory_New :: "Flow \<Rightarrow> Flow \<Rightarrow> streamFactory \<Rightarrow> (stream_ref \<times> streamFactory) option" where
  "streamFactory_New netFlow transportFlow sf =
     do { let ck = (netFlow, transportFlow);
          fromServer \<leftarrow> IsFromServer sf transportFlow;
          let ck = (if \<not> fromServer then ck_Reverse ck else ck);
          let (c, sf) = (case halfOpen sf ck of
              Some c \<Rightarrow> (c, sf\<lparr>halfOpen := (halfOpen sf)(ck := None)\<rparr>)
            | None \<Rightarrow> let (c, sf) = createConsumer ck sf in (c, sf\<lparr>halfOpen := (halfOpen sf)(ck \<mapsto> c)\<rparr>));
          Some ((c, if fromServer then ServerSide else ClientSide), sf) }"

text \<open>A call of a stream changes the consumer that it is a view of.\<close>

definition on_consumer :: "nat \<Rightarrow> StreamCall \<Rightarrow> streamFactory \<Rightarrow> streamFactory option" where
  "on_consumer i x sf =
     (if i < length (consumers sf)
      then do { let (ck, c) = consumers sf ! i;
                c' \<leftarrow> stream_call c x;
                Some (sf\<lparr>consumers := (consumers sf)[i := (ck, c')],
                         bufferPool := bufferPool sf @ drop (length (released c)) (released c')\<rparr>) }
      else None)"

fun stream_Reassembled :: "stream_ref \<Rightarrow> Reassembly list \<Rightarrow> streamFactory \<Rightarrow> streamFactory option" where
  "stream_Reassembled (i, ClientSide) rs sf = on_consumer i (ClientReassembled rs) sf"
| "stream_Reassembled (i, ServerSide) rs sf = on_consumer i (ServerReassembled rs) sf"

fun stream_ReassemblyComplete :: "stream_ref \<Rightarrow> streamFactory \<Rightarrow> streamFactory option" where
  "stream_ReassemblyComplete (i, ClientSide) sf = on_consumer i ClientComplete sf"
| "stream_ReassemblyComplete (i, ServerSide) sf = on_consumer i ServerComplete sf"

definition factory_ops :: "(stream_ref, streamFactory) stream_ops" where
  "factory_ops = \<lparr>New = streamFactory_New, Reassembled = stream_Reassembled, ReassemblyComplete = stream_ReassemblyComplete\<rparr>"

section \<open>A worker\<close>

type_synonym assembler = "(stream_ref, streamFactory) Assembler"

record worker_state =
  assembler :: assembler
  mostRecent :: int

definition newWorker :: "int list \<Rightarrow> worker_state" where
  "newWorker ports =
     \<lparr>assembler = (NewAssembler (newStreamFactory ports))\<lparr>MaxBufferedPagesPerConnection := 1, MaxBufferedPagesTotal := 1\<rparr>, mostRecent = 0\<rparr>"

text \<open>The loop over the packets of a work item.\<close>

fun assemble_all :: "DecodedPacket list \<Rightarrow> worker_state \<Rightarrow> worker_state option" where
  "assemble_all [] w = Some w"
| "assemble_all (dp # dps) w =
     do { let w = w\<lparr>mostRecent := Timestamp (dp_Info dp)\<rparr>;
          a \<leftarrow> AssembleWithTimestamp factory_ops (NetFlow dp) (tcp (dp_layers dp)) (mostRecent w) (assembler w);
          assemble_all dps (w\<lparr>assembler := a\<rparr>) }"

definition minute :: int where
  "minute = 60000000000"

text \<open>A tick; \<open>keys\<close> is the order in which Go iterates over the connections.\<close>

definition worker_tick :: "key list \<Rightarrow> worker_state \<Rightarrow> worker_state option" where
  "worker_tick keys w =
     do { (f, c, a) \<leftarrow> FlushOlderThan factory_ops keys (mostRecent w - minute) (assembler w);
          Some (w\<lparr>assembler := a\<rparr>) }"

text \<open>What makes the loop of a worker go round.\<close>

datatype event = Tick "key list" | Work "DecodedPacket list"

fun loop_body :: "event \<Rightarrow> worker_state \<Rightarrow> worker_state option" where
  "loop_body (Tick keys) w = worker_tick keys w"
| "loop_body (Work dps) w = assemble_all dps w"

fun worker_loop :: "event list \<Rightarrow> worker_state \<Rightarrow> worker_state option" where
  "worker_loop [] w = Some w"
| "worker_loop (e # es) w = do { w \<leftarrow> loop_body e w; worker_loop es w }"

section \<open>The factory keeps the assembler's contract\<close>

definition from_server :: "int list \<Rightarrow> key \<Rightarrow> bool" where
  "from_server ports k \<longleftrightarrow> isInPortlist ports (the (srcPort (snd k)))"

text \<open>The key under which a connection is half-open: the direction from server to client.\<close>

definition conversation_of :: "int list \<Rightarrow> key \<Rightarrow> connectionKey" where
  "conversation_of ports k = (if from_server ports k then k else ck_Reverse k)"

definition side_of :: "int list \<Rightarrow> key \<Rightarrow> side" where
  "side_of ports k = (if from_server ports k then ServerSide else ClientSide)"

definition key_ok :: "key \<Rightarrow> bool" where
  "key_ok k \<longleftrightarrow> srcPort (snd k) \<noteq> None"

definition factory_ok :: "int list \<Rightarrow> streamFactory \<Rightarrow> bool" where
  "factory_ok ports sf \<longleftrightarrow> memcachePorts sf = ports \<and> (\<forall>(ck, c)\<in>set (consumers sf). mc_safe c) \<and> (\<forall>r\<in>set (bufferPool sf). r = Reader_New) \<and>
     (\<forall>ck i. halfOpen sf ck = Some i \<longrightarrow> i < length (consumers sf) \<and> fst (consumers sf ! i) = ck)"

definition owns :: "int list \<Rightarrow> streamFactory \<Rightarrow> key \<Rightarrow> stream_ref \<Rightarrow> bool" where
  "owns ports sf k s \<longleftrightarrow> fst s < length (consumers sf) \<and> fst (consumers sf ! fst s) = conversation_of ports k \<and> snd s = side_of ports k"

text \<open>What belongs to a conversation: its half-open entry and its consumers.\<close>

definition consumer_of :: "streamFactory \<Rightarrow> connectionKey \<Rightarrow> nat \<Rightarrow> McConsumer option" where
  "consumer_of sf ck i = (if i < length (consumers sf) \<and> fst (consumers sf ! i) = ck then Some (snd (consumers sf ! i)) else None)"

definition conv_view :: "streamFactory \<Rightarrow> connectionKey \<Rightarrow> nat option \<times> (nat \<Rightarrow> McConsumer option)" where
  "conv_view sf ck = (halfOpen sf ck, consumer_of sf ck)"

declare split_paired_All [simp del]

lemma on_consumer_ok:
  assumes "factory_ok ports sf" and "owns ports sf k (i, s)" and "call_ok x"
  shows "\<exists>sf'. on_consumer i x sf = Some sf' \<and> factory_ok ports sf' \<and> extends (owns ports) conv_view (conversation_of ports k) sf sf'"
proof -
  obtain ck c where c: "consumers sf ! i = (ck, c)" by fastforce
  have i: "i < length (consumers sf)" "ck = conversation_of ports k" using assms(2) c by (auto simp: owns_def)
  have "mc_safe c" using assms(1) c i nth_mem [OF i(1)] by (auto simp: factory_ok_def)
  then obtain c' where c': "stream_call c x = Some c'" "mc_safe c'" using stream_call_safe assms(3) by blast
  let ?sf = "sf\<lparr>consumers := (consumers sf)[i := (ck, c')], bufferPool := bufferPool sf @ drop (length (released c)) (released c')\<rparr>"
  have "fst ((consumers sf)[i := (ck, c')] ! j) = fst (consumers sf ! j)" for j
    using c i by (cases "j = i") auto
  moreover have "\<forall>r\<in>set (released c'). r = Reader_New" using c'(2) by (simp add: mc_safe_def base_safe_def)
  ultimately have "factory_ok ports ?sf"
    using assms(1) c'(2) by (auto simp: factory_ok_def dest!: set_update_subset_insert [THEN subsetD] in_set_dropD)
  moreover have "extends (owns ports) conv_view (conversation_of ports k) sf ?sf"
    using c i by (auto simp: extends_def owns_def conv_view_def consumer_of_def nth_list_update fun_eq_iff)
  ultimately show ?thesis using c c' i by (simp add: on_consumer_def)
qed

lemma streamFactory_New_ok:
  assumes "factory_ok ports sf" and "key_ok k"
  shows "\<exists>s sf'. streamFactory_New (fst k) (snd k) sf = Some (s, sf') \<and> factory_ok ports sf' \<and> owns ports sf' k s \<and>
    extends (owns ports) conv_view (conversation_of ports k) sf sf'"
proof -
  obtain port where port: "srcPort (snd k) = Some port" using assms(2) by (auto simp: key_ok_def)
  let ?ck = "conversation_of ports k"
  have srv: "IsFromServer sf (snd k) = Some (from_server ports k)"
    using port assms(1) by (simp add: IsFromServer_def from_server_def factory_ok_def)
  have ck: "(if \<not> from_server ports k then ck_Reverse (fst k, snd k) else (fst k, snd k)) = ?ck"
    by (simp add: conversation_of_def)
  show ?thesis
  proof (cases "halfOpen sf ?ck")
    case (Some c)
    with assms(1) have "factory_ok ports (sf\<lparr>halfOpen := (halfOpen sf)(?ck := None)\<rparr>)" "c < length (consumers sf)"
      "fst (consumers sf ! c) = ?ck"
      by (auto simp: factory_ok_def)
    with Some srv ck show ?thesis
      by (auto simp: streamFactory_New_def Let_def owns_def side_of_def extends_def conv_view_def consumer_of_def fun_eq_iff)
  next
    case None
    let ?new = "NewConsumer (bufferPool sf)"
    have "mc_safe (fst ?new) \<and> (\<forall>r\<in>set (snd ?new). r = Reader_New)"
      using assms(1) by (intro NewConsumer_safe) (simp add: factory_ok_def)
    then have "factory_ok ports (sf\<lparr>consumers := consumers sf @ [(?ck, fst ?new)], bufferPool := snd ?new,
        halfOpen := (halfOpen sf)(?ck \<mapsto> length (consumers sf))\<rparr>)"
      using assms(1) by (auto simp: factory_ok_def nth_append less_Suc_eq)
    with None srv ck show ?thesis
      by (auto simp: streamFactory_New_def createConsumer_def Let_def split_beta owns_def side_of_def extends_def conv_view_def
          consumer_of_def nth_append fun_eq_iff less_Suc_eq split: if_splits)
  qed
qed

interpretation factory: stream_provider factory_ops "factory_ok ports" key_ok "owns ports" "conversation_of ports" conv_view for ports
proof
  fix w k assume "factory_ok ports w" "key_ok k"
  then show "\<exists>s w'. New factory_ops (fst k) (snd k) w = Some (s, w') \<and> factory_ok ports w' \<and> owns ports w' k s \<and>
      extends (owns ports) conv_view (conversation_of ports k) w w'"
    using streamFactory_New_ok by (simp add: factory_ops_def)
next
  fix w k s rs assume "factory_ok ports w" "owns ports w k s" "\<forall>r\<in>set rs. reassembly_ok r"
  then show "\<exists>w'. Reassembled factory_ops s rs w = Some w' \<and> factory_ok ports w' \<and>
      extends (owns ports) conv_view (conversation_of ports k) w w'"
    using on_consumer_ok [of ports w k] by (cases s rule: prod.exhaust, cases "snd s") (auto simp: factory_ops_def)
next
  fix w k s assume "factory_ok ports w" "owns ports w k s"
  then show "\<exists>w'. ReassemblyComplete factory_ops s w = Some w' \<and> factory_ok ports w' \<and>
      extends (owns ports) conv_view (conversation_of ports k) w w'"
    using on_consumer_ok [of ports w k] by (cases s rule: prod.exhaust, cases "snd s") (auto simp: factory_ops_def)
qed

end
