(* ===== verification/AssemblySession.thy ===== *)
theory AssemblySession
  imports Assembly
begin

text \<open>
  What a worker makes of one conversation, whatever other packets it handles in between: the life of a connection as a machine of its
  own (\<open>conv_step\<close>), the proof that the worker refines it, and the conversations of memcached sessions.
\<close>

section \<open>The invariant of a worker\<close>

definition worker_ok :: "int list \<Rightarrow> worker_state \<Rightarrow> bool" where
  "worker_ok ports w \<longleftrightarrow> asm_inv (factory_ok ports) (owns ports) (assembler w)"

definition packet_ready :: "DecodedPacket \<Rightarrow> bool" where
  "packet_ready dp \<longleftrightarrow> dp_ok dp \<and> int (length (vis (t_Payload (tcp (dp_layers dp))))) < maxcap"

abbreviation tcp_of_dp :: "DecodedPacket \<Rightarrow> TCP" where
  "tcp_of_dp dp \<equiv> tcp (dp_layers dp)"

definition pkt_key :: "DecodedPacket \<Rightarrow> key" where
  "pkt_key dp = (NetFlow dp, the (TCP_TransportFlow (tcp_of_dp dp)))"

lemma worker_ok_new: "worker_ok ports (newWorker ports)"
  by (simp add: worker_ok_def newWorker_def asm_inv_def asm_ok_def cache_ok_def NewAssembler_def initialAllocSize_def zeroPage_def maxcap_def
      factory_ok_def newStreamFactory_def)

lemma srcPort_NewFlow:
  assumes "NewFlow EndpointTCPPort s d = Some f" and "length s = 2"
  shows "srcPort f = Some (int (be s))"
proof -
  have "f = \<lparr>ftyp = EndpointTCPPort, slen = 2, dlen = int (length d), fsrc = s @ replicate 14 (CHR 0x00), fdst = raw_array d\<rparr>"
    using assms by (auto simp: NewFlow_def raw_array_def MaxEndpointSize_def split: if_splits)
  then show ?thesis using assms(2)
    by (simp add: srcPort_def Endpoint_Raw_def Flow_Src_def Flow_Endpoints_def slice_to_def be_at_def Layers.cut_def whole_def)
qed

lemma packet_ready_flow:
  assumes "packet_ready dp"
  shows "TCP_TransportFlow (tcp_of_dp dp) = Some (snd (pkt_key dp))" and "packet_bounds (tcp_of_dp dp)"
    and "\<not> useless (tcp_of_dp dp) \<Longrightarrow> key_ok (pkt_key dp)"
proof -
  let ?t = "tcp_of_dp dp"
  have ok: "layers_ok (dp_layers dp)" "ports_ok ?t" using assms by (auto simp: packet_ready_def dp_ok_def layers_ok_def)
  then show f: "TCP_TransportFlow ?t = Some (snd (pkt_key dp))" using layers_ok_flows(3) by (fastforce simp: pkt_key_def)
  show "packet_bounds ?t" using assms ok(2) by (auto simp: packet_bounds_def packet_ready_def ports_ok_def uint32Max_def)
  assume "\<not> useless ?t"
  with ok(2) have "length (sPort ?t) = 2" "length (dPort ?t) = 2" by (auto simp: useless_def ports_ok_def)
  with f show "key_ok (pkt_key dp)" using srcPort_NewFlow by (auto simp: key_ok_def TCP_TransportFlow_def)
qed

text \<open>The state that belongs to one conversation.\<close>

definition conv_local :: "connectionKey \<Rightarrow> assembler \<Rightarrow>
    stream_ref connection option \<times> stream_ref connection option \<times> nat option \<times> (nat \<Rightarrow> McConsumer option)" where
  "conv_local ck a = (conns a ck, conns a (ck_Reverse ck), conv_view (world a) ck)"

lemma ck_Reverse_Reverse [simp]: "ck_Reverse (ck_Reverse k) = k"
  by (simp add: ck_Reverse_def)

lemma Assemble_ready:
  assumes "asm_inv (factory_ok ports) (owns ports) a" and "packet_ready dp"
  shows "\<exists>a'. AssembleWithTimestamp factory_ops (NetFlow dp) (tcp_of_dp dp) ts a = Some a' \<and> asm_inv (factory_ok ports) (owns ports) a' \<and>
    (\<forall>l. l \<noteq> pkt_key dp \<longrightarrow> conns a' l = conns a l) \<and>
    extends (owns ports) conv_view (conversation_of ports (pkt_key dp)) (world a) (world a')"
proof (cases "useless (tcp_of_dp dp)")
  case True
  with assms(1) show ?thesis by (simp add: Assemble_useless)
next
  case False
  have k: "(NetFlow dp, snd (pkt_key dp)) = pkt_key dp" by (simp add: pkt_key_def)
  from factory.Assemble_ok [OF assms(1) packet_ready_flow(1) [OF assms(2)], of "NetFlow dp" ts] packet_ready_flow(2,3) [OF assms(2)] False
  show ?thesis unfolding k by simp
qed

text \<open>Packets of other conversations have no effect on a conversation.\<close>

lemma Assemble_frame:
  assumes "asm_inv (factory_ok ports) (owns ports) a" and "packet_ready dp"
    and "AssembleWithTimestamp factory_ops (NetFlow dp) (tcp_of_dp dp) ts a = Some a'"
    and "conversation_of ports ck = ck" and "conversation_of ports (ck_Reverse ck) = ck" and "conversation_of ports (pkt_key dp) \<noteq> ck"
  shows "conv_local ck a' = conv_local ck a"
proof -
  have "pkt_key dp \<noteq> ck" "pkt_key dp \<noteq> ck_Reverse ck" using assms(4-6) by auto
  with Assemble_ready [OF assms(1,2), of ts] assms(3,6) show ?thesis by (auto simp: conv_local_def extends_def)
qed

section \<open>The loop never fails\<close>

lemma assemble_all_ok:
  "\<lbrakk> worker_ok ports w; \<forall>dp\<in>set dps. packet_ready dp \<rbrakk> \<Longrightarrow> \<exists>w'. assemble_all dps w = Some w' \<and> worker_ok ports w'"
proof (induction dps arbitrary: w)
  case (Cons dp dps)
  let ?w = "w\<lparr>mostRecent := Timestamp (dp_Info dp)\<rparr>"
  obtain a where a: "AssembleWithTimestamp factory_ops (NetFlow dp) (tcp_of_dp dp) (mostRecent ?w) (assembler w) = Some a"
    "asm_inv (factory_ok ports) (owns ports) a"
    using Assemble_ready [of ports "assembler w" dp "mostRecent ?w"] Cons.prems by (auto simp: worker_ok_def)
  with Cons.IH [of "?w\<lparr>assembler := a\<rparr>"] Cons.prems show ?case by (simp add: worker_ok_def)
qed simp

lemma worker_tick_ok:
  assumes "worker_ok ports w"
  shows "\<exists>w'. worker_tick keys w = Some w' \<and> worker_ok ports w' \<and> mostRecent w' = mostRecent w \<and>
    (\<forall>l. conns (assembler w') l = (if l \<in> set keys \<and> stale (mostRecent w - minute) (assembler w) l then None else conns (assembler w) l)) \<and>
    (\<forall>c. (\<forall>k. conversation_of ports k = c \<longrightarrow> \<not> stale (mostRecent w - minute) (assembler w) k) \<longrightarrow>
       conv_view (world (assembler w')) c = conv_view (world (assembler w)) c)"
  using factory.flush_all_ok [OF assms [unfolded worker_ok_def], of "mostRecent w - minute" keys 0 0]
  by (auto simp: worker_tick_def FlushOlderThan_def worker_ok_def)

fun event_ready :: "event \<Rightarrow> bool" where
  "event_ready (Tick keys) = True"
| "event_ready (Work dps) = (\<forall>dp\<in>set dps. packet_ready dp)"

lemma worker_loop_ok:
  "\<lbrakk> worker_ok ports w; \<forall>e\<in>set es. event_ready e \<rbrakk> \<Longrightarrow> \<exists>w'. worker_loop es w = Some w' \<and> worker_ok ports w'"
proof (induction es arbitrary: w)
  case (Cons e es)
  have "\<exists>w1. loop_body e w = Some w1 \<and> worker_ok ports w1"
    using Cons.prems assemble_all_ok worker_tick_ok by (cases e) fastforce+
  with Cons show ?case by fastforce
qed simp

lemma conversation_of_eq: "conversation_of ports k = conversation_of ports l \<Longrightarrow> l = k \<or> l = ck_Reverse k \<and> side_of ports k \<noteq> side_of ports l"
  by (auto simp: conversation_of_def side_of_def split: if_splits dest: arg_cong [of _ _ ck_Reverse])

section \<open>The life of a conversation\<close>

fun call_of :: "side \<Rightarrow> Reassembly list \<Rightarrow> StreamCall" where
  "call_of ClientSide rs = ClientReassembled rs"
| "call_of ServerSide rs = ServerReassembled rs"

fun complete_of :: "side \<Rightarrow> StreamCall" where
  "complete_of ClientSide = ClientComplete"
| "complete_of ServerSide = ServerComplete"

text \<open>
  The states of a connection that is opened by a SYN of the client and one of the server and closed by the client first, with the consumer and the next
  sequence numbers of client and server.
\<close>

datatype conv_state =
    Fresh
  | Half McConsumer int
  | Open McConsumer int int
  | HalfClosed McConsumer int
  | Closed McConsumer

text \<open>One packet in sequence: what it carries reaches the consumer; a FIN or RST completes the direction.\<close>

definition feed_packet :: "side \<Rightarrow> TCP \<Rightarrow> McConsumer \<Rightarrow> McConsumer option" where
  "feed_packet s t c =
     do { c \<leftarrow> stream_call c (call_of s [MctextSession.segment (vis (t_Payload t))]);
          if RST t \<or> FIN t then stream_call c (complete_of s) else Some c }"

definition after :: "TCP \<Rightarrow> int" where
  "after t = Seq_Add (int (Seq t)) (int (length (vis (t_Payload t))))"

definition after_syn :: "TCP \<Rightarrow> int" where
  "after_syn t = Seq_Add (int (Seq t)) (int (length (vis (t_Payload t))) + 1)"

definition greet :: "side \<Rightarrow> TCP \<Rightarrow> McConsumer \<Rightarrow> McConsumer option" where
  "greet s t c = stream_call c (call_of s [MctextSession.segment (vis (t_Payload t))])"

fun conv_step :: "side \<Rightarrow> TCP \<Rightarrow> conv_state \<Rightarrow> conv_state option" where
  "conv_step s t Fresh =
     (if s = ClientSide \<and> SYN t then map_option (\<lambda>c. Half c (after_syn t)) (greet s t (fst (NewConsumer []))) else None)"
| "conv_step s t (Half c cs) =
     (if s = ServerSide \<and> SYN t then map_option (\<lambda>c. Open c cs (after_syn t)) (greet s t c) else None)"
| "conv_step s t (Open c cs ss) =
     (if s = ServerSide then if int (Seq t) = ss \<and> \<not> (RST t \<or> FIN t) then map_option (\<lambda>c. Open c cs (after t)) (feed_packet s t c) else None
      else if int (Seq t) = cs
      then map_option (\<lambda>c. if RST t \<or> FIN t then HalfClosed c ss else Open c (after t) ss) (feed_packet s t c) else None)"
| "conv_step s t (HalfClosed c ss) =
     (if s = ServerSide \<and> int (Seq t) = ss
      then map_option (\<lambda>c. if RST t \<or> FIN t then Closed c else HalfClosed c (after t)) (feed_packet s t c) else None)"
| "conv_step s t (Closed c) = None"

text \<open>Packets without payload and flags are not looked at.\<close>

fun conv_steps :: "(side \<times> TCP) list \<Rightarrow> conv_state \<Rightarrow> conv_state option" where
  "conv_steps [] st = Some st"
| "conv_steps ((s, t) # ps) st = (if useless t then conv_steps ps st else do { st \<leftarrow> conv_step s t st; conv_steps ps st })"

section \<open>The worker refines it\<close>

definition live :: "int \<Rightarrow> nat \<times> side \<Rightarrow> int \<Rightarrow> stream_ref connection option \<Rightarrow> bool" where
  "live t0 ref expected conn \<longleftrightarrow> (\<exists>c. conn = Some c \<and> stream c = ref \<and> nextSeq c = expected \<and> t0 \<le> lastSeen c)"

fun represents :: "int \<Rightarrow> conv_state \<Rightarrow>
    stream_ref connection option \<times> stream_ref connection option \<times> nat option \<times> (nat \<Rightarrow> McConsumer option) \<Rightarrow> bool" where
  "represents t0 Fresh (sc, cc, h, cs) \<longleftrightarrow> sc = None \<and> cc = None \<and> h = None \<and> cs = Map.empty"
| "represents t0 (Half c q) (sc, cc, h, cs) \<longleftrightarrow> (\<exists>i. sc = None \<and> live t0 (i, ClientSide) q cc \<and> h = Some i \<and> cs = [i \<mapsto> c])"
| "represents t0 (Open c q r) (sc, cc, h, cs) \<longleftrightarrow>
     (\<exists>i. live t0 (i, ServerSide) r sc \<and> live t0 (i, ClientSide) q cc \<and> h = None \<and> cs = [i \<mapsto> c])"
| "represents t0 (HalfClosed c r) (sc, cc, h, cs) \<longleftrightarrow> (\<exists>i. live t0 (i, ServerSide) r sc \<and> cc = None \<and> h = None \<and> cs = [i \<mapsto> c])"
| "represents t0 (Closed c) (sc, cc, h, cs) \<longleftrightarrow> (\<exists>i. sc = None \<and> cc = None \<and> h = None \<and> cs = [i \<mapsto> c])"

text \<open>Of what the assembler delivers the consumer looks at the bytes and the gap only.\<close>

lemma Source_Reassembled_cong:
  "\<lbrakk> Bytes r = Bytes r'; Skip r = Skip r' \<rbrakk> \<Longrightarrow> Source_Reassembled s [r] = Source_Reassembled s [r']"
  by (cases s) (simp_all add: Reader_Reassembled_def)

lemma stream_call_segment:
  "Skip r = 0 \<Longrightarrow> stream_call c (call_of s [r]) = stream_call c (call_of s [MctextSession.segment (Bytes r)])"
  using Source_Reassembled_cong [of r "MctextSession.segment (Bytes r)"] by (cases s) (simp_all add: segment_def)

lemma factory_calls:
  "Reassembled factory_ops (i, s) rs sf = on_consumer i (call_of s rs) sf" "ReassemblyComplete factory_ops (i, s) sf = on_consumer i (complete_of s) sf"
  by (cases s; simp add: factory_ops_def)+

lemma on_consumer_view:
  assumes "consumer_of sf ck i = Some c" and "stream_call c x = Some c'"
  shows "\<exists>sf'. on_consumer i x sf = Some sf' \<and> conv_view sf' ck = (halfOpen sf ck, (consumer_of sf ck)(i \<mapsto> c'))"
proof -
  from assms(1) have "i < length (consumers sf)" "consumers sf ! i = (ck, c)"
    by (auto simp: consumer_of_def prod_eq_iff split: if_splits)
  with assms(2) show ?thesis by (auto simp: on_consumer_def conv_view_def consumer_of_def fun_eq_iff nth_list_update)
qed

lemma hand_over_view:
  assumes "consumer_of (world a) ck i = Some c" and "stream conn = (i, s)" and "quiet conn" and "Skip r = 0"
    and "stream_call c (call_of s [MctextSession.segment (Bytes r)]) = Some c1" and "End r \<Longrightarrow> stream_call c1 (complete_of s) = Some c2"
  shows "\<exists>a'. hand_over factory_ops k conn [r] a = Some a' \<and> conns a' = (conns a)(k := if End r then None else Some conn) \<and>
    conv_view (world a') ck = (halfOpen (world a) ck, (consumer_of (world a) ck)(i \<mapsto> if End r then c2 else c1))"
proof -
  obtain sf where sf: "on_consumer i (call_of s [r]) (world a) = Some sf"
    "conv_view sf ck = (halfOpen (world a) ck, (consumer_of (world a) ck)(i \<mapsto> c1))"
    using on_consumer_view [OF assms(1)] assms(4,5) stream_call_segment by metis
  show ?thesis
  proof (cases "End r")
    case True
    have "consumer_of sf ck i = Some c1" using sf(2) by (simp add: conv_view_def)
    from on_consumer_view [OF this assms(6) [OF True]] obtain sf2 where "on_consumer i (complete_of s) sf = Some sf2"
      "conv_view sf2 ck = (halfOpen sf ck, (consumer_of sf ck)(i \<mapsto> c2))" by blast
    with True sf assms(2,3) show ?thesis by (simp add: hand_over_def closeConnection_def quiet_def factory_calls conv_view_def)
  qed (use sf assms(2) in \<open>simp add: hand_over_def factory_calls\<close>)
qed

text \<open>A packet in sequence on an open direction.\<close>

lemma open_packet:
  assumes "asm_ok a" and "packet_ready dp" and "\<not> useless (tcp_of_dp dp)" and "live t0 (i, s) (int (Seq (tcp_of_dp dp))) (conns a (pkt_key dp))"
    and "consumer_of (world a) ck i = Some c" and "feed_packet s (tcp_of_dp dp) c = Some c'" and "t0 \<le> ts"
  shows "\<exists>a' conn'. AssembleWithTimestamp factory_ops (NetFlow dp) (tcp_of_dp dp) ts a = Some a' \<and>
    conns a' = (conns a)(pkt_key dp := conn') \<and>
    (if RST (tcp_of_dp dp) \<or> FIN (tcp_of_dp dp) then conn' = None else live t0 (i, s) (after (tcp_of_dp dp)) conn') \<and>
    conv_view (world a') ck = (halfOpen (world a) ck, (consumer_of (world a) ck)(i \<mapsto> c'))"
proof -
  let ?t = "tcp_of_dp dp" and ?f = "snd (pkt_key dp)"
  have k: "(NetFlow dp, ?f) = pkt_key dp" by (simp add: pkt_key_def)
  obtain conn where conn: "conns a (NetFlow dp, ?f) = Some conn" "stream conn = (i, s)" "nextSeq conn = int (Seq ?t)" "t0 \<le> lastSeen conn"
    using assms(4) unfolding k live_def by blast
  obtain conn' b where b: "AssembleWithTimestamp factory_ops (NetFlow dp) ?t ts a = hand_over factory_ops (NetFlow dp, ?f) conn'
      [\<lparr>Bytes = vis (t_Payload ?t), Skip = 0, Start = False, End = RST ?t \<or> FIN ?t, Seen = ts\<rparr>] b"
    "in_sequence conn ?t ts conn'" "same_conns a b"
    using Assemble_in_sequence [OF assms(1) conn(1) packet_ready_flow(1,2) [OF assms(2)] assms(3) conn(3)] by blast
  obtain c1 where c1: "stream_call c (call_of s [MctextSession.segment (vis (t_Payload ?t))]) = Some c1"
    "if RST ?t \<or> FIN ?t then stream_call c1 (complete_of s) = Some c' else c1 = c'"
    using assms(6) by (auto simp: feed_packet_def Option.bind_eq_Some_conv split: if_splits)
  have "live t0 (i, s) (after ?t) (Some conn')" "stream conn' = (i, s)" "quiet conn'"
    using b(2) conn assms(7) by (auto simp: in_sequence_def live_def after_def)
  moreover obtain a' where "hand_over factory_ops (pkt_key dp) conn'
      [\<lparr>Bytes = vis (t_Payload ?t), Skip = 0, Start = False, End = RST ?t \<or> FIN ?t, Seen = ts\<rparr>] b = Some a'"
    "conns a' = (conns b)(pkt_key dp := if RST ?t \<or> FIN ?t then None else Some conn')"
    "conv_view (world a') ck = (halfOpen (world b) ck, (consumer_of (world b) ck)(i \<mapsto> if RST ?t \<or> FIN ?t then c' else c1))"
    using hand_over_view [of b ck i c conn' s "\<lparr>Bytes = vis (t_Payload ?t), Skip = 0, Start = False, End = RST ?t \<or> FIN ?t, Seen = ts\<rparr>"
        c1 c' "pkt_key dp"] calculation(2,3) b(3) c1 assms(5) by (auto simp: same_conns_def)
  ultimately show ?thesis using b(1,3) c1(2) k by (auto simp: same_conns_def)
qed

text \<open>The first packet of a direction, when \<open>New\<close> gives it the consumer \<open>i\<close>.\<close>

lemma syn_packet:
  assumes "asm_ok a" and "packet_ready dp" and "SYN (tcp_of_dp dp)" and "conns a (pkt_key dp) = None"
    and "New factory_ops (fst (pkt_key dp)) (snd (pkt_key dp)) (world a) = Some ((i, s), sf)"
    and "consumer_of sf ck i = Some c" and "greet s (tcp_of_dp dp) c = Some c'" and "t0 \<le> ts"
  shows "\<exists>a' conn'. AssembleWithTimestamp factory_ops (NetFlow dp) (tcp_of_dp dp) ts a = Some a' \<and>
    (\<forall>l. l \<noteq> pkt_key dp \<longrightarrow> conns a' l = conns a l) \<and> live t0 (i, s) (after_syn (tcp_of_dp dp)) (conns a' (pkt_key dp)) \<and>
    conv_view (world a') ck = (halfOpen sf ck, (consumer_of sf ck)(i \<mapsto> c'))"
proof -
  let ?t = "tcp_of_dp dp" and ?f = "snd (pkt_key dp)"
  have k: "(NetFlow dp, ?f) = pkt_key dp" "fst (pkt_key dp) = NetFlow dp" by (simp_all add: pkt_key_def)
  obtain conn' b where b: "AssembleWithTimestamp factory_ops (NetFlow dp) ?t ts a = hand_over factory_ops (NetFlow dp, ?f) conn'
      [\<lparr>Bytes = vis (t_Payload ?t), Skip = 0, Start = True, End = False, Seen = ts\<rparr>] b"
    "stream conn' = (i, s)" "quiet conn'" "ts \<le> lastSeen conn'" "nextSeq conn' = after_syn ?t" "world b = sf"
    "\<forall>l. l \<noteq> (NetFlow dp, ?f) \<longrightarrow> conns b l = conns a l"
    using Assemble_syn [OF assms(1) _ packet_ready_flow(1,2) [OF assms(2)] assms(3), of "NetFlow dp" factory_ops "(i, s)" sf ts] assms(4,5)
    unfolding k after_syn_def by auto
  obtain a' where "hand_over factory_ops (pkt_key dp) conn' [\<lparr>Bytes = vis (t_Payload ?t), Skip = 0, Start = True, End = False, Seen = ts\<rparr>] b = Some a'"
    "conns a' = (conns b)(pkt_key dp := Some conn')" "conv_view (world a') ck = (halfOpen sf ck, (consumer_of sf ck)(i \<mapsto> c'))"
    using hand_over_view [OF _ b(2,3), of b ck c "\<lparr>Bytes = vis (t_Payload ?t), Skip = 0, Start = True, End = False, Seen = ts\<rparr>" c' c' "pkt_key dp"]
      b(6) assms(6,7) by (auto simp: greet_def)
  with b assms(8) k show ?thesis by (auto simp: live_def)
qed

lemma NewConsumer_pool: "\<forall>r\<in>set pool. r = Reader_New \<Longrightarrow> fst (NewConsumer pool) = fst (NewConsumer [])"
  by (cases pool rule: bufferPool_Get.cases; cases "tl pool" rule: bufferPool_Get.cases)
    (simp_all add: NewConsumer_def Consumer_New_def Let_def)

lemma New_first:
  assumes "factory_ok ports sf" and "key_ok k" and "conversation_of ports k = ck" and "halfOpen sf ck = None"
  shows "\<exists>i sf'. New factory_ops (fst k) (snd k) sf = Some ((i, side_of ports k), sf') \<and> halfOpen sf' ck = Some i \<and>
    consumer_of sf' ck = (consumer_of sf ck)(i \<mapsto> fst (NewConsumer []))"
proof -
  have "IsFromServer sf (snd k) = Some (from_server ports k)"
    using assms(1,2) by (auto simp: IsFromServer_def from_server_def factory_ok_def key_ok_def)
  moreover have "(if \<not> from_server ports k then ck_Reverse (fst k, snd k) else (fst k, snd k)) = ck"
    using assms(3) by (auto simp: conversation_of_def split: if_splits)
  moreover have "fst (NewConsumer (bufferPool sf)) = fst (NewConsumer [])"
    using assms(1) by (intro NewConsumer_pool) (simp add: factory_ok_def)
  ultimately show ?thesis using assms(4)
    by (auto simp: factory_ops_def streamFactory_New_def createConsumer_def Let_def split_beta side_of_def consumer_of_def fun_eq_iff nth_append less_Suc_eq split: if_splits)
qed

lemma New_second:
  assumes "factory_ok ports sf" and "key_ok k" and "conversation_of ports k = ck" and "halfOpen sf ck = Some i"
  shows "\<exists>sf'. New factory_ops (fst k) (snd k) sf = Some ((i, side_of ports k), sf') \<and> halfOpen sf' ck = None \<and>
    consumer_of sf' ck = consumer_of sf ck"
proof -
  have "IsFromServer sf (snd k) = Some (from_server ports k)"
    using assms(1,2) by (auto simp: IsFromServer_def from_server_def factory_ok_def key_ok_def)
  moreover have "(if \<not> from_server ports k then ck_Reverse (fst k, snd k) else (fst k, snd k)) = ck"
    using assms(3) by (auto simp: conversation_of_def split: if_splits)
  ultimately show ?thesis using assms(4)
    by (auto simp: factory_ops_def streamFactory_New_def Let_def side_of_def consumer_of_def fun_eq_iff)
qed

text \<open>The keys of a conversation of which exactly the server's port is a memcached port.\<close>

definition conv_key :: "int list \<Rightarrow> connectionKey \<Rightarrow> bool" where
  "conv_key ports ck \<longleftrightarrow> from_server ports ck \<and> \<not> from_server ports (ck_Reverse ck)"

lemma conv_key_of: "conv_key ports ck \<Longrightarrow> conversation_of ports ck = ck \<and> conversation_of ports (ck_Reverse ck) = ck"
  by (simp add: conv_key_def conversation_of_def)

lemma conv_key_side:
  assumes "conv_key ports ck" and "conversation_of ports k = ck"
  shows "(side_of ports k = ServerSide \<and> k = ck) \<or> (side_of ports k = ClientSide \<and> k = ck_Reverse ck)" and "ck_Reverse ck \<noteq> ck"
  using assms by (auto simp: conv_key_def conversation_of_def side_of_def split: if_splits)

lemma open_refines:
  assumes a: "asm_ok a" and dp: "packet_ready dp" "\<not> useless (tcp_of_dp dp)"
    and ck: "conv_key ports ck" "conversation_of ports (pkt_key dp) = ck" and rep: "represents t0 (Open c cs ss) (conv_local ck a)"
    and step: "conv_step (side_of ports (pkt_key dp)) (tcp_of_dp dp) (Open c cs ss) = Some st'" and ts: "t0 \<le> ts"
  shows "\<exists>a'. AssembleWithTimestamp factory_ops (NetFlow dp) (tcp_of_dp dp) ts a = Some a' \<and> represents t0 st' (conv_local ck a')"
proof -
  let ?t = "tcp_of_dp dp"
  note side = conv_key_side(1) [OF ck] and ne = conv_key_side(2) [OF ck]
  note opened = open_packet [OF a dp _ _ _ ts, where ck = ck]
  obtain i where i: "live t0 (i, ServerSide) ss (conns a ck)" "live t0 (i, ClientSide) cs (conns a (ck_Reverse ck))" "halfOpen (world a) ck = None"
    "consumer_of (world a) ck = [i \<mapsto> c]"
    using rep by (auto simp: conv_local_def conv_view_def)
  show ?thesis
  proof (cases "side_of ports (pkt_key dp)")
    case ServerSide
    with step obtain c' where c: "int (Seq ?t) = ss" "\<not> (RST ?t \<or> FIN ?t)" "feed_packet ServerSide ?t c = Some c'" "st' = Open c' cs (after ?t)"
      by (auto split: if_splits)
    from opened [OF _ _ c(3), of i] i c(1,2,4) side ServerSide ne show ?thesis by (fastforce simp: conv_local_def conv_view_def)
  next
    case ClientSide
    with step obtain c' where c: "int (Seq ?t) = cs" "feed_packet ClientSide ?t c = Some c'"
      "st' = (if RST ?t \<or> FIN ?t then HalfClosed c' ss else Open c' (after ?t) ss)"
      by (auto split: if_splits)
    from opened [OF _ _ c(2), of i] i c(1,3) side ClientSide ne show ?thesis by (fastforce simp: conv_local_def conv_view_def split: if_splits)
  qed
qed

lemma conv_refines:
  assumes inv: "asm_inv (factory_ok ports) (owns ports) a" and dp: "packet_ready dp" "\<not> useless (tcp_of_dp dp)"
    and ck: "conv_key ports ck" "conversation_of ports (pkt_key dp) = ck" and rep: "represents t0 st (conv_local ck a)"
    and step: "conv_step (side_of ports (pkt_key dp)) (tcp_of_dp dp) st = Some st'" and ts: "t0 \<le> ts"
  shows "\<exists>a'. AssembleWithTimestamp factory_ops (NetFlow dp) (tcp_of_dp dp) ts a = Some a' \<and> represents t0 st' (conv_local ck a')"
proof -
  let ?t = "tcp_of_dp dp" and ?k = "pkt_key dp"
  have a: "asm_ok a" "factory_ok ports (world a)" using inv by (auto simp: asm_inv_def)
  note key = packet_ready_flow(3) [OF dp]
  note side = conv_key_side(1) [OF ck] and ne = conv_key_side(2) [OF ck]
  note opened = open_packet [OF a(1) dp _ _ _ ts, where ck = ck]
  note syn = syn_packet [OF a(1) dp(1) _ _ _ _ _ ts, where ck = ck]
  show ?thesis
  proof (cases st)
    case Fresh
    with step obtain c where c: "side_of ports ?k = ClientSide" "SYN ?t" "greet ClientSide ?t (fst (NewConsumer [])) = Some c" "st' = Half c (after_syn ?t)"
      by (auto split: if_splits)
    obtain i sf where sf: "New factory_ops (fst ?k) (snd ?k) (world a) = Some ((i, ClientSide), sf)" "halfOpen sf ck = Some i"
      "consumer_of sf ck = [i \<mapsto> fst (NewConsumer [])]"
      using New_first [OF a(2) key ck(2)] rep Fresh c(1) by (auto simp: conv_local_def conv_view_def)
    from syn [OF c(2) _ sf(1) _ c(3)] rep Fresh side c ne sf(2,3) show ?thesis
      by (fastforce simp: conv_local_def conv_view_def)
  next
    case (Half c cs)
    with step obtain c' where c: "side_of ports ?k = ServerSide" "SYN ?t" "greet ServerSide ?t c = Some c'" "st' = Open c' cs (after_syn ?t)"
      by (auto split: if_splits)
    obtain i where i: "conns a ck = None" "live t0 (i, ClientSide) cs (conns a (ck_Reverse ck))" "halfOpen (world a) ck = Some i"
      "consumer_of (world a) ck = [i \<mapsto> c]"
      using rep Half by (auto simp: conv_local_def conv_view_def)
    obtain sf where sf: "New factory_ops (fst ?k) (snd ?k) (world a) = Some ((i, ServerSide), sf)" "halfOpen sf ck = None"
      "consumer_of sf ck = consumer_of (world a) ck"
      using New_second [OF a(2) key ck(2) i(3)] c(1) by auto
    from syn [OF c(2) _ sf(1) _ c(3)] i side c ne sf(2,3) show ?thesis
      by (fastforce simp: conv_local_def conv_view_def)
  next
    case (Open c cs ss)
    with open_refines [OF a(1) dp ck _ _ ts] rep step show ?thesis by blast
  next
    case (HalfClosed c ss)
    with step obtain c' where c: "side_of ports ?k = ServerSide" "int (Seq ?t) = ss" "feed_packet ServerSide ?t c = Some c'"
      "st' = (if RST ?t \<or> FIN ?t then Closed c' else HalfClosed c' (after ?t))"
      by (auto split: if_splits)
    obtain i where i: "live t0 (i, ServerSide) ss (conns a ck)" "conns a (ck_Reverse ck) = None" "halfOpen (world a) ck = None"
      "consumer_of (world a) ck = [i \<mapsto> c]"
      using rep HalfClosed by (auto simp: conv_local_def conv_view_def)
    from opened [OF _ _ c(3), of i] i c(1,2,4) side ne show ?thesis by (fastforce simp: conv_local_def conv_view_def split: if_splits)
  qed (use step in simp)
qed

section \<open>Whole runs\<close>

fun event_packets :: "event \<Rightarrow> DecodedPacket list" where
  "event_packets (Tick keys) = []"
| "event_packets (Work dps) = dps"

definition run_packets :: "event list \<Rightarrow> DecodedPacket list" where
  "run_packets es = concat (map event_packets es)"

text \<open>The packets of one conversation, with the side that sent them.\<close>

definition conv_trace :: "int list \<Rightarrow> connectionKey \<Rightarrow> DecodedPacket list \<Rightarrow> (side \<times> TCP) list" where
  "conv_trace ports ck dps =
     map (\<lambda>dp. (side_of ports (pkt_key dp), tcp_of_dp dp)) (filter (\<lambda>dp. conversation_of ports (pkt_key dp) = ck) dps)"

text \<open>Within a minute no connection becomes stale.\<close>

definition within_minute :: "int \<Rightarrow> DecodedPacket \<Rightarrow> bool" where
  "within_minute t0 dp \<longleftrightarrow> t0 \<le> Timestamp (dp_Info dp) \<and> Timestamp (dp_Info dp) \<le> t0 + minute"

lemma conv_steps_append: "conv_steps (ps @ qs) st = conv_steps ps st \<bind> conv_steps qs"
  by (induction ps st rule: conv_steps.induct) (auto split: Option.bind_splits)

lemma assemble_all_refines:
  "\<lbrakk> worker_ok ports w; \<forall>dp\<in>set dps. packet_ready dp \<and> within_minute t0 dp; conv_key ports ck; represents t0 st (conv_local ck (assembler w));
     conv_steps (conv_trace ports ck dps) st = Some st'; mostRecent w \<le> t0 + minute \<rbrakk>
   \<Longrightarrow> \<exists>w'. assemble_all dps w = Some w' \<and> worker_ok ports w' \<and> represents t0 st' (conv_local ck (assembler w')) \<and> mostRecent w' \<le> t0 + minute"
proof (induction dps arbitrary: w st)
  case (Cons dp dps)
  let ?ts = "Timestamp (dp_Info dp)" and ?t = "tcp_of_dp dp"
  have inv: "asm_inv (factory_ok ports) (owns ports) (assembler w)" and dp: "packet_ready dp" "t0 \<le> ?ts" "?ts \<le> t0 + minute"
    using Cons.prems(1,2) by (auto simp: worker_ok_def within_minute_def)
  obtain a where a: "AssembleWithTimestamp factory_ops (NetFlow dp) ?t ?ts (assembler w) = Some a"
    "asm_inv (factory_ok ports) (owns ports) a"
    using Assemble_ready [OF inv dp(1)] by blast
  have "\<exists>st1. represents t0 st1 (conv_local ck a) \<and> conv_steps (conv_trace ports ck dps) st1 = Some st'"
  proof (cases "conversation_of ports (pkt_key dp) = ck \<and> \<not> useless ?t")
    case True
    then obtain st1 where st1: "conv_step (side_of ports (pkt_key dp)) ?t st = Some st1" "conv_steps (conv_trace ports ck dps) st1 = Some st'"
      using Cons.prems(5) by (auto simp: conv_trace_def Option.bind_eq_Some_conv)
    with conv_refines [OF inv dp(1) _ Cons.prems(3) _ Cons.prems(4) st1(1) dp(2)] True a(1) show ?thesis by auto
  next
    case False
    then have "conv_steps (conv_trace ports ck dps) st = Some st'" using Cons.prems(5) by (auto simp: conv_trace_def split: if_splits)
    moreover have "conv_local ck a = conv_local ck (assembler w)"
      using False Assemble_frame [OF inv dp(1) a(1)] conv_key_of [OF Cons.prems(3)] a(1) by (cases "useless ?t") (auto simp: Assemble_useless)
    ultimately show ?thesis using Cons.prems(4) by auto
  qed
  then obtain st1 where "represents t0 st1 (conv_local ck a)" "conv_steps (conv_trace ports ck dps) st1 = Some st'" by blast
  with Cons.IH [of "w\<lparr>mostRecent := ?ts, assembler := a\<rparr>" st1] Cons.prems(2,3) a dp(3) show ?case
    by (simp add: worker_ok_def)
qed (simp add: conv_trace_def)

lemma tick_keeps:
  assumes "worker_ok ports w" and "conv_key ports ck" and "represents t0 st (conv_local ck (assembler w))" and "mostRecent w \<le> t0 + minute"
  shows "\<exists>w'. worker_tick keys w = Some w' \<and> worker_ok ports w' \<and> represents t0 st (conv_local ck (assembler w')) \<and> mostRecent w' = mostRecent w"
proof -
  have fresh: "\<forall>k. conversation_of ports k = ck \<longrightarrow> \<not> stale (mostRecent w - minute) (assembler w) k"
  proof (intro allI impI)
    fix k assume "conversation_of ports k = ck"
    from conv_key_side(1) [OF assms(2) this] assms(3,4) show "\<not> stale (mostRecent w - minute) (assembler w) k"
      by (cases st) (auto simp: stale_def conv_local_def conv_view_def live_def)
  qed
  obtain w' where w': "worker_tick keys w = Some w'" "worker_ok ports w'" "mostRecent w' = mostRecent w"
    "\<forall>l. conns (assembler w') l = (if l \<in> set keys \<and> stale (mostRecent w - minute) (assembler w) l then None else conns (assembler w) l)"
    "conv_view (world (assembler w')) ck = conv_view (world (assembler w)) ck"
    using worker_tick_ok [OF assms(1), of keys] fresh by blast
  have "conv_local ck (assembler w') = conv_local ck (assembler w)"
    using w'(4,5) fresh conv_key_of [OF assms(2)] by (simp add: conv_local_def)
  with w' assms(3) show ?thesis by auto
qed

lemma worker_refines:
  "\<lbrakk> worker_ok ports w; \<forall>e\<in>set es. event_ready e; \<forall>dp\<in>set (run_packets es). within_minute t0 dp; conv_key ports ck;
     represents t0 st (conv_local ck (assembler w)); conv_steps (conv_trace ports ck (run_packets es)) st = Some st';
     mostRecent w \<le> t0 + minute \<rbrakk>
   \<Longrightarrow> \<exists>w'. worker_loop es w = Some w' \<and> worker_ok ports w' \<and> represents t0 st' (conv_local ck (assembler w'))"
proof (induction es arbitrary: w st)
  case (Cons e es)
  have tr: "conv_trace ports ck (run_packets (e # es)) = conv_trace ports ck (event_packets e) @ conv_trace ports ck (run_packets es)"
    by (simp add: conv_trace_def run_packets_def)
  then obtain st1 where st1: "conv_steps (conv_trace ports ck (event_packets e)) st = Some st1"
    "conv_steps (conv_trace ports ck (run_packets es)) st1 = Some st'"
    using Cons.prems(6) by (auto simp: conv_steps_append Option.bind_eq_Some_conv)
  have "\<exists>w1. loop_body e w = Some w1 \<and> worker_ok ports w1 \<and> represents t0 st1 (conv_local ck (assembler w1)) \<and> mostRecent w1 \<le> t0 + minute"
  proof (cases e)
    case (Tick keys)
    with tick_keeps [OF Cons.prems(1,4,5,7), of keys] st1(1) Cons.prems(7) show ?thesis by (auto simp: conv_trace_def)
  next
    case (Work dps)
    with assemble_all_refines [OF Cons.prems(1) _ Cons.prems(4,5) _ Cons.prems(7), of dps st1] st1(1) Cons.prems(2,3) show ?thesis
      by (auto simp: run_packets_def)
  qed
  with Cons.IH [OF _ _ _ Cons.prems(4) _ st1(2)] Cons.prems(2,3) show ?case by (fastforce simp: run_packets_def)
qed (simp add: conv_trace_def run_packets_def)

lemma represents_new: "represents t0 Fresh (conv_local ck (assembler (newWorker ports)))"
  by (simp add: conv_local_def newWorker_def NewAssembler_def newStreamFactory_def conv_view_def consumer_of_def fun_eq_iff)

end
