(* ===== verification/AssemblyHits.thy ===== *)
theory AssemblyHits
  imports AssemblySession
begin

text \<open>
  From packets to reported hits: memcached sessions carried by the packets of a connection, among any other packets, and what the assembly
  worker makes its consumer report.
\<close>

section \<open>Sessions as transmissions\<close>

fun sends_of :: "exchange \<times> byte list list \<times> byte list list \<Rightarrow> (side \<times> byte list) list" where
  "sends_of (x, ds, es) = map (Pair ClientSide) ds @ map (Pair ServerSide) es"

fun send_call :: "side \<times> byte list \<Rightarrow> StreamCall" where
  "send_call (s, b) = call_of s [MctextSession.segment b]"

lemma conversation_client:
  "conversation c (map (\<lambda>d. ClientReassembled [MctextSession.segment d]) ds @ xs) = conversation c (ClientReassembled (map MctextSession.segment ds) # xs)"
  by (induction ds arbitrary: c) (simp_all add: Option.bind_assoc)

lemma conversation_server:
  "conversation c (map (\<lambda>d. ServerReassembled [MctextSession.segment d]) ds @ xs) = conversation c (ServerReassembled (map MctextSession.segment ds) # xs)"
  by (induction ds arbitrary: c) (simp_all add: Option.bind_assoc)

lemma conversation_cong_tail: "(\<And>c. conversation c xs = conversation c ys) \<Longrightarrow> conversation c (x # xs) = conversation c (x # ys)"
  by simp

lemma conversation_sends: "conversation c (map send_call (concat (map sends_of xs))) = conversation c (concat (map calls_of xs))"
proof (induction xs arbitrary: c)
  case (Cons x xs)
  obtain e ds es where x: "x = (e, ds, es)" by (cases x)
  have "conversation c (map send_call (concat (map sends_of (x # xs)))) =
      conversation c (map (\<lambda>d. ClientReassembled [MctextSession.segment d]) ds @ map (\<lambda>d. ServerReassembled [MctextSession.segment d]) es @
        map send_call (concat (map sends_of xs)))"
    by (simp add: x comp_def)
  also have "\<dots> = conversation c (concat (map calls_of (x # xs)))"
    unfolding conversation_client x
    by (simp only: list.map concat.simps calls_of.simps append_Cons append_Nil)
      (intro conversation_cong_tail, simp only: conversation_server, intro conversation_cong_tail, rule Cons.IH)
  finally show ?case .
qed simp

section \<open>Quiet moments\<close>

text \<open>An empty segment of the client between two exchanges changes nothing.\<close>

lemma client_quiet:
  assumes "idle c"
  shows "\<exists>c'. stream_call c (ClientReassembled [MctextSession.segment []]) = Some c' \<and> idle c' \<and> all_events c' = all_events c"
proof -
  obtain P Q q where a: "reading (ClientReader c) P (length P)" "reading (ServerReader c) Q q" "Run c = RunLoop"
    "State c = Some PeekMagicByte \<or> State c = Some ReadCommand" using assms by (auto simp: idle_def)
  obtain s where s: "Source_Reassembled (ClientReader c) [MctextSession.segment []] = Some s" "reading s (P @ []) (length P)"
    using reading_Reassembled [OF a(1), of "[]"] by auto
  define c1 where "c1 = c\<lparr>ClientReader := s\<rparr>"
  have c1: "reading (ClientReader c1) P (length P)" "reading (ServerReader c1) Q q" "Run c1 = RunLoop"
    "State c1 = State c" "all_events c1 = all_events c" using a s by (auto simp: c1_def)
  have "\<exists>c'. mc_run c1 = Some c' \<and> keeps c1 c' \<and> State c' = State c1 \<and> ClientReader c' = ClientReader c1"
    using a(4) peek_short [OF _ c1(1,2)] readCommand_short [OF _ c1(1,2)] c1(4) by auto
  then obtain c2 where c2: "mc_run c1 = Some c2" "keeps c1 c2" "State c2 = State c" "ClientReader c2 = ClientReader c1"
    using c1(4) by auto
  then have "idle c2" using c1 a unfolding idle_def keeps_def by auto
  with c2 c1(3,5) s(1) show ?thesis by (auto simp: call_Run_loop keeps_def c1_def)
qed

text \<open>A consumer whose client is gone ignores the server.\<close>

definition drained :: "McConsumer \<Rightarrow> bool" where
  "drained c \<longleftrightarrow> ClientReader c = EofSource \<and> (State c = Some PeekMagicByte \<or> State c = Some ReadCommand) \<and> source_safe (ServerReader c)"

lemma drained_server:
  assumes "drained c"
  shows "\<exists>c'. stream_call c (ServerReassembled [MctextSession.segment []]) = Some c' \<and> drained c' \<and> handled c' = handled c \<and> eventBuf c' = eventBuf c"
proof -
  obtain s where s: "Source_Reassembled (ServerReader c) [MctextSession.segment []] = Some s" "source_safe s"
    using assms Source_Reassembled_safe [of "ServerReader c" "[MctextSession.segment []]"]
    by (auto simp: drained_def segment_def reassembly_ok_def chunk_ok_def maxcap_def)
  have "\<exists>c'. call_Run (c\<lparr>ServerReader := s\<rparr>) = Some c' \<and> drained c' \<and> handled c' = handled c \<and> eventBuf c' = eventBuf c"
  proof (cases "Run c")
    case RunLoop
    obtain c' where "call_state (c\<lparr>ServerReader := s\<rparr>) = Some (Some EOF, c')" "drained c'" "handled c' = handled c" "eventBuf c' = eventBuf c"
      using assms src.truncate_ok [OF s(2)] by (auto simp: drained_def call_state_def peekMagicByte_def readCommand_def nextWord_def dummy_defs)
    then show ?thesis using RunLoop by (subst call_Run_loop, simp, subst mc_run.simps) simp
  qed (use assms s(2) in \<open>auto simp: call_Run_def drained_def\<close>)
  with s(1) show ?thesis by simp
qed

lemma reading_safe: "reading s P p \<Longrightarrow> source_safe s"
  using refines_safe by (auto simp: reading_def reader_safe_def)

text \<open>The end of the client's direction hands over all events.\<close>

lemma client_fin:
  assumes "idle c" and "RST t \<or> FIN t" and "vis (t_Payload t) = []"
  shows "\<exists>c'. feed_packet ClientSide t c = Some c' \<and> drained c' \<and> concat (handled c') = all_events c \<and> eventBuf c' = []"
proof -
  obtain c1 where c1: "stream_call c (ClientReassembled [MctextSession.segment []]) = Some c1" "idle c1" "all_events c1 = all_events c"
    using client_quiet [OF assms(1)] by blast
  have "drained (ClientStream_ReassemblyComplete c1)"
    using c1(2) reading_safe by (auto simp: drained_def ClientStream_ReassemblyComplete_def idle_def)
  moreover have "handled (ClientStream_ReassemblyComplete c1) = handled c1 @ [eventBuf c1]" "eventBuf (ClientStream_ReassemblyComplete c1) = []"
    by (simp_all add: ClientStream_ReassemblyComplete_def FlushEvents_def)
  ultimately show ?thesis using c1 assms(2,3) by (auto simp: feed_packet_def all_events_def)
qed

lemma server_fin:
  assumes "drained c" and "eventBuf c = []" and "RST t \<or> FIN t" and "vis (t_Payload t) = []"
  shows "\<exists>c'. feed_packet ServerSide t c = Some c' \<and> concat (handled c') = concat (handled c) \<and> eventBuf c' = []"
proof -
  obtain c1 where c1: "stream_call c (ServerReassembled [MctextSession.segment []]) = Some c1" "handled c1 = handled c" "eventBuf c1 = []"
    using drained_server [OF assms(1)] assms(2) by auto
  then have "feed_packet ServerSide t c = Some (ServerStream_ReassemblyComplete c1)"
    using assms(3,4) by (simp add: feed_packet_def del: stream_call.simps(2))
  with c1 show ?thesis by (simp add: ServerStream_ReassemblyComplete_def FlushEvents_def)
qed

section \<open>Sessions as packets\<close>

text \<open>The end of a connection: a FIN or RST of the client, then one of the server, both in sequence.\<close>

fun closing :: "int option \<Rightarrow> int \<Rightarrow> (side \<times> TCP) list \<Rightarrow> bool" where
  "closing cs ss [] \<longleftrightarrow> False"
| "closing cs ss ((s, t) # ps) \<longleftrightarrow>
     (if useless t then closing cs ss ps
      else (RST t \<or> FIN t) \<and> vis (t_Payload t) = [] \<and>
        (case cs of
           Some q \<Rightarrow> s = ClientSide \<and> int (Seq t) = q \<and> closing None ss ps
         | None \<Rightarrow> s = ServerSide \<and> int (Seq t) = ss \<and> list_all (useless \<circ> snd) ps))"

text \<open>
  Packets that carry the transmissions in sequence, mere acknowledgements anywhere between them, and the end of the connection.
\<close>

fun transmits :: "int \<Rightarrow> int \<Rightarrow> (side \<times> byte list) list \<Rightarrow> (side \<times> TCP) list \<Rightarrow> bool" where
  "transmits cs ss [] ps \<longleftrightarrow> closing (Some cs) ss ps"
| "transmits cs ss (x # xs) [] \<longleftrightarrow> False"
| "transmits cs ss (x # xs) ((s, t) # ps) \<longleftrightarrow>
     (if useless t then transmits cs ss (x # xs) ps
      else x = (s, vis (t_Payload t)) \<and> \<not> RST t \<and> \<not> FIN t \<and>
        (if s = ClientSide then int (Seq t) = cs \<and> transmits (after t) ss xs ps else int (Seq t) = ss \<and> transmits cs (after t) xs ps))"

lemma conv_steps_useless: "list_all (useless \<circ> snd) ps \<Longrightarrow> conv_steps ps st = Some st"
  by (induction ps) auto

lemma closing_server:
  "\<lbrakk> closing None ss ps; drained c; eventBuf c = [] \<rbrakk>
   \<Longrightarrow> \<exists>c'. conv_steps ps (HalfClosed c ss) = Some (Closed c') \<and> concat (handled c') = concat (handled c) \<and> eventBuf c' = []"
  using server_fin by (induction "None :: int option" ss ps rule: closing.induct) (fastforce simp: conv_steps_useless split: if_splits)+

lemma closing_client:
  "\<lbrakk> closing (Some cs) ss ps; idle c \<rbrakk>
   \<Longrightarrow> \<exists>c'. conv_steps ps (Open c cs ss) = Some (Closed c') \<and> concat (handled c') = all_events c \<and> eventBuf c' = []"
proof (induction "Some cs" ss ps rule: closing.induct)
  case (2 ss s t ps)
  show ?case
  proof (cases "useless t")
    case False
    then have p: "RST t \<or> FIN t" "vis (t_Payload t) = []" "s = ClientSide" "int (Seq t) = cs" "closing None ss ps" using "2.prems" by auto
    obtain c1 where "feed_packet ClientSide t c = Some c1" "drained c1" "concat (handled c1) = all_events c" "eventBuf c1 = []"
      using client_fin [OF "2.prems"(2) p(1,2)] by blast
    with closing_server [OF p(5)] p False show ?thesis by fastforce
  qed (use 2 in simp)
qed simp

lemma transmits_steps:
  "\<lbrakk> transmits cs ss xs ps; conversation c (map send_call xs) = Some c'; idle c' \<rbrakk>
   \<Longrightarrow> \<exists>c''. conv_steps ps (Open c cs ss) = Some (Closed c'') \<and> concat (handled c'') = all_events c' \<and> eventBuf c'' = []"
proof (induction cs ss xs ps arbitrary: c rule: transmits.induct)
  case (1 cs ss ps)
  then show ?case using closing_client by simp
next
  case (3 cs ss x xs s t ps)
  show ?case
  proof (cases "useless t")
    case False
    then have p: "x = (s, vis (t_Payload t))" "\<not> RST t" "\<not> FIN t" using "3.prems"(1) by auto
    with "3.prems"(2) obtain c1 where c1: "feed_packet s t c = Some c1" "conversation c1 (map send_call xs) = Some c'"
      by (auto simp: feed_packet_def Option.bind_eq_Some_conv)
    with 3 False p show ?thesis by (cases s) auto
  qed (use 3 in simp)
qed simp

lemma filter_upt_eq: "i < n \<Longrightarrow> filter (\<lambda>j. j = i) [0..<n] = [i]"
  by (induction n) (auto simp: less_Suc_eq)

lemma sole_consumer:
  assumes "consumer_of sf ck = [i \<mapsto> c]"
  shows "filter (\<lambda>x. fst x = ck) (consumers sf) = [(ck, c)]"
proof -
  let ?xs = "consumers sf"
  have i: "i < length ?xs" "?xs ! i = (ck, c)"
    using fun_cong [OF assms, of i] by (auto simp: consumer_of_def prod_eq_iff split: if_splits)
  have "j < length ?xs \<Longrightarrow> fst (?xs ! j) = ck \<longleftrightarrow> j = i" for j
    using fun_cong [OF assms, of j] i by (auto simp: consumer_of_def split: if_splits)
  then have "filter (\<lambda>j. fst (?xs ! j) = ck) [0..<length ?xs] = filter (\<lambda>j. j = i) [0..<length ?xs]"
    by (intro filter_cong) auto
  also have "\<dots> = [i]"
    using i(1) by (rule filter_upt_eq)
  finally have "filter (\<lambda>x. fst x = ck) (map ((!) ?xs) [0..<length ?xs]) = [?xs ! i]"
    by (simp add: filter_map comp_def)
  with i(2) show ?thesis by (simp add: map_nth)
qed

text \<open>A connection that carries sessions, from its first SYN to its last FIN.\<close>

lemma session_steps:
  assumes "\<forall>x\<in>set xs. session_ok S x" and "SYN t1" and "SYN t2" and "vis (t_Payload t1) = []" and "vis (t_Payload t2) = []"
    and "transmits (after_syn t1) (after_syn t2) (concat (map sends_of xs)) ps"
  shows "\<exists>c. conv_steps ((ClientSide, t1) # (ServerSide, t2) # ps) Fresh = Some (Closed c) \<and>
    concat (handled c) = concat (map (hits_of \<circ> fst) xs) \<and> eventBuf c = []"
proof -
  obtain c1 where c1: "greet ClientSide t1 (fst (NewConsumer [])) = Some c1" "idle c1" "all_events c1 = []"
    using client_quiet [OF idle_NewConsumer] assms(4) by (auto simp: greet_def all_events_NewConsumer)
  obtain c2 where c2: "greet ServerSide t2 c1 = Some c2" "idle c2" "all_events c2 = []"
    using server_quiet [OF c1(2), of "[[]]"] c1(3) assms(5) by (auto simp: greet_def)
  obtain c3 where c3: "conversation c2 (map send_call (concat (map sends_of xs))) = Some c3" "idle c3"
    "all_events c3 = concat (map (hits_of \<circ> fst) xs)"
    using session_events [OF c2(2) assms(1)] c2(3) by (auto simp: conversation_sends)
  obtain c where c: "conv_steps ps (Open c2 (after_syn t1) (after_syn t2)) = Some (Closed c)" "concat (handled c) = all_events c3" "eventBuf c = []"
    using transmits_steps [OF assms(6) c3(1,2)] by blast
  have "\<not> useless t1" "\<not> useless t2" using assms(2,3) by (auto simp: useless_def)
  with c1 c2 c c3(3) assms(2,3) show ?thesis by simp
qed

section \<open>Properties\<close>

text \<open>
  C4.  From packets to hits.  Take a connection between a memcached port and another port that is opened by the two SYNs, carries any well-formed sessions in
  segments in sequence and is closed by the client and then the server, while the worker handles any packets of other
  connections in between and flushes at any time, all within a minute of capture time.  Then the worker does not panic, exactly one
  consumer exists for the connection, and the events that it has handed to the analysis are the hits of the sessions in order.
\<close>

theorem worker_reports_hits:
  assumes "conv_key ports ck" and "\<forall>e\<in>set es. event_ready e" and "\<forall>dp\<in>set (run_packets es). within_minute t0 dp" and "0 \<le> t0"
    and "\<forall>x\<in>set xs. session_ok S x"
    and "conv_trace ports ck (run_packets es) = (ClientSide, t1) # (ServerSide, t2) # ps"
    and "SYN t1" and "SYN t2" and "vis (t_Payload t1) = []" and "vis (t_Payload t2) = []"
    and "transmits (after_syn t1) (after_syn t2) (concat (map sends_of xs)) ps"
  shows "\<exists>w c. worker_loop es (newWorker ports) = Some w \<and> filter (\<lambda>x. fst x = ck) (consumers (world (assembler w))) = [(ck, c)] \<and>
    concat (handled c) = concat (map (hits_of \<circ> fst) xs) \<and> eventBuf c = []"
proof -
  obtain c where c: "conv_steps (conv_trace ports ck (run_packets es)) Fresh = Some (Closed c)"
    "concat (handled c) = concat (map (hits_of \<circ> fst) xs)" "eventBuf c = []"
    using session_steps [OF assms(5,7-11)] assms(6) by auto
  moreover have "mostRecent (newWorker ports) \<le> t0 + minute" using assms(4) by (simp add: newWorker_def minute_def)
  ultimately obtain w where "worker_loop es (newWorker ports) = Some w" "represents t0 (Closed c) (conv_local ck (assembler w))"
    using c(1) worker_refines [OF worker_ok_new assms(2,3,1) represents_new] by blast
  with c show ?thesis by (auto simp: conv_local_def conv_view_def dest: sole_consumer)
qed

text \<open>A client at port 1234 gets a value from the server, another connection sends something in between.\<close>

definition sample_tcp :: "byte list \<Rightarrow> byte list \<Rightarrow> nat \<Rightarrow> byte list \<Rightarrow> TCP" where
  "sample_tcp src dst n data = zeroTCP\<lparr>sPort := src, dPort := dst, Seq := n, t_Payload := whole data\<rparr>"

definition sample_dp :: "byte list \<Rightarrow> byte list \<Rightarrow> int \<Rightarrow> TCP \<Rightarrow> DecodedPacket" where
  "sample_dp src dst time t = newDecodedPacket\<lparr>dp_Info := zeroInfo\<lparr>Timestamp := time\<rparr>, dp_layers := zeroLayers\<lparr>tcp := t\<rparr>,
     NetFlow := the (NewFlow EndpointIPv4 src dst)\<rparr>"

definition client_port :: "byte list" where "client_port = [CHR 0x04, CHR 0xD2]"

definition server_port :: "byte list" where "server_port = [CHR 0x2B, CHR 0xCB]"

definition from_client :: "int \<Rightarrow> TCP \<Rightarrow> DecodedPacket" where
  "from_client = sample_dp ''abcd'' ''efgh''"

definition to_client :: "int \<Rightarrow> TCP \<Rightarrow> DecodedPacket" where
  "to_client = sample_dp ''efgh'' ''abcd''"

definition sample_exchange :: "exchange \<times> byte list list \<times> byte list list" where
  "sample_exchange = (Retrieval ''get'' [''a''] [(''a'', ''0'', ''xy'')], [''get'', '' a'' @ crlf], [''VALUE a 0 2'' @ crlf @ ''xy'', crlf @ ''END'' @ crlf])"

definition sample_t :: "TCP list" where
  "sample_t = [(sample_tcp client_port server_port 0xFFFFFFFE [])\<lparr>SYN := True\<rparr>, (sample_tcp server_port client_port 9 [])\<lparr>SYN := True\<rparr>,
     sample_tcp client_port server_port 0xFFFFFFFF ''get'', sample_tcp client_port server_port 2 ('' a'' @ crlf),
     sample_tcp server_port client_port 10 (''VALUE a 0 2'' @ crlf @ ''xy''), sample_tcp server_port client_port 25 (crlf @ ''END'' @ crlf),
     (sample_tcp client_port server_port 6 [])\<lparr>FIN := True\<rparr>, (sample_tcp server_port client_port 32 [])\<lparr>FIN := True\<rparr>]"

definition sample_events :: "event list" where
  "sample_events =
     [Work [from_client 5 (sample_t ! 0), to_client 6 (sample_t ! 1), from_client 7 (sample_t ! 2)], Tick [],
      Work [sample_dp ''wxyz'' ''efgh'' 8 (sample_tcp client_port server_port 77 ''set a''), from_client 9 (sample_t ! 3),
        to_client 9 (sample_t ! 4)],
      Work [to_client 9 (sample_t ! 5), from_client 9 (sample_tcp client_port server_port 6 []), from_client 10 (sample_t ! 6),
        to_client 10 (sample_t ! 7)]]"

definition sample_ck :: connectionKey where
  "sample_ck = (the (NewFlow EndpointIPv4 ''efgh'' ''abcd''), the (NewFlow EndpointTCPPort server_port client_port))"

lemmas sample_defs = sample_tcp_def sample_dp_def client_port_def server_port_def from_client_def to_client_def

lemma sample_dp_ready:
  assumes "length (sPort t) = 2" and "length (dPort t) = 2" and "Seq t < 4294967296" and "int (length (vis (t_Payload t))) < maxcap"
    and "length src \<le> 16" and "length dst \<le> 16"
  shows "packet_ready (sample_dp src dst time t)"
proof -
  obtain f where "NewFlow EndpointIPv4 src dst = Some f" "flow_ok f"
    using assms(5,6) NewFlow_ok [of EndpointIPv4 src dst] by (auto simp: NewFlow_def MaxEndpointSize_def)
  then show ?thesis using assms dp_ok_new
    by (auto simp: packet_ready_def sample_dp_def dp_ok_def newDecodedPacket_def layers_ok_def ports_ok_def zeroLayers_def)
qed

lemma sample_events_ready: "\<forall>e\<in>set sample_events. event_ready e"
  by (simp add: sample_events_def from_client_def to_client_def)
    (intro conjI sample_dp_ready; simp add: sample_t_def sample_tcp_def zeroTCP_def client_port_def server_port_def crlf_def whole_def maxcap_def)

lemma from_server_ports:
  "\<lbrakk> length s = 2; length d = 2 \<rbrakk> \<Longrightarrow> from_server ports (n, the (NewFlow EndpointTCPPort s d)) = isInPortlist ports (int (be s))"
  using srcPort_NewFlow [of s d "the (NewFlow EndpointTCPPort s d)"] by (simp add: from_server_def NewFlow_def MaxEndpointSize_def)

lemma the_NewFlow_Reverse: "\<lbrakk> length s \<le> 16; length d \<le> 16 \<rbrakk> \<Longrightarrow> Flow_Reverse (the (NewFlow n s d)) = the (NewFlow n d s)"
  by (simp add: NewFlow_def MaxEndpointSize_def Flow_Reverse_def)

lemma sample_key:
  assumes "length src \<le> 16" and "length dst \<le> 16"
  shows "\<lbrakk> sPort t = client_port; dPort t = server_port \<rbrakk> \<Longrightarrow>
      conversation_of [11211] (pkt_key (sample_dp src dst ts t)) = (the (NewFlow EndpointIPv4 dst src), snd sample_ck) \<and>
      side_of [11211] (pkt_key (sample_dp src dst ts t)) = ClientSide"
    and "\<lbrakk> sPort t = server_port; dPort t = client_port \<rbrakk> \<Longrightarrow>
      conversation_of [11211] (pkt_key (sample_dp src dst ts t)) = (the (NewFlow EndpointIPv4 src dst), snd sample_ck) \<and>
      side_of [11211] (pkt_key (sample_dp src dst ts t)) = ServerSide"
  using assms
  by (simp_all add: pkt_key_def sample_dp_def zeroLayers_def newDecodedPacket_def TCP_TransportFlow_def conversation_of_def side_of_def from_server_ports
      ck_Reverse_def the_NewFlow_Reverse sample_ck_def client_port_def server_port_def)

lemma sample_conv_key: "conv_key [11211] sample_ck"
  by (simp add: conv_key_def sample_ck_def ck_Reverse_def the_NewFlow_Reverse from_server_ports client_port_def server_port_def)

lemma sample_t_ports:
  "i \<in> {0, 2, 3, 6} \<Longrightarrow> sPort (sample_t ! i) = client_port \<and> dPort (sample_t ! i) = server_port"
  "i \<in> {1, 4, 5, 7} \<Longrightarrow> sPort (sample_t ! i) = server_port \<and> dPort (sample_t ! i) = client_port"
  by (auto simp: sample_t_def sample_tcp_def)

lemma sample_trace: "conv_trace [11211] sample_ck (run_packets sample_events) =
  (ClientSide, sample_t ! 0) # (ServerSide, sample_t ! 1) # [(ClientSide, sample_t ! 2), (ClientSide, sample_t ! 3),
  (ServerSide, sample_t ! 4), (ServerSide, sample_t ! 5), (ClientSide, sample_tcp client_port server_port 6 []),
  (ClientSide, sample_t ! 6), (ServerSide, sample_t ! 7)]"
proof -
  have ck: "(the (NewFlow EndpointIPv4 ''efgh'' ''abcd''), snd sample_ck) = sample_ck" by (simp add: sample_ck_def)
  have other: "(the (NewFlow EndpointIPv4 ''efgh'' ''wxyz''), snd sample_ck) \<noteq> sample_ck"
    by (simp add: sample_ck_def NewFlow_def MaxEndpointSize_def raw_array_def)
  have tcp: "tcp_of_dp (sample_dp src dst ts t) = t" for src dst ts t by (simp add: sample_dp_def)
  have ports: "sPort (sample_tcp s d n b) = s" "dPort (sample_tcp s d n b) = d" for s d n b by (simp_all add: sample_tcp_def)
  show ?thesis
    by (simp add: conv_trace_def run_packets_def sample_events_def from_client_def to_client_def sample_key sample_t_ports ports ck other tcp)
qed

lemma sample_transmits: "transmits (after_syn (sample_t ! 0)) (after_syn (sample_t ! 1)) (concat (map sends_of [sample_exchange]))
  [(ClientSide, sample_t ! 2), (ClientSide, sample_t ! 3), (ServerSide, sample_t ! 4), (ServerSide, sample_t ! 5), (ClientSide, sample_tcp client_port server_port 6 []),
   (ClientSide, sample_t ! 6), (ServerSide, sample_t ! 7)]"
   by (simp add: sample_t_def sample_tcp_def zeroTCP_def after_syn_def after_def Seq_Add_def useless_def whole_def crlf_def sample_exchange_def)

lemma sample_exchange_ok: "session_ok 1460 sample_exchange"
proof -
  have i: "Itoa 2 = ''2''" by code_simp
  show ?thesis
    by (simp add: sample_exchange_def MctextSession.cut_def header_def response_def value_bytes_def clean_word_def crlf_def maxint_def i)
qed

lemma sample_within: "\<forall>dp\<in>set (run_packets sample_events). within_minute 0 dp"
  by (simp add: run_packets_def sample_events_def within_minute_def minute_def from_client_def to_client_def sample_dp_def)

theorem worker_reports_hits_witness:
  "\<exists>w c. worker_loop sample_events (newWorker [11211]) = Some w \<and>
     filter (\<lambda>x. fst x = sample_ck) (consumers (world (assembler w))) = [(sample_ck, c)] \<and>
     concat (handled c) = [\<lparr>EType = EventGetHit, Key = ''a'', Size = 2\<rparr>] \<and> eventBuf c = []"
proof -
  have "SYN (sample_t ! 0)" "SYN (sample_t ! 1)" "vis (t_Payload (sample_t ! 0)) = []" "vis (t_Payload (sample_t ! 1)) = []"
    by (simp_all add: sample_t_def sample_tcp_def whole_def)
  moreover have "\<forall>x\<in>set [sample_exchange]. session_ok 1460 x" using sample_exchange_ok by simp
  moreover have "concat (map (hits_of \<circ> fst) [sample_exchange]) = [\<lparr>EType = EventGetHit, Key = ''a'', Size = 2\<rparr>]"
    by (simp add: sample_exchange_def)
  ultimately show ?thesis
    using worker_reports_hits [OF sample_conv_key sample_events_ready sample_within order_refl _ sample_trace _ _ _ _ sample_transmits] by metis
qed



end
