(* ===== verification/AssemblyPool.thy ===== *)
theory AssemblyPool
  imports AssemblySession Runs
begin

text \<open>
  The pool of assembly workers, \<^verbatim>\<open>assembly/pool.go\<close>, and the queues and loops of \<^verbatim>\<open>assembly/worker.go\<close>, as a step relation: every iteration of
  \<open>HandlePackets\<close>, every receive of a \<open>doneCh\<close> and every round of a worker's loop is one step.  The callers of \<open>HandlePackets\<close> are the decode
  workers, each of which runs one call at a time; a call's \<open>doneCh\<close> is the number of tokens in it, kept with the caller.  The logger is not modelled.
\<close>

section \<open>Distribution\<close>

text \<open>\<open>int(dp.FlowHash % uint64(len(p.workers)))\<close>; the division panics when there are no workers.\<close>

definition slot :: "nat \<Rightarrow> DecodedPacket \<Rightarrow> nat option" where
  "slot n dp = (if n = 0 then None else Some (unat (FlowHash dp mod of_nat n)))"

definition partition :: "nat \<Rightarrow> DecodedPacket list \<Rightarrow> DecodedPacket list list option" where
  "partition n dps = scatter (slot n) dps (replicate n [])"

lemma slot_bound: "unat (h mod of_nat (Suc m) :: 64 word) < Suc m"
proof (cases "Suc m < 2 ^ 64")
  case True
  then have "unat (of_nat (Suc m) :: 64 word) = Suc m" by (simp add: unsigned_of_nat take_bit_nat_eq_self del: of_nat_Suc)
  then show ?thesis by (simp add: unat_mod del: of_nat_Suc)
next
  case False
  moreover have "unat (h mod of_nat (Suc m) :: 64 word) < 2 ^ 64" using unsigned_less [where ?'a = nat and ?'b = 64] by simp
  ultimately show ?thesis by linarith
qed

interpretation hashed: slotting "slot (Suc m)" "Suc m" for m
  by standard (use slot_bound in \<open>auto simp: slot_def\<close>)

section \<open>State\<close>

record workItem =
  wi_dps :: "DecodedPacket list"
  wi_done :: nat

datatype worker_pc = Selecting | Signalling nat

record worker =
  wstate :: worker_state
  wiCh :: "workItem list"
  wpc :: worker_pc

text \<open>
  A caller is outside of \<open>HandlePackets\<close>, at index \<open>i\<close> of the loop that sends the parts, or has yet to receive from its
  \<open>doneCh\<close>; the numbers are \<open>batchesSent\<close> or what is left of it, and the tokens in \<open>doneCh\<close>.
\<close>

datatype caller = Outside | Sending nat "DecodedPacket list list" nat nat | Waiting nat nat

record Pool =
  workers :: "worker list"
  callers :: "caller list"

definition wiChCap :: nat where
  "wiChCap = 128"

definition startWorker :: "int list \<Rightarrow> worker" where
  "startWorker ports = \<lparr>wstate = newWorker ports, wiCh = [], wpc = Selecting\<rparr>"

definition New :: "int list \<Rightarrow> nat \<Rightarrow> nat \<Rightarrow> Pool" where
  "New ports numWorkers numCallers = \<lparr>workers = replicate numWorkers (startWorker ports), callers = replicate numCallers Outside\<rparr>"

section \<open>Steps\<close>

datatype assembly_error = errQueueFull

definition handlePackets :: "DecodedPacket list \<Rightarrow> nat \<Rightarrow> worker \<Rightarrow> assembly_error option \<times> worker" where
  "handlePackets dps doneCh w =
     (if length (wiCh w) < wiChCap then (None, w\<lparr>wiCh := wiCh w @ [\<lparr>wi_dps = dps, wi_done = doneCh\<rparr>]\<rparr>) else (Some errQueueFull, w))"

fun tokens :: "caller \<Rightarrow> nat" where
  "tokens Outside = 0"
| "tokens (Sending i parts n t) = t"
| "tokens (Waiting n t) = t"

fun add_token :: "caller \<Rightarrow> caller" where
  "add_token Outside = Outside"
| "add_token (Sending i parts n t) = Sending i parts n (Suc t)"
| "add_token (Waiting n t) = Waiting n (Suc t)"

datatype label = Called nat "DecodedPacket list" | Sent nat nat | Dropped nat nat | Returned nat | Assembled nat "DecodedPacket list" | Internal | Ticked nat

inductive step :: "Pool \<Rightarrow> label \<Rightarrow> Pool \<Rightarrow> bool" where
  call: "\<lbrakk> j < length (callers p); callers p ! j = Outside; partition (length (workers p)) dps = Some parts \<rbrakk>
    \<Longrightarrow> step p (Called j dps) (p\<lparr>callers := (callers p)[j := Sending 0 parts 0 0]\<rparr>)"
| skip: "\<lbrakk> j < length (callers p); callers p ! j = Sending i parts n t; i < length parts; parts ! i = [] \<rbrakk>
    \<Longrightarrow> step p Internal (p\<lparr>callers := (callers p)[j := Sending (Suc i) parts n t]\<rparr>)"
| send: "\<lbrakk> j < length (callers p); callers p ! j = Sending i parts n t; i < length parts; parts ! i \<noteq> []; i < length (workers p);
      handlePackets (parts ! i) j (workers p ! i) = (err, w) \<rbrakk>
    \<Longrightarrow> step p (if err = None then Sent j i else Dropped j i)
          (p\<lparr>workers := (workers p)[i := w], callers := (callers p)[j := Sending (Suc i) parts (Suc n) t]\<rparr>)"
| wait: "\<lbrakk> j < length (callers p); callers p ! j = Sending (length parts) parts n t \<rbrakk>
    \<Longrightarrow> step p Internal (p\<lparr>callers := (callers p)[j := Waiting n t]\<rparr>)"
| receive: "\<lbrakk> j < length (callers p); callers p ! j = Waiting (Suc n) (Suc t) \<rbrakk>
    \<Longrightarrow> step p Internal (p\<lparr>callers := (callers p)[j := Waiting n t]\<rparr>)"
| return: "\<lbrakk> j < length (callers p); callers p ! j = Waiting 0 t \<rbrakk>
    \<Longrightarrow> step p (Returned j) (p\<lparr>callers := (callers p)[j := Outside]\<rparr>)"
| work: "\<lbrakk> i < length (workers p); wpc (workers p ! i) = Selecting; wiCh (workers p ! i) = wi # rest;
      assemble_all (wi_dps wi) (wstate (workers p ! i)) = Some s \<rbrakk>
    \<Longrightarrow> step p (Assembled i (wi_dps wi)) (p\<lparr>workers := (workers p)[i := \<lparr>wstate = s, wiCh = rest, wpc = Signalling (wi_done wi)\<rparr>]\<rparr>)"
| signal: "\<lbrakk> i < length (workers p); wpc (workers p ! i) = Signalling j; j < length (callers p);
      tokens (callers p ! j) < length (workers p) \<rbrakk>
    \<Longrightarrow> step p Internal (p\<lparr>workers := (workers p)[i := (workers p ! i)\<lparr>wpc := Selecting\<rparr>],
          callers := (callers p)[j := add_token (callers p ! j)]\<rparr>)"
| tick: "\<lbrakk> i < length (workers p); wpc (workers p ! i) = Selecting; worker_tick keys (wstate (workers p ! i)) = Some s \<rbrakk>
    \<Longrightarrow> step p (Ticked i) (p\<lparr>workers := (workers p)[i := (workers p ! i)\<lparr>wstate := s\<rparr>]\<rparr>)"

abbreviation run :: "Pool \<Rightarrow> label list \<Rightarrow> Pool \<Rightarrow> bool" where
  "run \<equiv> runs step"

inductive_cases stepE: "step p l q"

section \<open>Accounting for batches\<close>

text \<open>The work items of a caller that a worker still has to signal.\<close>

definition holds :: "nat \<Rightarrow> worker \<Rightarrow> nat" where
  "holds j w = length (filter (\<lambda>wi. wi_done wi = j) (wiCh w)) + of_bool (wpc w = Signalling j)"

definition outstanding :: "nat \<Rightarrow> Pool \<Rightarrow> nat" where
  "outstanding j p = (\<Sum>w\<leftarrow>workers p. holds j w) + tokens (callers p ! j)"

text \<open>The signals that a caller will have waited for when it returns.\<close>

fun due :: "caller \<Rightarrow> nat" where
  "due Outside = 0"
| "due (Sending i parts n t) = n"
| "due (Waiting n t) = n"

definition short :: "nat \<Rightarrow> Pool \<Rightarrow> int" where
  "short j p = int (due (callers p ! j)) - int (outstanding j p)"

lemma sum_member: "i < length ws \<Longrightarrow> f (ws ! i) \<le> (\<Sum>w\<leftarrow>ws. f w :: nat)"
  by (rule member_le_sum_list) auto

lemma holds_handlePackets:
  "handlePackets dps k w = (err, w') \<Longrightarrow> holds j w' = holds j w + of_bool (err = None \<and> j = k)"
  by (auto simp: handlePackets_def holds_def split: if_splits)

lemma holds_work: "\<lbrakk> wpc w = Selecting; wiCh w = wi # rest \<rbrakk> \<Longrightarrow> holds j \<lparr>wstate = s, wiCh = rest, wpc = Signalling (wi_done wi)\<rparr> = holds j w"
  by (simp add: holds_def)

lemma holds_signal: "wpc w = Signalling k \<Longrightarrow> holds j (w\<lparr>wpc := Selecting\<rparr>) + of_bool (j = k) = holds j w"
  by (simp add: holds_def)

lemma holds_wstate [simp]: "holds j (w\<lparr>wstate := s\<rparr>) = holds j w"
  by (simp add: holds_def)

lemma short_step:
  assumes "step p l q" and "\<forall>j<length (callers p). 0 \<le> short j p" and "j < length (callers p)"
  shows "length (callers q) = length (callers p) \<and> length (workers q) = length (workers p) \<and>
    short j q = short j p + of_bool (\<exists>i. l = Dropped j i)"
  using assms(1)
proof cases
  case (send k i parts n t err w)
  have "holds j w = holds j (workers p ! i) + of_bool (err = None \<and> j = k)" using send(8) by (rule holds_handlePackets)
  with send assms(3) sum_list_update_nat [of i "workers p" "holds j" w] show ?thesis
    by (cases "j = k"; cases err) (auto simp: short_def outstanding_def nth_list_update)
next
  case (return k t)
  have "0 \<le> short k p" using assms(2) return by auto
  with return have "t = 0" by (simp add: short_def outstanding_def)
  with return assms(3) show ?thesis by (cases "j = k") (auto simp: short_def outstanding_def)
next
  case (work i wi rest s)
  with sum_list_update_nat [of i "workers p" "holds j" "\<lparr>wstate = s, wiCh = rest, wpc = Signalling (wi_done wi)\<rparr>"] holds_work [OF work(4,5)]
  show ?thesis by (auto simp: short_def outstanding_def)
next
  case (signal i k)
  have "0 \<le> short k p" using assms(2) signal by auto
  moreover have "1 \<le> holds k (workers p ! i)" using signal by (simp add: holds_def)
  ultimately have "0 < due (callers p ! k)"
    using sum_member [OF signal(3), of "holds k"] unfolding short_def outstanding_def by linarith
  then have "callers p ! k \<noteq> Outside" by auto
  then have "tokens (add_token (callers p ! k)) = Suc (tokens (callers p ! k))" "due (add_token (callers p ! k)) = due (callers p ! k)"
    by (cases "callers p ! k"; simp)+
  with signal assms(3) sum_list_update_nat [of i "workers p" "holds j" "(workers p ! i)\<lparr>wpc := Selecting\<rparr>"] holds_signal [OF signal(4), of j]
  show ?thesis by (cases "j = k") (auto simp: short_def outstanding_def)
next
  case (tick i keys s)
  with sum_list_update_nat [of i "workers p" "holds j" "(workers p ! i)\<lparr>wstate := s\<rparr>"] show ?thesis
    by (auto simp: short_def outstanding_def)
qed (use assms(3) in \<open>auto simp: short_def outstanding_def nth_list_update\<close>)

lemma short_New: "j < numCallers \<Longrightarrow> short j (New ports numWorkers numCallers) = 0"
  by (simp add: short_def outstanding_def New_def startWorker_def holds_def sum_list_replicate)

fun drops :: "nat \<Rightarrow> label list \<Rightarrow> nat" where
  "drops j [] = 0"
| "drops j (Dropped k i # ls) = of_bool (k = j) + drops j ls"
| "drops j (_ # ls) = drops j ls"

lemma drops_append [simp]: "drops j (ls @ ms) = drops j ls + drops j ms"
  by (induction j ls rule: drops.induct) auto

lemma drops_one: "drops j [l] = of_bool (\<exists>i. l = Dropped j i)"
  by (cases l) auto

text \<open>What a caller waits for beyond what will be signalled are the batches that were dropped.\<close>

lemma short_run:
  "\<lbrakk> run p ls q; \<forall>j<length (callers p). short j p = 0 \<rbrakk>
   \<Longrightarrow> length (callers q) = length (callers p) \<and> length (workers q) = length (workers p) \<and>
     (\<forall>j<length (callers p). short j q = int (drops j ls))"
proof (induction rule: runs.induct)
  case (runs_snoc p ls q l r)
  then have "\<forall>j<length (callers q). 0 \<le> short j q" by auto
  note st = short_step [OF runs_snoc.hyps(2) this]
  have ih: "length (callers q) = length (callers p)" "length (workers q) = length (workers p)" "\<forall>j<length (callers p). short j q = int (drops j ls)"
    using runs_snoc.IH runs_snoc.prems by auto
  have "short j r = int (drops j (ls @ [l]))" if "j < length (callers p)" for j
    using st [of j] ih that by (simp only: drops_append drops_one) simp
  moreover have "length (callers r) = length (callers q) \<and> length (workers r) = length (workers q)"
    using runs_snoc.hyps(2) by cases simp_all
  ultimately show ?case using ih by simp
qed simp

section \<open>Queues hold at most one batch of each caller\<close>

lemma partition_eq:
  "0 < n \<Longrightarrow> partition n dps = Some (map (\<lambda>i. filter (\<lambda>dp. slot n dp = Some i) dps) [0..<n])"
proof (cases n)
  case (Suc m)
  have "hashed.slot_of m dp = i \<longleftrightarrow> slot (Suc m) dp = Some i" for dp i
    by (simp add: hashed.slot_slot_of [of m dp])
  then show ?thesis unfolding Suc partition_def by (simp only: hashed.scatter_empty)
qed simp

fun sent_to :: "nat \<Rightarrow> caller \<Rightarrow> bool" where
  "sent_to i Outside = False"
| "sent_to i (Sending k parts n t) = (i < k)"
| "sent_to i (Waiting n t) = True"

definition queued :: "nat \<Rightarrow> worker \<Rightarrow> nat" where
  "queued j w = length (filter (\<lambda>wi. wi_done wi = j) (wiCh w))"

fun caller_ok :: "nat \<Rightarrow> caller \<Rightarrow> bool" where
  "caller_ok n Outside = True"
| "caller_ok n (Sending i parts m t) \<longleftrightarrow> length parts = n \<and> i \<le> n \<and> m \<le> i \<and> (\<forall>part\<in>set parts. \<forall>dp\<in>set part. packet_ready dp)"
| "caller_ok n (Waiting m t) \<longleftrightarrow> m \<le> n"

definition crew_ok :: "int list \<Rightarrow> nat \<Rightarrow> worker \<Rightarrow> bool" where
  "crew_ok ports n w \<longleftrightarrow> worker_ok ports (wstate w) \<and> (\<forall>j. wpc w = Signalling j \<longrightarrow> j < n) \<and>
     (\<forall>wi\<in>set (wiCh w). wi_done wi < n \<and> (\<forall>dp\<in>set (wi_dps wi). packet_ready dp))"

definition pool_inv :: "int list \<Rightarrow> Pool \<Rightarrow> bool" where
  "pool_inv ports p \<longleftrightarrow> workers p \<noteq> [] \<and> (\<forall>w\<in>set (workers p). crew_ok ports (length (callers p)) w) \<and>
     (\<forall>c\<in>set (callers p). caller_ok (length (workers p)) c) \<and>
     (\<forall>i<length (workers p). \<forall>j<length (callers p). queued j (workers p ! i) \<le> of_bool (sent_to i (callers p ! j))) \<and>
     (\<forall>j<length (callers p). 0 \<le> short j p)"

fun label_ready :: "label \<Rightarrow> bool" where
  "label_ready (Called j dps) = (\<forall>dp\<in>set dps. packet_ready dp)"
| "label_ready _ = True"

lemma pool_inv_New: "0 < numWorkers \<Longrightarrow> pool_inv ports (New ports numWorkers numCallers)"
  using short_New [of _ numCallers ports numWorkers] worker_ok_new
  by (auto simp: pool_inv_def New_def crew_ok_def startWorker_def queued_def)

lemma queued_handlePackets: "handlePackets dps k w = (err, w') \<Longrightarrow> queued j w' \<le> queued j w + of_bool (j = k)"
  by (auto simp: handlePackets_def queued_def split: if_splits)

text \<open>The part of the invariant that concerns the queues.\<close>

lemma queues_step:
  assumes "step p l q" and "pool_inv ports p" and "i < length (workers p)" and "j < length (callers p)"
  shows "queued j (workers q ! i) \<le> of_bool (sent_to i (callers q ! j))"
proof -
  have old: "queued j (workers p ! i) \<le> of_bool (sent_to i (callers p ! j))" using assms(2-4) by (simp add: pool_inv_def)
  from assms(1) show ?thesis
  proof cases
    case (skip k m parts n t)
    with old assms(4) show ?thesis by (cases "k = j") (auto simp: of_bool_def split: if_splits)
  next
    case (send k m parts n t err w)
    with old assms(3,4) queued_handlePackets [OF send(8), of j] show ?thesis
      by (cases "k = j"; cases "m = i") (auto simp: of_bool_def split: if_splits)
  next
    case (wait k parts n t)
    with old assms(4) show ?thesis by (cases "k = j") (auto simp: of_bool_def split: if_splits)
  next
    case (return k t)
    show ?thesis
    proof (cases "k = j")
      case True
      with return assms(2,4) have "0 \<le> short j p" "callers p ! j = Waiting 0 t" by (auto simp: pool_inv_def)
      then have "holds j (workers p ! i) = 0"
        using sum_member [OF assms(3), of "holds j"] by (simp add: short_def outstanding_def)
      with return show ?thesis by (simp add: holds_def queued_def)
    qed (use old return in simp)
  next
    case (work m wi rest s)
    with old assms(3) show ?thesis by (cases "m = i") (auto simp: queued_def split: if_splits)
  next
    case (signal m k)
    then have "sent_to i (add_token (callers p ! k)) = sent_to i (callers p ! k)" by (cases "callers p ! k") auto
    with signal old assms(3,4) show ?thesis by (cases "m = i"; cases "k = j") (auto simp: queued_def)
  next
    case (tick m keys s)
    with old assms(3) show ?thesis by (cases "m = i") (auto simp: queued_def)
  qed (use old assms(4) in \<open>auto simp: nth_list_update split: if_splits\<close>)
qed

lemma set_update_cases: "\<lbrakk> x \<in> set (xs[i := v]); \<forall>x\<in>set xs. P x; P v \<rbrakk> \<Longrightarrow> P x"
  using set_update_subset_insert [of xs i v] by auto

lemma crew_step:
  assumes "step p l q" and "pool_inv ports p" and "w \<in> set (workers q)"
  shows "crew_ok ports (length (callers p)) w"
proof -
  have crew: "\<forall>w\<in>set (workers p). crew_ok ports (length (callers p)) w" and cs: "\<forall>c\<in>set (callers p). caller_ok (length (workers p)) c"
    using assms(2) by (auto simp: pool_inv_def)
  have old: "i < length (workers p) \<Longrightarrow> crew_ok ports (length (callers p)) (workers p ! i)" for i using crew by simp
  from assms(1) show ?thesis
  proof cases
    case (send k m parts n t err v)
    have "caller_ok (length (workers p)) (Sending m parts n t)" using cs send(3,4) nth_mem by metis
    then have "\<forall>dp\<in>set (parts ! m). packet_ready dp" using send(5) by auto
    with send(3,8) old [OF send(7)] have "crew_ok ports (length (callers p)) v"
      by (auto simp: crew_ok_def handlePackets_def split: if_splits)
    with send assms(3) crew show ?thesis by (auto elim: set_update_cases)
  next
    case (work i wi rest s)
    have w: "crew_ok ports (length (callers p)) (workers p ! i)" using crew work by simp
    then obtain s' where "assemble_all (wi_dps wi) (wstate (workers p ! i)) = Some s'" "worker_ok ports s'"
      using assemble_all_ok [of ports "wstate (workers p ! i)" "wi_dps wi"] work by (auto simp: crew_ok_def)
    with w work have "crew_ok ports (length (callers p)) \<lparr>wstate = s, wiCh = rest, wpc = Signalling (wi_done wi)\<rparr>"
      by (auto simp: crew_ok_def)
    with work assms(3) crew show ?thesis by (auto elim: set_update_cases)
  next
    case (signal i k)
    then have "crew_ok ports (length (callers p)) ((workers p ! i)\<lparr>wpc := Selecting\<rparr>)" using old [of i] by (auto simp: crew_ok_def)
    with signal assms(3) crew show ?thesis by (auto elim: set_update_cases)
  next
    case (tick i keys s)
    have w: "crew_ok ports (length (callers p)) (workers p ! i)" using crew tick by simp
    with worker_tick_ok [of ports "wstate (workers p ! i)" keys] tick have "crew_ok ports (length (callers p)) ((workers p ! i)\<lparr>wstate := s\<rparr>)"
      by (auto simp: crew_ok_def)
    with tick assms(3) crew show ?thesis by (auto elim: set_update_cases)
  qed (use assms(3) crew in auto)
qed

lemma callers_step:
  assumes "step p l q" and "pool_inv ports p" and "label_ready l" and "c \<in> set (callers q)"
  shows "caller_ok (length (workers p)) c"
proof -
  let ?ok = "caller_ok (length (workers p))"
  have cs: "\<forall>c\<in>set (callers p). ?ok c" and n: "0 < length (workers p)"
    using assms(2) by (auto simp: pool_inv_def)
  have old: "j < length (callers p) \<Longrightarrow> ?ok (callers p ! j)" for j using cs by simp
  from assms(1) show ?thesis
  proof cases
    case (call j dps parts)
    with assms(3) have "?ok (Sending 0 parts 0 0)" by (auto simp: partition_eq [OF n])
    with call assms(4) cs show ?thesis by (auto elim: set_update_cases)
  next
    case (signal i k)
    have "?ok (add_token (callers p ! k))" using old [OF signal(5)] by (cases "callers p ! k") auto
    with signal assms(4) cs show ?thesis by (auto elim: set_update_cases)
  next
    case (skip j i parts m t)
    with old [of j] have "?ok (Sending (Suc i) parts m t)" by auto
    with skip assms(4) cs show ?thesis by (auto elim!: set_update_cases simp del: caller_ok.simps)
  next
    case (send j i parts m t err w)
    with old [of j] have "?ok (Sending (Suc i) parts (Suc m) t)" by auto
    with send assms(4) cs show ?thesis by (auto elim!: set_update_cases simp del: caller_ok.simps)
  next
    case (wait j parts m t)
    with old [of j] have "?ok (Waiting m t)" by auto
    with wait assms(4) cs show ?thesis by (auto elim!: set_update_cases simp del: caller_ok.simps)
  next
    case (receive j m t)
    with old [of j] have "?ok (Waiting m t)" by auto
    with receive assms(4) cs show ?thesis by (auto elim!: set_update_cases simp del: caller_ok.simps)
  qed (use assms(4) cs in \<open>auto elim!: set_update_cases\<close>)
qed

lemma pool_inv_step:
  assumes "step p l q" and "pool_inv ports p" and "label_ready l"
  shows "pool_inv ports q"
proof -
  have len: "length (callers q) = length (callers p)" "length (workers q) = length (workers p)"
    using assms(1) by (cases, simp_all)+
  have "0 \<le> short j q" if "j < length (callers p)" for j
    using short_step [OF assms(1) _ that] assms(2) that by (auto simp: pool_inv_def)
  then show ?thesis
    using queues_step [OF assms(1,2)] crew_step [OF assms(1,2)] callers_step [OF assms] assms(2) len
    unfolding pool_inv_def by (metis length_greater_0_conv)
qed

lemma pool_inv_run:
  "\<lbrakk> run p ls q; pool_inv ports p; \<forall>l\<in>set ls. label_ready l \<rbrakk> \<Longrightarrow> pool_inv ports q"
  by (induction rule: runs.induct) (auto intro: pool_inv_step)

section \<open>Queues do not overflow when there are few callers\<close>

lemma length_by_caller:
  "\<forall>x\<in>set xs. f x < (n :: nat) \<Longrightarrow> length xs = (\<Sum>j<n. length (filter (\<lambda>x. f x = j) xs))"
proof (induction xs)
  case (Cons x xs)
  have "(\<Sum>j<n. length (filter (\<lambda>y. f y = j) (x # xs))) = (\<Sum>j<n. (if j = f x then 1 else 0) + length (filter (\<lambda>y. f y = j) xs))"
    by (intro sum.cong) auto
  moreover have "(\<Sum>j<n. if j = f x then 1 else 0) = (1 :: nat)"
    using Cons.prems by (subst sum.delta) auto
  ultimately show ?case using Cons by (simp add: sum.distrib del: sum.delta)
qed simp

lemma queue_room:
  assumes "pool_inv ports p" and "j < length (callers p)" and "callers p ! j = Sending i parts n t" and "i < length (workers p)"
  shows "length (wiCh (workers p ! i)) < length (callers p)"
proof -
  have "\<forall>wi\<in>set (wiCh (workers p ! i)). wi_done wi < length (callers p)"
    using assms(1,4) by (auto simp: pool_inv_def crew_ok_def)
  then have "length (wiCh (workers p ! i)) = (\<Sum>k<length (callers p). queued k (workers p ! i))"
    unfolding queued_def by (rule length_by_caller)
  also have "\<dots> \<le> (\<Sum>k<length (callers p). of_bool (k \<noteq> j))"
  proof (intro sum_mono)
    fix k assume "k \<in> {..<length (callers p)}"
    with assms have "queued k (workers p ! i) \<le> of_bool (sent_to i (callers p ! k))" by (simp add: pool_inv_def)
    then show "queued k (workers p ! i) \<le> of_bool (k \<noteq> j)" using assms(3) by (cases "k = j") (auto simp: of_bool_def split: if_splits)
  qed
  also have "\<dots> < (\<Sum>k<length (callers p). 1)" using assms(2) by (intro sum_strict_mono_ex1) (auto simp: of_bool_def)
  finally show ?thesis by simp
qed

text \<open>Every step of a call or a worker that is neither a new call nor a tick uses up some of this.\<close>

fun caller_weight :: "caller \<Rightarrow> nat" where
  "caller_weight Outside = 0"
| "caller_weight (Sending i parts n t) = 5 * (length parts - i) + t + 2"
| "caller_weight (Waiting n t) = t + 1"

definition worker_weight :: "worker \<Rightarrow> nat" where
  "worker_weight w = 3 * length (wiCh w) + (if wpc w = Selecting then 0 else 2)"

definition weight :: "Pool \<Rightarrow> nat" where
  "weight p = (\<Sum>c\<leftarrow>callers p. caller_weight c) + (\<Sum>w\<leftarrow>workers p. worker_weight w)"

fun external :: "label \<Rightarrow> bool" where
  "external (Called j dps) = True"
| "external (Ticked i) = True"
| "external _ = False"

lemma caller_weight_token: "caller_weight (add_token c) \<le> caller_weight c + 1"
  by (cases c) auto

lemma handlePackets_weight: "handlePackets dps j w = (err, w') \<Longrightarrow> worker_weight w' \<le> worker_weight w + 3"
  by (auto simp: handlePackets_def worker_weight_def split: if_splits)

lemma weight_decreases:
  assumes "step p l q" and "\<not> external l"
  shows "weight q < weight p"
  using assms(1)
proof cases
  case (call j dps parts)
  with assms(2) show ?thesis by simp
next
  case (send j i parts n t err w)
  with sum_list_update_nat [of i "workers p" worker_weight w] sum_list_update_nat [of j "callers p" caller_weight "Sending (Suc i) parts (Suc n) t"]
    handlePackets_weight [OF send(8)] show ?thesis by (simp add: weight_def)
next
  case (work i wi rest s)
  with sum_list_update_nat [of i "workers p" worker_weight "\<lparr>wstate = s, wiCh = rest, wpc = Signalling (wi_done wi)\<rparr>"] show ?thesis
    by (simp add: weight_def worker_weight_def)
next
  case (signal i j)
  have "worker_weight ((workers p ! i)\<lparr>wpc := Selecting\<rparr>) + 2 = worker_weight (workers p ! i)"
    using signal by (simp add: worker_weight_def)
  with signal sum_list_update_nat [of i "workers p" worker_weight "(workers p ! i)\<lparr>wpc := Selecting\<rparr>"]
    sum_list_update_nat [of j "callers p" caller_weight "add_token (callers p ! j)"] caller_weight_token [of "callers p ! j"] show ?thesis
    by (simp add: weight_def)
next
  case (skip j i parts n t)
  with sum_list_update_nat [of j "callers p" caller_weight "Sending (Suc i) parts n t"] show ?thesis by (simp add: weight_def)
next
  case (wait j parts n t)
  with sum_list_update_nat [of j "callers p" caller_weight "Waiting n t"] show ?thesis by (simp add: weight_def)
next
  case (receive j n t)
  with sum_list_update_nat [of j "callers p" caller_weight "Waiting n t"] show ?thesis by (simp add: weight_def)
next
  case (return j t)
  with sum_list_update_nat [of j "callers p" caller_weight Outside] show ?thesis by (simp add: weight_def)
next
  case (tick i keys s)
  with assms(2) show ?thesis by simp
qed

section \<open>Progress\<close>

text \<open>While the workers have nothing to do, a caller inside can go on.\<close>

lemma caller_progress:
  assumes j: "j < length (callers p)" "callers p ! j \<noteq> Outside" and ok: "caller_ok (length (workers p)) (callers p ! j)"
    and short: "short j p = 0" and idle: "\<forall>w\<in>set (workers p). wpc w = Selecting \<and> wiCh w = []"
  shows "\<exists>l q. step p l q \<and> \<not> external l"
proof (cases "callers p ! j")
  case (Sending i parts n t)
  then have parts: "length parts = length (workers p)" "i \<le> length parts" using ok by auto
  obtain err w where hp: "handlePackets (parts ! i) j (workers p ! i) = (err, w)" by fastforce
  consider "i = length parts" | "i < length parts" "parts ! i = []" | "i < length parts" "parts ! i \<noteq> []" using parts(2) by linarith
  then show ?thesis
  proof cases
    case 1
    with step.wait [OF j(1)] Sending show ?thesis by (metis external.simps(7))
  next
    case 2
    with step.skip [OF j(1) Sending] show ?thesis by (metis external.simps(7))
  next
    case 3
    with step.send [OF j(1) Sending 3 _ hp] parts(1) show ?thesis by (metis external.simps(3,4))
  qed
next
  case (Waiting n t)
  have none: "(\<Sum>w\<leftarrow>workers p. holds j w) = 0" using idle by (auto simp: holds_def)
  have t: "t = n" using short unfolding short_def outstanding_def none Waiting by simp
  show ?thesis
  proof (cases n)
    case 0
    with step.return [OF j(1)] Waiting show ?thesis by (metis external.simps(5))
  next
    case (Suc m)
    with step.receive [OF j(1), of m m] Waiting t show ?thesis by (metis external.simps(7))
  qed
qed (use j in simp)

lemma pool_progress:
  assumes inv: "pool_inv ports p" and short: "\<forall>j<length (callers p). short j p = 0" and j: "j < length (callers p)" "callers p ! j \<noteq> Outside"
  shows "\<exists>l q. step p l q \<and> \<not> external l"
proof -
  have old: "i < length (workers p) \<Longrightarrow> crew_ok ports (length (callers p)) (workers p ! i)" for i using inv by (simp add: pool_inv_def)
  have cs: "k < length (callers p) \<Longrightarrow> caller_ok (length (workers p)) (callers p ! k)" for k using inv by (simp add: pool_inv_def)
  consider (sig) i k where "i < length (workers p)" "wpc (workers p ! i) = Signalling k"
    | (item) i wi rest where "i < length (workers p)" "wpc (workers p ! i) = Selecting" "wiCh (workers p ! i) = wi # rest"
    | (idle) "\<forall>w\<in>set (workers p). wpc w = Selecting \<and> wiCh w = []"
    by (metis in_set_conv_nth list.exhaust worker_pc.exhaust)
  then show ?thesis
  proof cases
    case (sig i k)
    then have k: "k < length (callers p)" using old [of i] by (simp add: crew_ok_def)
    have "1 \<le> holds k (workers p ! i)" using sig by (simp add: holds_def)
    then have "tokens (callers p ! k) < due (callers p ! k)"
      using sum_member [OF sig(1), of "holds k"] short k unfolding short_def outstanding_def by fastforce
    moreover have "due (callers p ! k) \<le> length (workers p)" using cs [OF k] by (cases "callers p ! k") auto
    ultimately show ?thesis using step.signal [OF sig k] by (metis external.simps(7) less_le_trans)
  next
    case (item i wi rest)
    then have "\<forall>dp\<in>set (wi_dps wi). packet_ready dp" "worker_ok ports (wstate (workers p ! i))"
      using old [of i] by (auto simp: crew_ok_def)
    then obtain s where "assemble_all (wi_dps wi) (wstate (workers p ! i)) = Some s" using assemble_all_ok by blast
    from step.work [OF item this] show ?thesis by (metis external.simps(6))
  next
    case idle
    with caller_progress [OF j cs [OF j(1)]] short j(1) show ?thesis by blast
  qed
qed

text \<open>The states in which nothing has been dropped and nothing can be.\<close>

definition unhurried :: "int list \<Rightarrow> Pool \<Rightarrow> bool" where
  "unhurried ports p \<longleftrightarrow> pool_inv ports p \<and> length (callers p) \<le> wiChCap \<and> (\<forall>j<length (callers p). short j p = 0)"

lemma never_full:
  assumes "step p l q" and "unhurried ports p"
  shows "l \<noteq> Dropped j i"
proof
  assume l: "l = Dropped j i"
  have inv: "pool_inv ports p" "length (callers p) \<le> wiChCap" using assms(2) by (auto simp: unhurried_def)
  from assms(1) show False
  proof cases
    case (send k m parts n t err w)
    from queue_room [OF inv(1) send(3,4,7)] send(1,8) l inv(2) show False by (auto simp: handlePackets_def split: if_splits)
  qed (use l in auto)
qed

lemma unhurried_step:
  assumes "step p l q" and "unhurried ports p" and "label_ready l"
  shows "unhurried ports q"
proof -
  have inv: "pool_inv ports p" "length (callers p) \<le> wiChCap" "\<forall>j<length (callers p). short j p = 0" using assms(2) by (auto simp: unhurried_def)
  have "length (callers q) = length (callers p)" using assms(1) by cases simp_all
  moreover have "short j q = 0" if "j < length (callers p)" for j
    using short_step [OF assms(1) _ that] inv(3) never_full [OF assms(1,2)] that by simp
  ultimately show ?thesis using pool_inv_step [OF assms(1) inv(1) assms(3)] inv(2) by (simp add: unhurried_def)
qed

lemma unhurried_New: "\<lbrakk> 0 < n; m \<le> wiChCap \<rbrakk> \<Longrightarrow> unhurried ports (New ports n m)"
  using pool_inv_New [of n ports m] short_New by (auto simp: unhurried_def New_def)

lemma unhurried_run: "\<lbrakk> run p ls q; unhurried ports p; \<forall>l\<in>set ls. label_ready l \<rbrakk> \<Longrightarrow> unhurried ports q"
  by (rule runs_invariant [of step p ls q]) (auto intro: unhurried_step)

lemma no_drops: "\<lbrakk> run p ls q; unhurried ports p; \<forall>l\<in>set ls. label_ready l \<rbrakk> \<Longrightarrow> Dropped j i \<notin> set ls"
proof (induction rule: runs.induct)
  case (runs_snoc p ls q l r)
  with never_full [OF runs_snoc.hyps(2) unhurried_run [OF runs_snoc.hyps(1)]] show ?case by auto
qed simp

lemma inner_ready: "\<not> external l \<Longrightarrow> label_ready l"
  by (cases l) auto

interpretation assembly: winding_down step "unhurried ports" external weight "\<lambda>p. \<forall>j<length (callers p). callers p ! j = Outside" for ports
proof
  show "unhurried ports q" if "step p l q" "unhurried ports p" "\<not> external l" for p l q
    using unhurried_step that inner_ready by blast
  show "weight q < weight p" if "step p l q" "unhurried ports p" "\<not> external l" for p l q
    using weight_decreases that by blast
  show "\<exists>l q. step p l q \<and> \<not> external l" if "unhurried ports p" "\<not> (\<forall>j<length (callers p). callers p ! j = Outside)" for p
    using pool_progress [of ports p] that unfolding unhurried_def by blast
qed

section \<open>Properties\<close>

text \<open>
  C14.  Packets are distributed by connection.  Each worker gets exactly the packets whose hash selects it, in their order, so no packet is lost or
  duplicated and the packets of a connection, whose two directions have the same hash, all reach one worker in order.
\<close>

theorem partition_by_connection:
  assumes "0 < numWorkers"
  shows "\<exists>parts. partition numWorkers dps = Some parts \<and> length parts = numWorkers \<and> mset (concat parts) = mset dps \<and>
    (\<forall>i<numWorkers. parts ! i = filter (\<lambda>dp. unat (FlowHash dp mod of_nat numWorkers) = i) dps)"
proof -
  obtain m where m: "numWorkers = Suc m" using assms by (cases numWorkers) auto
  have eq: "hashed.slot_of m = (\<lambda>dp. unat (FlowHash dp mod of_nat numWorkers))"
    by (simp add: hashed.slot_of_def slot_def m fun_eq_iff)
  have "partition numWorkers dps = Some (map (\<lambda>i. filter (\<lambda>dp. unat (FlowHash dp mod of_nat numWorkers) = i) dps) [0..<numWorkers])"
    using hashed.scatter_empty [of m dps] unfolding partition_def m eq [unfolded m] .
  moreover have "mset (concat (map (\<lambda>i. filter (\<lambda>dp. unat (FlowHash dp mod of_nat numWorkers) = i) dps) [0..<numWorkers])) = mset dps"
    using hashed.parts_mset [of m dps] unfolding m eq [unfolded m] .
  ultimately show ?thesis by simp
qed

theorem partition_by_connection_witness:
  "\<exists>parts. partition 8 [newDecodedPacket] = Some parts \<and> length parts = 8 \<and> mset (concat parts) = {#newDecodedPacket#} \<and>
    parts ! 0 = [newDecodedPacket]"
  using partition_by_connection [of 8 "[newDecodedPacket]"] by (auto simp: newDecodedPacket_def)


text \<open>A pool with one worker in which caller \<open>0\<close> handles an empty batch.\<close>

lemma empty_call: "\<exists>p q. run (New [] 1 1) [Called 0 [], Internal, Internal] p \<and> step p (Returned 0) q"
proof -
  let ?p0 = "New [] 1 1"
  let ?p1 = "?p0\<lparr>callers := [Sending 0 [[]] 0 0]\<rparr>" and ?p2 = "?p0\<lparr>callers := [Sending 1 [[]] 0 0]\<rparr>" and ?p3 = "?p0\<lparr>callers := [Waiting 0 0]\<rparr>"
  have "step ?p0 (Called 0 []) ?p1" using step.call [of 0 ?p0 "[]" "[[]]"] by (simp add: New_def partition_def)
  moreover have "step ?p1 Internal ?p2" using step.skip [of 0 ?p1 0 "[[]]" 0 0] by (simp add: New_def)
  moreover have "step ?p2 Internal ?p3" using step.wait [of 0 ?p2 "[[]]" 0 0] by (simp add: New_def)
  ultimately have "run ?p0 ((([] @ [Called 0 []]) @ [Internal]) @ [Internal]) ?p3" by (blast intro: runs.intros)
  then have "run ?p0 [Called 0 [], Internal, Internal] ?p3" by simp
  moreover have "step ?p3 (Returned 0) (?p3\<lparr>callers := (callers ?p3)[0 := Outside]\<rparr>)" by (rule step.return) (simp_all add: New_def)
  ultimately show ?thesis by blast
qed


text \<open>
  C16.  With at most 128 callers, as many as a queue has places, no batch is ever refused and every call returns: after any history, whatever
  the scheduler does, only finitely many steps are possible before the next call or tick, and as long as some call has not
  returned one of them is possible.
\<close>

theorem few_callers_return:
  assumes "run (New ports numWorkers numCallers) ls p" and "\<forall>l\<in>set ls. label_ready l" and "0 < numWorkers" and "numCallers \<le> 128"
  shows "(\<forall>j i. Dropped j i \<notin> set ls) \<and>
    (\<exists>bound. \<forall>ms q. run p ms q \<longrightarrow> (\<forall>l\<in>set ms. \<not> external l) \<longrightarrow> length ms \<le> bound \<and>
       ((\<forall>j<numCallers. callers q ! j = Outside) \<or> (\<exists>l r. step q l r \<and> \<not> external l)))"
proof -
  have new: "unhurried ports (New ports numWorkers numCallers)" using unhurried_New [OF assms(3)] assms(4) by (simp add: wiChCap_def)
  from unhurried_run [OF assms(1) this assms(2)] have p: "unhurried ports p" .
  have len: "length (callers q) = numCallers" if "run p ms q" for ms q
  proof -
    have "run (New ports numWorkers numCallers) (ls @ ms) q" using assms(1) that by (auto simp: runs_append_iff)
    from short_run [OF this] short_New show ?thesis by (auto simp: New_def)
  qed
  have "length ms \<le> weight p \<and> ((\<forall>j<numCallers. callers q ! j = Outside) \<or> (\<exists>l r. step q l r \<and> \<not> external l))"
    if "run p ms q" "\<forall>l\<in>set ms. \<not> external l" for ms q
    using assembly.bounded [OF that(1) p that(2)] assembly.not_stuck [OF that(1) p that(2)] len [OF that(1)] by auto
  then show ?thesis using no_drops [OF assms(1) new assms(2)] by blast
qed

theorem few_callers_return_witness:
  "\<exists>p. run (New [] 1 1) [Called 0 [], Internal, Internal] p \<and>
     (\<exists>bound. \<forall>ms q. run p ms q \<longrightarrow> (\<forall>l\<in>set ms. \<not> external l) \<longrightarrow> length ms \<le> bound \<and>
       ((\<forall>j<1. callers q ! j = Outside) \<or> (\<exists>l r. step q l r \<and> \<not> external l)))"
proof -
  obtain p where p: "run (New [] 1 1) [Called 0 [], Internal, Internal] p" using empty_call by blast
  moreover have "\<exists>bound. \<forall>ms q. run p ms q \<longrightarrow> (\<forall>l\<in>set ms. \<not> external l) \<longrightarrow> length ms \<le> bound \<and>
       ((\<forall>j<1. callers q ! j = Outside) \<or> (\<exists>l r. step q l r \<and> \<not> external l))"
    by (rule few_callers_return [OF p, THEN conjunct2]) simp_all
  ultimately show ?thesis by blast
qed

lemma short_blocks:
  "\<lbrakk> run p ms r; \<forall>j<length (callers p). 0 \<le> short j p; j < length (callers p); 0 < short j p \<rbrakk>
   \<Longrightarrow> Returned j \<notin> set ms \<and> 0 < short j r \<and> (\<forall>j<length (callers p). 0 \<le> short j r) \<and> length (callers r) = length (callers p)"
proof (induction rule: runs.induct)
  case (runs_snoc p ms q l r)
  then have q: "\<forall>j<length (callers q). 0 \<le> short j q" "0 < short j q" "length (callers q) = length (callers p)" "Returned j \<notin> set ms" by auto
  have "l \<noteq> Returned j"
  proof
    assume "l = Returned j"
    with runs_snoc.hyps(2) obtain t where "callers q ! j = Waiting 0 t" by cases (auto split: if_splits)
    with q(2) show False by (simp add: short_def)
  qed
  moreover have "length (callers r) = length (callers q)" using runs_snoc.hyps(2) by cases simp_all
  ultimately show ?case using short_step [OF runs_snoc.hyps(2) q(1)] q runs_snoc.prems(2) by auto
qed simp

text \<open>
  C36.  A batch that a full queue refuses blocks its caller for ever: the batch is counted as sent although no worker will signal it, so
  the call does not return in any continuation.
\<close>

theorem full_queue_blocks_caller:
  assumes "run (New ports numWorkers numCallers) ls p" and "step p (Dropped j i) q" and "run q ms r"
  shows "Returned j \<notin> set ms \<and> callers r ! j \<noteq> Outside"
proof -
  let ?p0 = "New ports numWorkers numCallers"
  have "\<forall>j<length (callers ?p0). short j ?p0 = 0" using short_New by (simp add: New_def)
  from short_run [OF assms(1) this] have p: "\<forall>j<length (callers p). 0 \<le> short j p" by simp
  have j: "j < length (callers p)" using assms(2) by cases (auto split: if_splits)
  have "length (callers q) = length (callers p)" using assms(2) by cases simp_all
  with short_blocks [OF assms(3), of j] short_step [OF assms(2) p] p j have "Returned j \<notin> set ms" "0 < short j r" by auto
  then show ?thesis by (auto simp: short_def)
qed

text \<open>Callers \<open>0\<close> to \<open>127\<close> fill the queue of a worker that does not get to run; caller \<open>128\<close> finds it full.\<close>

lemma fill_queue:
  "k \<le> 128 \<Longrightarrow> \<exists>ls p. run (New [] 1 129) ls p \<and> length (workers p) = 1 \<and> length (callers p) = 129 \<and> length (wiCh (workers p ! 0)) = k \<and>
     (\<forall>j. k \<le> j \<longrightarrow> j < 129 \<longrightarrow> callers p ! j = Outside)"
proof (induction k)
  case 0
  have "run (New [] 1 129) [] (New [] 1 129)" by (rule runs_nil)
  then show ?case by (intro exI [of _ "[]"] exI [of _ "New [] 1 129"]) (simp add: New_def startWorker_def)
next
  case (Suc k)
  then obtain ls p where p: "run (New [] 1 129) ls p" "length (workers p) = 1" "length (callers p) = 129" "length (wiCh (workers p ! 0)) = k"
    "\<forall>j. k \<le> j \<longrightarrow> j < 129 \<longrightarrow> callers p ! j = Outside" by auto
  have part: "partition 1 [newDecodedPacket] = Some [[newDecodedPacket]]"
    by (simp add: partition_def slot_def append_at_def newDecodedPacket_def)
  define q where "q = p\<lparr>callers := (callers p)[k := Sending 0 [[newDecodedPacket]] 0 0]\<rparr>"
  have "step p (Called k [newDecodedPacket]) q"
    unfolding q_def using p Suc.prems part by (intro step.call) simp_all
  moreover obtain w where w: "handlePackets [newDecodedPacket] k (workers q ! 0) = (None, w)" "length (wiCh w) = Suc k"
    using p(4) Suc.prems by (simp add: handlePackets_def q_def wiChCap_def)
  define r where "r = q\<lparr>workers := (workers q)[0 := w], callers := (callers q)[k := Sending 1 [[newDecodedPacket]] 1 0]\<rparr>"
  have "step q (Sent k 0) r"
    using step.send [of k q 0 "[[newDecodedPacket]]" 0 0 None w] w(1) p Suc.prems by (simp add: q_def r_def)
  ultimately have "run (New [] 1 129) ((ls @ [Called k [newDecodedPacket]]) @ [Sent k 0]) r" using p(1) by (blast intro: runs.intros)
  moreover have "length (workers r) = 1 \<and> length (callers r) = 129 \<and> length (wiCh (workers r ! 0)) = Suc k \<and>
     (\<forall>j. Suc k \<le> j \<longrightarrow> j < 129 \<longrightarrow> callers r ! j = Outside)"
    using p w(2) by (simp add: r_def q_def)
  ultimately show ?case by blast
qed

theorem full_queue_blocks_caller_witness:
  "\<exists>ls p q. run (New [] 1 129) ls p \<and> step p (Dropped 128 0) q \<and>
     (\<forall>ms r. run q ms r \<longrightarrow> Returned 128 \<notin> set ms \<and> callers r ! 128 \<noteq> Outside)"
proof -
  obtain ls p where p: "run (New [] 1 129) ls p" "length (workers p) = 1" "length (callers p) = 129" "length (wiCh (workers p ! 0)) = 128"
    "callers p ! 128 = Outside" using fill_queue [of 128] by auto
  define q where "q = p\<lparr>callers := (callers p)[128 := Sending 0 [[newDecodedPacket]] 0 0]\<rparr>"
  have part: "partition 1 [newDecodedPacket] = Some [[newDecodedPacket]]"
    by (simp add: partition_def slot_def append_at_def newDecodedPacket_def)
  have "step p (Called 128 [newDecodedPacket]) q"
    unfolding q_def using p part by (intro step.call) simp_all
  then have run: "run (New [] 1 129) (ls @ [Called 128 [newDecodedPacket]]) q" using p(1) by (rule runs_snoc [rotated])
  have "handlePackets [newDecodedPacket] 128 (workers q ! 0) = (Some errQueueFull, workers q ! 0)"
    using p(4) by (simp add: handlePackets_def q_def wiChCap_def)
  with step.send [of 128 q 0 "[[newDecodedPacket]]" 0 0 "Some errQueueFull" "workers q ! 0"] p
  obtain r where r: "step q (Dropped 128 0) r" by (auto simp: q_def)
  with run full_queue_blocks_caller [OF run r] show ?thesis by blast
qed

text \<open>
  C35.  Two batches may be assembled in the opposite order.  The decode workers call \<open>HandlePackets\<close> independently, so of two batches captured one after
  the other the later one can reach the same assembly worker first: a connection that spans both is then assembled out of order, and as the
  assembler buffers nothing its earlier data counts as lost.
\<close>

theorem batches_may_swap:
  assumes "packet_ready first" and "packet_ready second"
  shows "\<exists>p. run (New ports 1 2)
    [Called 0 [first], Called 1 [second], Sent 1 0, Sent 0 0, Assembled 0 [second], Internal, Assembled 0 [first]] p"
proof -
  let ?w = "startWorker ports"
  let ?a = "\<lparr>wi_dps = [first], wi_done = 0\<rparr>" and ?b = "\<lparr>wi_dps = [second], wi_done = 1\<rparr>"
  have part: "partition 1 [dp] = Some [[dp]]" for dp
    by (simp add: partition_def slot_def append_at_def)
  obtain s where s: "assemble_all [second] (wstate ?w) = Some s" "worker_ok ports s"
    using assemble_all_ok [OF worker_ok_new, of "[second]" ports] assms(2) by (auto simp: startWorker_def)
  obtain s' where s': "assemble_all [first] s = Some s'"
    using assemble_all_ok [OF s(2), of "[first]"] assms(1) by auto
  have w: "wiCh ?w = []" "wpc ?w = Selecting" by (simp_all add: startWorker_def)
  define p1 where "p1 = \<lparr>workers = [?w], callers = [Sending 0 [[first]] 0 0, Outside]\<rparr>"
  define p2 where "p2 = \<lparr>workers = [?w], callers = [Sending 0 [[first]] 0 0, Sending 0 [[second]] 0 0]\<rparr>"
  define p3 where "p3 = \<lparr>workers = [?w\<lparr>wiCh := [?b]\<rparr>], callers = [Sending 0 [[first]] 0 0, Sending 1 [[second]] 1 0]\<rparr>"
  define p4 where "p4 = \<lparr>workers = [?w\<lparr>wiCh := [?b, ?a]\<rparr>], callers = [Sending 1 [[first]] 1 0, Sending 1 [[second]] 1 0]\<rparr>"
  define p5 where "p5 = \<lparr>workers = [\<lparr>wstate = s, wiCh = [?a], wpc = Signalling 1\<rparr>], callers = [Sending 1 [[first]] 1 0, Sending 1 [[second]] 1 0]\<rparr>"
  define p6 where "p6 = \<lparr>workers = [\<lparr>wstate = s, wiCh = [?a], wpc = Selecting\<rparr>], callers = [Sending 1 [[first]] 1 0, Sending 1 [[second]] 1 1]\<rparr>"
  have "step (New ports 1 2) (Called 0 [first]) p1"
    using step.call [of 0 "New ports 1 2" "[first]" "[[first]]"] part by (simp add: New_def p1_def numeral_2_eq_2)
  moreover have "step p1 (Called 1 [second]) p2"
    using step.call [of 1 p1 "[second]" "[[second]]"] part by (simp add: p1_def p2_def)
  moreover have "step p2 (Sent 1 0) p3"
    using step.send [of 1 p2 0 "[[second]]" 0 0 None "?w\<lparr>wiCh := [?b]\<rparr>"] w
    by (simp add: p2_def p3_def handlePackets_def wiChCap_def)
  moreover have "step p3 (Sent 0 0) p4"
    using step.send [of 0 p3 0 "[[first]]" 0 0 None "?w\<lparr>wiCh := [?b, ?a]\<rparr>"] w
    by (simp add: p3_def p4_def handlePackets_def wiChCap_def)
  moreover have "step p4 (Assembled 0 [second]) p5"
    using step.work [of 0 p4 ?b "[?a]" s] w s(1) by (simp add: p4_def p5_def)
  moreover have "step p5 Internal p6"
    using step.signal [of 0 p5 1] by (simp add: p5_def p6_def)
  moreover have "\<exists>p7. step p6 (Assembled 0 [first]) p7"
    using step.work [of 0 p6 ?a "[]" s'] s' by (auto simp: p6_def)
  ultimately show ?thesis by (blast intro: runs_cons runs_nil)
qed

theorem batches_may_swap_witness:
  "\<exists>p. run (New [11211] 1 2)
    [Called 0 [newDecodedPacket], Called 1 [newDecodedPacket\<lparr>FlowHash := 1\<rparr>], Sent 1 0, Sent 0 0,
     Assembled 0 [newDecodedPacket\<lparr>FlowHash := 1\<rparr>], Internal, Assembled 0 [newDecodedPacket]] p"
proof -
  have "packet_ready newDecodedPacket" "packet_ready (newDecodedPacket\<lparr>FlowHash := 1\<rparr>)"
    using dp_ok_new by (simp_all add: packet_ready_def dp_ok_def newDecodedPacket_def zeroLayers_def zeroTCP_def whole_def maxcap_def)
  then show ?thesis by (rule batches_may_swap)
qed

end
