(* ===== verification/TcpGaps.thy ===== *)
theory TcpGaps
  imports TcpDelivery
begin

text \<open>
  Lost and recycled data: what the assembler reports when a packet is ahead of its connection, at the wrap-around of sequence numbers and on pages that
  have been used before.
\<close>

section \<open>Gaps\<close>

lemma Assemble_delivers:
  assumes "asm_ok a" and "conns a (netFlow, f) = Some conn" and "TCP_TransportFlow t = Some f" and "packet_bounds t" and "\<not> useless t"
  shows "\<exists>conn' ret a'. AssembleWithTimestamp ops netFlow t ts a = hand_over ops (netFlow, f) conn' ret a' \<and> delivery conn t ts ret conn' \<and>
    cache_ok a' \<and> same_conns a a'"
proof -
  have "quiet conn" "seq_ok (nextSeq conn)" "cache_ok a" "MaxBufferedPagesPerConnection a = 1"
    using assms(1,2) by (auto simp: asm_ok_def)
  with assembleInto_delivers [of a conn t ops "(netFlow, f)" ts] assms(4)
  obtain ret conn' a' where "assembleInto ops (netFlow, f) conn t ts a = hand_over ops (netFlow, f) conn' ret a'" "delivery conn t ts ret conn'"
    "cache_ok a'" "same_conns a a'" by blast
  with assms show ?thesis
    by (intro exI [of _ conn'] exI [of _ ret] exI [of _ a']) (auto simp: AssembleWithTimestamp_def getConnection_def useless_def)
qed


text \<open>A connection that expects byte 100 and a packet that starts at byte 110.\<close>

definition sample_flow :: Flow where
  "sample_flow = \<lparr>ftyp = EndpointTCPPort, slen = 2, dlen = 2, fsrc = raw_array ''ab'', fdst = raw_array ''cd''\<rparr>"

definition sample_segment_tcp :: "nat \<Rightarrow> TCP" where
  "sample_segment_tcp n = \<lparr>SrcPort = 0, DstPort = 0, Seq = n, Ack = 0, DataOffset = 5, FIN = False, SYN = False, RST = False, PSH = True,
     ACK = True, URG = False, ECE = False, CWR = False, NS = False, Window = 0, t_Checksum = 0, Urgent = 0, sPort = ''ab'', dPort = ''cd'',
     t_Options = [], t_Padding = [], t_Payload = whole ''data''\<rparr>"

definition sample_assembler :: "int \<Rightarrow> (nat, unit) Assembler" where
  "sample_assembler expected = (NewAssembler ())\<lparr>MaxBufferedPagesPerConnection := 1, MaxBufferedPagesTotal := 1,
     conns := [(sample_flow, sample_flow) \<mapsto> \<lparr>pages = [], npages = 0, nextSeq = expected, created = 0, lastSeen = 0, stream = 0\<rparr>]\<rparr>"

definition sample_ops :: "(nat, unit) stream_ops" where
  "sample_ops = \<lparr>New = \<lambda>_ _ w. Some (0, w), Reassembled = \<lambda>_ _ w. Some w, ReassemblyComplete = \<lambda>_ w. Some w\<rparr>"

lemma sample_assembler_ok: "\<lbrakk> 0 \<le> expected; expected \<le> uint32Max \<rbrakk> \<Longrightarrow> asm_ok (sample_assembler expected)"
  by (simp add: asm_ok_def cache_ok_def sample_assembler_def NewAssembler_def initialAllocSize_def zeroPage_def maxcap_def quiet_def seq_ok_def)

lemma sample_segment_facts:
  "TCP_TransportFlow (sample_segment_tcp n) = Some sample_flow" "n \<le> 4294967295 \<Longrightarrow> packet_bounds (sample_segment_tcp n)"
  "vis (t_Payload (sample_segment_tcp n)) = ''data''" "Seq (sample_segment_tcp n) = n"
  by (simp_all add: sample_segment_tcp_def sample_flow_def TCP_TransportFlow_def NewFlow_def MaxEndpointSize_def packet_bounds_def
      uint32Max_def whole_def maxcap_def)


text \<open>
  C39.  Across the wrap-around of sequence numbers one byte too few is reported: \<open>Difference\<close> adds \<open>uint32Max\<close> instead of the modulus, so the stream is told
  of one missing byte less than there are, and a single missing byte is not reported at all.
\<close>

theorem wraparound_gap_short:
  assumes "asm_ok a" and "conns a (netFlow, f) = Some conn" and "TCP_TransportFlow t = Some f" and "packet_bounds t"
    and "vis (t_Payload t) \<noteq> []" and "3221225472 < nextSeq conn" and "nextSeq conn \<le> uint32Max" and "int (Seq t) < 1073741823"
  shows "\<exists>conn' ret a'. AssembleWithTimestamp ops netFlow t ts a = hand_over ops (netFlow, f) conn' ret a' \<and> ret \<noteq> [] \<and>
    Skip (hd ret) = (int (Seq t) - nextSeq conn) mod 4294967296 - 1 \<and> concat (map Bytes ret) = vis (t_Payload t)"
proof -
  have eq: "(int (Seq t) - nextSeq conn) mod 4294967296 = int (Seq t) - nextSeq conn + 4294967296"
    using assms(6-8) by (subst mod_add_self2 [symmetric], subst mod_pos_pos_trivial) (auto simp: uint32Max_def)
  have d: "Difference (nextSeq conn) (int (Seq t)) = int (Seq t) - nextSeq conn + 4294967295" "nextSeq conn \<noteq> invalidSequence"
    using assms(6-8) by (auto simp: Difference_def uint32Max_def invalidSequence_def)
  obtain conn' ret a' where r: "AssembleWithTimestamp ops netFlow t ts a = hand_over ops (netFlow, f) conn' ret a'" "delivery conn t ts ret conn'"
    using Assemble_delivers [OF assms(1-4), of ops ts] assms(5) by (auto simp: useless_def)
  show ?thesis
  proof (cases "ahead (nextSeq conn) (int (Seq t))")
    case True
    with r(2) d have "gap_delivery (nextSeq conn) t ret" by (simp add: delivery_def Let_def)
    with r(1) d eq show ?thesis by (intro exI [of _ conn'] exI [of _ ret] exI [of _ a']) (auto simp: gap_delivery_def missing_def)
  next
    case False
    then have "int (Seq t) - nextSeq conn + 4294967295 = 0" using d assms(6-8) by (auto simp: ahead_def uint32Max_def)
    moreover from this have "byteSpan (nextSeq conn) (int (Seq t)) b = (b, Seq_Add (int (Seq t)) (int (length b)))" for b
      using d by (simp add: byteSpan_def Let_def Difference_swap [of "int (Seq t)"])
    ultimately show ?thesis using r d eq False by (intro exI [of _ conn'] exI [of _ ret] exI [of _ a']) (auto simp: delivery_def Let_def)
  qed
qed

theorem wraparound_gap_short_witness:
  "\<exists>conn' ret a'. AssembleWithTimestamp sample_ops sample_flow (sample_segment_tcp 0) 5 (sample_assembler 0xFFFFFFFF) =
      hand_over sample_ops (sample_flow, sample_flow) conn' ret a' \<and> Skip (hd ret) = 0 \<and> concat (map Bytes ret) = ''data''"
proof -
  obtain conn where conn: "conns (sample_assembler 0xFFFFFFFF) (sample_flow, sample_flow) = Some conn" "nextSeq conn = 0xFFFFFFFF"
    by (simp add: sample_assembler_def)
  from wraparound_gap_short [OF sample_assembler_ok this(1) sample_segment_facts(1,2), of 0 sample_ops 5] conn(2) show ?thesis
    by (auto simp: sample_segment_facts uint32Max_def)
qed

section \<open>Recycled pages\<close>

lemma pages_two:
  assumes "free a = p1 # p2 # rest" and "pageBytes < length bytes" and "length bytes \<le> 2 * pageBytes"
  shows "\<exists>q1 q2 a'. pagesFromTCP s bytes e ts a = Some ([q1, q2], a') \<and> free a' = rest \<and> cache_ok a' = cache_ok (a\<lparr>free := rest\<rparr>) \<and> same_conns a a' \<and>
    pseq q1 = s \<and> Bytes (reassembly q1) = take pageBytes bytes \<and>
    pseq q2 = Seq_Add s (int pageBytes) \<and> Bytes (reassembly q2) = drop pageBytes bytes \<and> Skip (reassembly q2) = Skip (reassembly p2) \<and>
    End (reassembly q2) = e"
proof -
  have m: "min (length bytes) pageBytes = pageBytes" "drop pageBytes bytes \<noteq> []"
    "min (length (drop pageBytes bytes)) pageBytes = length (drop pageBytes bytes)"
    using assms(2,3) by auto
  show ?thesis
    by (subst pagesFromTCP.simps, subst pagesFromTCP.simps)
      (use assms(1) m in \<open>simp add: pageCache_next_def Let_def cache_ok_def same_conns_def\<close>)
qed

text \<open>A packet of two pages that is ahead of its connection: the second page keeps the gap of its previous use.\<close>

lemma two_pages_delivered:
  assumes "cache_ok a" and "MaxBufferedPagesPerConnection a = 1" and "quiet conn" and "free a = p1 # p2 # rest" and "packet_bounds t"
    and "ahead (nextSeq conn) (int (Seq t))" and "nextSeq conn \<noteq> invalidSequence" and "seq_ok (nextSeq conn)"
    and "pageBytes < length (vis (t_Payload t))" and "length (vis (t_Payload t)) \<le> 2 * pageBytes"
  shows "\<exists>conn' r1 r2 q1 q2 a'. assembleInto ops k conn t ts a = hand_over ops k conn' [r1, r2] a' \<and> stream conn' = stream conn \<and>
    quiet conn' \<and> nextSeq conn' = Seq_Add (int (Seq t)) (int (length (vis (t_Payload t)))) \<and>
    Skip r1 = missing (nextSeq conn) (int (Seq t)) \<and> Skip r2 = Skip (reassembly p2) \<and> Bytes r1 @ Bytes r2 = vis (t_Payload t) \<and>
    End r2 = (RST t \<or> FIN t) \<and> free a' = q2 # q1 # rest \<and> reassembly q1 = r1 \<and> cache_ok a' \<and> same_conns a a'"
proof -
  let ?b = "vis (t_Payload t)" and ?s = "int (Seq t)"
  define c where "c = (if lastSeen conn < ts then conn\<lparr>lastSeen := ts\<rparr> else conn)"
  have c: "nextSeq c = nextSeq conn" "stream c = stream conn" "pages c = []" "npages c = 0"
    using assms(3) by (auto simp: c_def quiet_def)
  obtain q1 q2 b where q: "pagesFromTCP ?s ?b (RST t \<or> FIN t) ts a = Some ([q1, q2], b)" "free b = rest" "cache_ok b = cache_ok (a\<lparr>free := rest\<rparr>)"
    "same_conns a b" "pseq q1 = ?s" "Bytes (reassembly q1) = take pageBytes ?b" "pseq q2 = Seq_Add ?s (int pageBytes)"
    "Bytes (reassembly q2) = drop pageBytes ?b" "Skip (reassembly q2) = Skip (reassembly p2)" "End (reassembly q2) = (RST t \<or> FIN t)"
    using pages_two [OF assms(4,9,10)] by blast
  have len: "length (Bytes (reassembly q1)) = pageBytes" using q(6) assms(9) by simp
  let ?c1 = "c\<lparr>pages := [q1, q2], npages := 2\<rparr>"
  obtain r where r: "addNextFromConn ?c1 [] b = Some (?c1\<lparr>pages := [q2], npages := 1, nextSeq := Seq_Add ?s (int pageBytes)\<rparr>,
      [reassembly r], pageCache_replace r b)" "reassembly r = (reassembly q1)\<lparr>Skip := missing (nextSeq conn) ?s\<rparr>"
    using addNextFromConn_ahead [of ?c1 q1 "[q2]" "[]" b] assms(6) q(5) len c(1) by auto
  let ?c2 = "?c1\<lparr>pages := [q2], npages := 1, nextSeq := Seq_Add ?s (int pageBytes)\<rparr>"
  let ?c3 = "?c2\<lparr>pages := [], npages := 0, nextSeq := Seq_Add ?s (int (length ?b))\<rparr>"
  let ?a = "pageCache_replace q2 (pageCache_replace r b)"
  have ins: "insertIntoConn t c ts a = Some (?c2, [reassembly r], pageCache_replace r b)"
    using assms(2) q(1,4) r(1) c by (auto simp: insertIntoConn_def same_conns_def)
  have n: "int pageBytes + int (length ?b - pageBytes) = int (length ?b)" using assms(9) by simp
  have "addContiguous ?c2 [reassembly r] (pageCache_replace r b) = Some (?c3, [reassembly r, reassembly q2], ?a)"
    by (simp only: addContiguous_def, subst addContiguous_loop.simps)
      (simp add: q(7,8) n addNextFromConn_contiguous addContiguous_loop.simps [of 0])
  from sendToConnection_hand_over [OF this, of ops k] ins assms(6,7)
  have "assembleInto ops k conn t ts a = hand_over ops k ?c3 [reassembly r, reassembly q2] ?a"
    using c(1) by (auto simp: assembleInto_def Let_def ahead_def c_def [symmetric])
  moreover have "cache_ok ?a \<and> same_conns a ?a"
  proof -
    have "missing (nextSeq conn) ?s < maxcap"
      using assms(5,7,8) by (auto simp: missing_def packet_bounds_def intro!: Difference_bound)
    with assms(1,4) q(3,4,9) r(2) show ?thesis by (auto simp: cache_ok_def same_conns_def pageCache_replace_def)
  qed
  moreover have "Bytes (reassembly r) @ Bytes (reassembly q2) = ?b" using q(6,8) r(2) by simp
  ultimately show ?thesis using q(2,9,10) r(2) c
    by (intro exI [of _ ?c3] exI [of _ "reassembly r"] exI [of _ "reassembly q2"] exI [of _ r] exI [of _ q2] exI [of _ ?a])
      (auto simp: quiet_def pageCache_replace_def)
qed

definition two_pages :: "TCP \<Rightarrow> bool" where
  "two_pages t \<longleftrightarrow> 1900 < length (vis (t_Payload t)) \<and> length (vis (t_Payload t)) \<le> 3800 \<and> \<not> RST t \<and> \<not> FIN t"

text \<open>
  C106.  A gap is reported twice.  A page that goes back to the cache keeps its \<open>Skip\<close>, which is set again only for the first page of a packet.  When two packets of
  more than one page are each ahead of their connection, the second page of the second packet is therefore delivered with the gap that preceded
  the first packet, although its bytes follow those of the first page directly.
\<close>

theorem recycled_page_repeats_gap:
  assumes "asm_ok a" and "conns a (netFlow, f) = Some conn" and "TCP_TransportFlow t1 = Some f" and "TCP_TransportFlow t2 = Some f"
    and "packet_bounds t1" and "packet_bounds t2" and "two_pages t1" and "two_pages t2" and "free a = p1 # p2 # rest"
    and "1073741823 \<le> nextSeq conn" and "nextSeq conn < int (Seq t1)" and "int (Seq t1) + int (length (vis (t_Payload t1))) < int (Seq t2)"
    and "\<And>s rs w. \<exists>w'. Reassembled ops s rs w = Some w'"
  shows "\<exists>a1 conn' r1 r2 a2. AssembleWithTimestamp ops netFlow t1 ts a = Some a1 \<and>
    AssembleWithTimestamp ops netFlow t2 ts' a1 = hand_over ops (netFlow, f) conn' [r1, r2] a2 \<and>
    Bytes r1 @ Bytes r2 = vis (t_Payload t2) \<and>
    Skip r1 = int (Seq t2) - (int (Seq t1) + int (length (vis (t_Payload t1)))) \<and> Skip r2 = int (Seq t1) - nextSeq conn"
proof -
  have conn: "quiet conn" "seq_ok (nextSeq conn)" "cache_ok a" "MaxBufferedPagesPerConnection a = 1"
    using assms(1,2) by (auto simp: asm_ok_def)
  have big: "pageBytes < length (vis (t_Payload t))" "length (vis (t_Payload t)) \<le> 2 * pageBytes" "\<not> useless t"
    if "two_pages t" for t
    using that by (auto simp: two_pages_def pageBytes_def useless_def)
  have d: "Difference s n = n - s \<and> s \<noteq> invalidSequence" if "1073741823 \<le> s" "s < n" for s n
    using that by (auto simp: Difference_def uint32Max_def invalidSequence_def)
  define m where "m = int (Seq t1) + int (length (vis (t_Payload t1)))"
  have m: "Seq_Add (int (Seq t1)) (int (length (vis (t_Payload t1)))) = m" "1073741823 \<le> m" "m < int (Seq t2)"
    using assms(6,10-12) by (simp_all add: m_def Seq_Add_def packet_bounds_def uint32Max_def)
  have ah1: "ahead (nextSeq conn) (int (Seq t1))" "nextSeq conn \<noteq> invalidSequence" and ah2: "ahead m (int (Seq t2))" "m \<noteq> invalidSequence"
    using d [OF assms(10,11)] d [OF m(2,3)] assms(11) m(3) by (auto simp: ahead_def)
  have into: "AssembleWithTimestamp ops netFlow t ts a = assembleInto ops (netFlow, f) conn t ts a"
    if "conns a (netFlow, f) = Some conn" "TCP_TransportFlow t = Some f" "\<not> useless t" for t ts conn and a :: "('a, 'b) Assembler"
    using that by (auto simp: AssembleWithTimestamp_def getConnection_def useless_def)
  obtain c1 r1 r2 q1 q2 b where b: "assembleInto ops (netFlow, f) conn t1 ts a = hand_over ops (netFlow, f) c1 [r1, r2] b"
    "stream c1 = stream conn" "quiet c1" "nextSeq c1 = m" "Skip r1 = missing (nextSeq conn) (int (Seq t1))" "End r2 = (RST t1 \<or> FIN t1)"
    "free b = q2 # q1 # rest" "reassembly q1 = r1" "cache_ok b" "same_conns a b"
    using two_pages_delivered [OF conn(3,4,1) assms(9,5) ah1 conn(2) big(1,2) [OF assms(7)], of ops "(netFlow, f)" ts]
    unfolding m(1) by blast
  obtain w where w: "Reassembled ops (stream c1) [r1, r2] (world b) = Some w" using assms(13) by blast
  define a1 where "a1 = b\<lparr>world := w, conns := (conns b)((netFlow, f) \<mapsto> c1)\<rparr>"
  have a1: "AssembleWithTimestamp ops netFlow t1 ts a = Some a1"
    using into [OF assms(2,3) big(3) [OF assms(7)]] b(1,6) w assms(7) by (simp add: hand_over_def a1_def two_pages_def)
  have ok: "cache_ok a1" "MaxBufferedPagesPerConnection a1 = 1" "free a1 = q2 # q1 # rest" "conns a1 (netFlow, f) = Some c1"
    using b(7,9,10) conn(4) by (simp_all add: a1_def cache_ok_def same_conns_def)
  have "seq_ok (nextSeq c1)" using b(4) m assms(6) by (simp add: seq_ok_def packet_bounds_def)
  then obtain c2 s1 s2 a2 where "assembleInto ops (netFlow, f) c1 t2 ts' a1 = hand_over ops (netFlow, f) c2 [s1, s2] a2"
    "Skip s1 = missing m (int (Seq t2))" "Skip s2 = Skip r1" "Bytes s1 @ Bytes s2 = vis (t_Payload t2)"
    using two_pages_delivered [OF ok(1,2) b(3) ok(3) assms(6) _ _ _ big(1,2) [OF assms(8)], of ops "(netFlow, f)" ts'] ah2
    unfolding b(4,8) by blast
  moreover have "AssembleWithTimestamp ops netFlow t2 ts' a1 = assembleInto ops (netFlow, f) c1 t2 ts' a1"
    using into [OF ok(4) assms(4) big(3) [OF assms(8)]] by simp
  ultimately show ?thesis using a1 b(5) d [OF assms(10,11)] d [OF m(2,3)]
    by (auto simp: missing_def m_def)
qed

definition big_segment :: "nat \<Rightarrow> TCP" where
  "big_segment n = (sample_segment_tcp n)\<lparr>t_Payload := whole (replicate 2000 (CHR ''x''))\<rparr>"

lemma big_segment_facts:
  "TCP_TransportFlow (big_segment n) = Some sample_flow" "n \<le> 4294967295 \<Longrightarrow> packet_bounds (big_segment n)" "two_pages (big_segment n)"
  "Seq (big_segment n) = n" "length (vis (t_Payload (big_segment n))) = 2000"
  using sample_segment_facts(1) [of n]
  by (simp_all add: big_segment_def TCP_TransportFlow_def packet_bounds_def two_pages_def sample_segment_tcp_def uint32Max_def whole_def maxcap_def)

theorem recycled_page_repeats_gap_witness:
  "\<exists>a1 conn' r1 r2 a2. AssembleWithTimestamp sample_ops sample_flow (big_segment 2000000010) 5 (sample_assembler 2000000000) = Some a1 \<and>
    AssembleWithTimestamp sample_ops sample_flow (big_segment 2000003000) 6 a1 = hand_over sample_ops (sample_flow, sample_flow) conn' [r1, r2] a2 \<and>
    Bytes r1 @ Bytes r2 = vis (t_Payload (big_segment 2000003000)) \<and> Skip r1 = 990 \<and> Skip r2 = 10"
proof -
  let ?a = "sample_assembler 2000000000"
  obtain conn where conn: "conns ?a (sample_flow, sample_flow) = Some conn" "nextSeq conn = 2000000000"
    by (simp add: sample_assembler_def)
  have "(1024 :: nat) = Suc (Suc 1022)" by simp
  then have "free ?a = zeroPage # zeroPage # replicate 1022 zeroPage"
    by (simp only: sample_assembler_def NewAssembler_def initialAllocSize_def Assembler.simps replicate_Suc)
  moreover have "asm_ok ?a" by (rule sample_assembler_ok) (simp_all add: uint32Max_def)
  moreover have "\<exists>w'. Reassembled sample_ops s rs w = Some w'" for s rs w by (simp add: sample_ops_def)
  ultimately show ?thesis
    using recycled_page_repeats_gap [OF _ conn(1) big_segment_facts(1) big_segment_facts(1) big_segment_facts(2,2,3,3),
        of 2000000010 2000003000 zeroPage zeroPage "replicate 1022 zeroPage" sample_ops 5 6]
    by (simp add: big_segment_facts conn(2))
qed

end
