(* ===== verification/Pipeline.thy ===== *)
theory Pipeline
  imports AssemblyHits AssemblyPool
begin

text \<open>
  From frames to hits: the way of captured packets through a decode worker, the distribution over the assembly workers and their consumers, as
  \<open>packetHandler\<close> of \<^verbatim>\<open>main.go\<close> composes them.  The program is taken with one decode worker, whose batches are handled one after the other;
  that a call of \<open>HandlePackets\<close> returns only when its packets have been assembled is \<open>AssemblyPool\<close>'s result.
\<close>

section \<open>Composition\<close>

text \<open>Each assembly worker assembles its part of a batch; \<open>HandlePackets\<close> skips empty parts.\<close>

fun assemble_parts :: "DecodedPacket list list \<Rightarrow> worker_state list \<Rightarrow> worker_state list option" where
  "assemble_parts [] ws = Some ws"
| "assemble_parts (part # parts) [] = None"
| "assemble_parts (part # parts) (w # ws) =
     do { w \<leftarrow> (if part = [] then Some w else assemble_all part w); ws \<leftarrow> assemble_parts parts ws; Some (w # ws) }"

text \<open>A batch of captured packets, or the tick of one of the assembly workers.\<close>

datatype sniff_event = Captured PacketBuffer | Timer nat "key list"

fun sniff :: "sniff_event list \<Rightarrow> decoder \<Rightarrow> worker_state list \<Rightarrow> (decoder \<times> worker_state list) option" where
  "sniff [] d ws = Some (d, ws)"
| "sniff (Captured pb # es) d ws =
     do { (dps, d) \<leftarrow> decodeBatch pb d;
          parts \<leftarrow> partition (length ws) dps;
          ws \<leftarrow> assemble_parts parts ws;
          sniff es d ws }"
| "sniff (Timer i keys # es) d ws =
     (if i < length ws then do { w \<leftarrow> worker_tick keys (ws ! i); sniff es d (ws[i := w]) } else sniff es d ws)"

section \<open>The two stages\<close>

text \<open>What the decode stage produces, and what of it concerns one of \<open>n\<close> workers.\<close>

datatype pool_event = Batch "DecodedPacket list" | TickOf nat "key list"

fun decode_stage :: "sniff_event list \<Rightarrow> decoder \<Rightarrow> (pool_event list \<times> decoder) option" where
  "decode_stage [] d = Some ([], d)"
| "decode_stage (Captured pb # es) d =
     do { (dps, d) \<leftarrow> decodeBatch pb d; (ps, d) \<leftarrow> decode_stage es d; Some (Batch dps # ps, d) }"
| "decode_stage (Timer i keys # es) d = do { (ps, d) \<leftarrow> decode_stage es d; Some (TickOf i keys # ps, d) }"

fun events_of :: "nat \<Rightarrow> nat \<Rightarrow> pool_event list \<Rightarrow> event list" where
  "events_of n j [] = []"
| "events_of n j (Batch dps # ps) = Work (filter (\<lambda>dp. slot n dp = Some j) dps) # events_of n j ps"
| "events_of n j (TickOf i keys # ps) = (if i = j then Tick keys # events_of n j ps else events_of n j ps)"

lemma assemble_parts_each:
  "\<lbrakk> length parts = length ws; length vs = length ws; \<forall>j<length ws. assemble_all (parts ! j) (ws ! j) = Some (vs ! j) \<rbrakk>
   \<Longrightarrow> assemble_parts parts ws = Some vs"
proof (induction parts ws arbitrary: vs rule: assemble_parts.induct)
  case (3 part parts w ws)
  then obtain v vs' where vs: "vs = v # vs'" by (cases vs) auto
  have each: "assemble_all part w = Some v" "\<forall>j<length ws. assemble_all (parts ! j) (ws ! j) = Some (vs' ! j)"
    using "3.prems"(3) vs by (simp_all add: All_less_Suc2)
  then have "assemble_parts parts ws = Some vs'" using "3.IH" [of _ vs'] "3.prems"(1,2) vs by (cases "part = []") auto
  moreover note each(1)
  ultimately show ?case using vs by (cases "part = []") auto
qed auto

text \<open>If every worker gets through its own events, the whole program does, and each worker ends in its state.\<close>

lemma sniff_stages:
  "\<lbrakk> decode_stage es d = Some (ps, d'); 0 < length ws; length vs = length ws;
     \<forall>j<length ws. worker_loop (events_of (length ws) j ps) (ws ! j) = Some (vs ! j) \<rbrakk>
   \<Longrightarrow> sniff es d ws = Some (d', vs)"
proof (induction es arbitrary: d ps ws)
  case Nil
  then show ?case using nth_equalityI [of ws vs] by simp
next
  case (Cons e es)
  let ?n = "length ws"
  show ?case
  proof (cases e)
    case (Captured pb)
    then obtain dps d1 qs where q: "decodeBatch pb d = Some (dps, d1)" "decode_stage es d1 = Some (qs, d')" "ps = Batch dps # qs"
      using Cons.prems(1) by (auto simp: Option.bind_eq_Some_conv)
    let ?part = "\<lambda>j. filter (\<lambda>dp. slot ?n dp = Some j) dps"
    have "\<forall>j\<in>{..<?n}. \<exists>w. assemble_all (?part j) (ws ! j) = Some w \<and> worker_loop (events_of ?n j qs) w = Some (vs ! j)"
      using Cons.prems(4) q(3) by (simp add: Option.bind_eq_Some_conv)
    from bchoice [OF this] obtain g where
      g: "\<forall>j<?n. assemble_all (?part j) (ws ! j) = Some (g j) \<and> worker_loop (events_of ?n j qs) (g j) = Some (vs ! j)" by auto
    have "assemble_parts (map ?part [0..<?n]) ws = Some (map g [0..<?n])"
      using g by (intro assemble_parts_each) simp_all
    moreover have "sniff es d1 (map g [0..<?n]) = Some (d', vs)"
      using Cons.IH [OF q(2), of "map g [0..<?n]"] g Cons.prems(2,3) by simp
    ultimately show ?thesis using Captured q(1) partition_eq [OF Cons.prems(2), of dps] by simp
  next
    case (Timer i keys)
    then obtain qs where q: "decode_stage es d = Some (qs, d')" "ps = TickOf i keys # qs"
      using Cons.prems(1) by (auto simp: Option.bind_eq_Some_conv)
    have others: "worker_loop (events_of ?n j qs) (ws ! j) = Some (vs ! j)" if "j < ?n" "j \<noteq> i" for j
      using Cons.prems(4) [rule_format, of j] q(2) that by auto
    show ?thesis
    proof (cases "i < ?n")
      case True
      then obtain w where w: "worker_tick keys (ws ! i) = Some w" "worker_loop (events_of ?n i qs) w = Some (vs ! i)"
        using Cons.prems(4) [rule_format, of i] q(2) by (auto simp: Option.bind_eq_Some_conv)
      have "worker_loop (events_of ?n j qs) (ws[i := w] ! j) = Some (vs ! j)" if "j < ?n" for j
        by (cases "j = i") (use True w(2) others that in simp_all)
      then have "sniff es d (ws[i := w]) = Some (d', vs)"
        using Cons.prems(2,3) by (intro Cons.IH [OF q(1)]) simp_all
      with w(1) True Timer show ?thesis by simp
    next
      case False
      with Cons.IH [OF q(1) Cons.prems(2,3)] others Timer show ?thesis by auto
    qed
  qed
qed

section \<open>Frames on the wire\<close>

text \<open>A frame with a TCP segment: addresses, VLAN tags, the IP packet around the segment, and a trailer.\<close>

record frame =
  f_macs :: "byte list"
  f_tags :: "nat list"
  f_packet :: packet
  f_segment :: Frames.segment
  f_trailer :: "byte list"

definition frame_ok :: "frame \<Rightarrow> bool" where
  "frame_ok f \<longleftrightarrow> length (f_macs f) = 12 \<and> packet_ok (f_packet f) \<and> segment_ok (f_segment f)"

definition wire :: "frame \<Rightarrow> byte list" where
  "wire f = frame_bytes (f_macs f) (f_tags f) (f_packet f) (f_segment f) (f_trailer f)"

text \<open>The key of the connection that the frame belongs to, and the header that it carries.\<close>

definition frame_key :: "frame \<Rightarrow> key" where
  "frame_key f = (the (packet_flow (f_packet f)), the (segment_flow (f_segment f)))"

definition header_of :: "frame \<Rightarrow> TCP" where
  "header_of f =
     (let s = f_segment f; b = of_char (flag_bits s) in
      zeroTCP\<lparr>Seq := seq_no s, FIN := flag 0 b, SYN := flag 1 b, RST := flag 2 b, t_Payload := whole (content s)\<rparr>)"

text \<open>The frames of one conversation, with the side that sent them.\<close>

definition wire_trace :: "int list \<Rightarrow> connectionKey \<Rightarrow> frame list \<Rightarrow> (side \<times> TCP) list" where
  "wire_trace ports ck fs = map (\<lambda>f. (side_of ports (frame_key f), header_of f)) (filter (\<lambda>f. conversation_of ports (frame_key f) = ck) fs)"

text \<open>Of a header the assembler looks at the sequence number, three flags and the content.\<close>

definition same_header :: "side \<times> TCP \<Rightarrow> side \<times> TCP \<Rightarrow> bool" where
  "same_header x y \<longleftrightarrow> fst x = fst y \<and> Seq (snd x) = Seq (snd y) \<and> FIN (snd x) = FIN (snd y) \<and> SYN (snd x) = SYN (snd y) \<and>
     RST (snd x) = RST (snd y) \<and> vis (t_Payload (snd x)) = vis (t_Payload (snd y))"

lemma conv_step_same:
  assumes "same_header (s, t) (s', t')"
  shows "conv_step s t st = conv_step s' t' st" and "useless t = useless t'"
proof -
  have "after t = after t'" "after_syn t = after_syn t'" "feed_packet r t c = feed_packet r t' c" "greet r t c = greet r t' c" for r c
    using assms by (simp_all add: same_header_def greet_def feed_packet_def after_def after_syn_def)
  moreover have "s = s'" "Seq t = Seq t'" "SYN t = SYN t'" "RST t = RST t'" "FIN t = FIN t'" using assms by (simp_all add: same_header_def)
  ultimately show "conv_step s t st = conv_step s' t' st" by (cases st) (simp_all cong: if_cong)
  show "useless t = useless t'" using assms by (simp add: same_header_def useless_def)
qed

lemma conv_steps_same: "list_all2 same_header ps qs \<Longrightarrow> conv_steps ps st = conv_steps qs st"
proof (induction ps qs arbitrary: st rule: list_all2_induct)
  case (Cons x xs y ys)
  obtain s t s' t' where [simp]: "x = (s, t)" "y = (s', t')" by fastforce
  have "conv_step s t st = conv_step s' t' st" "useless t = useless t'" using conv_step_same [of s t s' t'] Cons.hyps(1) by simp_all
  moreover have "conv_steps xs = conv_steps ys" using Cons.IH by (rule ext)
  ultimately show ?case by simp
qed simp

section \<open>What is decoded from frames\<close>

definition sees :: "frame \<Rightarrow> DecodedPacket \<Rightarrow> bool" where
  "sees f dp \<longleftrightarrow> packet_ready dp \<and> pkt_key dp = frame_key f \<and> (\<forall>s. same_header (s, tcp_of_dp dp) (s, header_of f)) \<and>
     Some (FlowHash dp) = connection_hash (f_packet f) (f_segment f)"

lemma decodes_sees:
  assumes "decodes dp (f_packet f) (f_segment f)" and "dp_ok dp" and "frame_ok f"
  shows "sees f dp"
proof -
  have t: "tcp_of (tcp_of_dp dp) (f_segment f)" "Some (NetFlow dp) = packet_flow (f_packet f)" using assms(1) by (auto simp: decodes_def)
  then have "TCP_TransportFlow (tcp_of_dp dp) = segment_flow (f_segment f)"
    by (simp add: tcp_of_def TCP_TransportFlow_def segment_flow_def)
  with t(2) have "pkt_key dp = frame_key f" by (simp add: pkt_key_def frame_key_def flip: t(2))
  moreover have "packet_ready dp" using assms(2,3) t(1) by (simp add: packet_ready_def tcp_of_def frame_ok_def segment_ok_def maxcap_def)
  ultimately show ?thesis using assms(1) t(1)
    by (simp add: sees_def decodes_def same_header_def header_of_def tcp_of_def whole_def Let_def)
qed

text \<open>The hash of a frame is that of its conversation, so that one worker sees all of it.\<close>

definition key_hash :: "key \<Rightarrow> 64 word option" where
  "key_hash k = do { h \<leftarrow> Flow_FastHash (fst k); g \<leftarrow> Flow_FastHash (snd k); Some (hashCombine h g) }"

lemma frame_key_hash:
  assumes "frame_ok f"
  shows "connection_hash (f_packet f) (f_segment f) = key_hash (conversation_of ports (frame_key f))"
proof -
  obtain p g where p: "packet_flow (f_packet f) = Some p" "flow_ok p" and g: "segment_flow (f_segment f) = Some g" "flow_ok g"
    using packet_flow_total [of "f_packet f"] segment_flow_total [of "f_segment f"] assms NewFlow_ok
    by (cases "f_packet f") (auto simp: frame_ok_def segment_flow_def)
  have "key_hash (ck_Reverse (p, g)) = key_hash (p, g)" using p(2) g(2) FastHash_Reverse by (simp add: key_hash_def ck_Reverse_def)
  moreover have "connection_hash (f_packet f) (f_segment f) = key_hash (p, g)" using p(1) g(1) by (simp add: connection_hash_def key_hash_def)
  ultimately show ?thesis using p(1) g(1) by (simp add: frame_key_def conversation_of_def)
qed

lemma sees_slot:
  "\<lbrakk> sees f dp; frame_ok f; conversation_of ports (pkt_key dp) = ck; key_hash ck = Some h; 0 < n \<rbrakk> \<Longrightarrow> slot n dp = Some (unat (h mod of_nat n))"
  using frame_key_hash [of f ports] by (simp add: sees_def slot_def)

section \<open>Whole runs\<close>

text \<open>The events with the frames that were captured; every buffer holds at most a batch.\<close>

definition holds_frames :: "PacketBuffer \<Rightarrow> frame list \<Rightarrow> bool" where
  "holds_frames pb fs \<longleftrightarrow> pb_inv pb \<and> length (packets pb) \<le> batchSize \<and> list_all2 (\<lambda>pd f. Data pd = wire f \<and> frame_ok f) (packets pb) fs"

fun frames_of :: "sniff_event list \<Rightarrow> frame list list \<Rightarrow> bool" where
  "frames_of [] fss \<longleftrightarrow> fss = []"
| "frames_of (Captured pb # es) fss \<longleftrightarrow> (case fss of [] \<Rightarrow> False | fs # fss \<Rightarrow> holds_frames pb fs \<and> frames_of es fss)"
| "frames_of (Timer i keys # es) fss \<longleftrightarrow> frames_of es fss"

fun captured_within :: "int \<Rightarrow> sniff_event \<Rightarrow> bool" where
  "captured_within t0 (Captured pb) \<longleftrightarrow> (\<forall>pd\<in>set (packets pb). t0 \<le> Timestamp (Info pd) \<and> Timestamp (Info pd) \<le> t0 + minute)"
| "captured_within t0 (Timer i keys) \<longleftrightarrow> True"

fun pool_packets :: "pool_event list \<Rightarrow> DecodedPacket list" where
  "pool_packets [] = []"
| "pool_packets (Batch dps # ps) = dps @ pool_packets ps"
| "pool_packets (TickOf i keys # ps) = pool_packets ps"

lemma batch_sees:
  assumes "holds_frames pb fs" and "decoder_ok d"
  shows "\<exists>dps d'. decodeBatch pb d = Some (dps, d') \<and> decoder_ok d' \<and> list_all2 sees fs dps \<and>
    map dp_Info dps = map Info (packets pb)"
proof -
  obtain dps d' where d': "decodeBatch pb d = Some (dps, d')" "decoder_ok d'" "list_all2 decoded_from (packets pb) dps"
    using decodeBatch_ok [OF assms(2), of pb] assms(1) by (auto simp: holds_frames_def)
  have seen: "sees f dp \<and> dp_Info dp = Info pd" if a: "decoded_from pd dp" "Data pd = wire f" "frame_ok f" for pd dp f
  proof -
    obtain largest dp0 largest' where dec: "dp_ok dp0" "decode largest (Info pd) (wire f) dp0 = Some (largest', dp)"
      using a(1,2) by (auto simp: decoded_from_def)
    then have "decodes dp (f_packet f) (f_segment f)" "dp_Info dp = Info pd"
      using decode_frame [of "f_segment f" "f_packet f" "f_macs f" largest "Info pd" "f_tags f" "f_trailer f" dp0] a(3)
      by (auto simp: wire_def frame_ok_def)
    moreover have "dp_ok dp" using decode_total [OF dec(1), of largest "Info pd" "wire f"] dec(2) by auto
    ultimately show ?thesis using decodes_sees a(3) by blast
  qed
  have frames: "list_all2 (\<lambda>pd f. Data pd = wire f \<and> frame_ok f) (packets pb) fs" using assms(1) by (simp add: holds_frames_def)
  have "list_all2 sees fs dps \<and> map dp_Info dps = map Info (packets pb)"
    using d'(3) frames seen by (auto simp: list_all2_conv_all_nth intro!: nth_equalityI)
  with d' show ?thesis by blast
qed

lemma decode_stage_sees:
  "\<lbrakk> frames_of es fss; decoder_ok d; \<forall>e\<in>set es. captured_within t0 e \<rbrakk>
   \<Longrightarrow> \<exists>ps d'. decode_stage es d = Some (ps, d') \<and> list_all2 sees (concat fss) (pool_packets ps) \<and> (\<forall>dp\<in>set (pool_packets ps). within_minute t0 dp)"
proof (induction es fss arbitrary: d rule: frames_of.induct)
  case (2 pb es fss)
  then obtain fs fss' where fss: "fss = fs # fss'" "holds_frames pb fs" "frames_of es fss'" by (cases fss) auto
  obtain dps d1 where d1: "decodeBatch pb d = Some (dps, d1)" "decoder_ok d1" "list_all2 sees fs dps" "map dp_Info dps = map Info (packets pb)"
    using batch_sees [OF fss(2) "2.prems"(2)] by blast
  have "dp_Info ` set dps = Info ` set (packets pb)" using arg_cong [OF d1(4), of set] by simp
  then have "\<exists>pd\<in>set (packets pb). dp_Info dp = Info pd" if "dp \<in> set dps" for dp using that by blast
  then have "\<forall>dp\<in>set dps. within_minute t0 dp" using "2.prems"(3) by (fastforce simp: within_minute_def)
  moreover obtain ps d' where "decode_stage es d1 = Some (ps, d')" "list_all2 sees (concat fss') (pool_packets ps)"
    "\<forall>dp\<in>set (pool_packets ps). within_minute t0 dp"
    using "2.IH" [OF fss(1,3) d1(2)] "2.prems"(3) by auto
  ultimately show ?case using d1(1,3) fss(1) by (auto simp: list_all2_appendI)
next
  case (3 i keys es fss)
  then show ?case by fastforce
qed auto

lemma frames_ok: "frames_of es fss \<Longrightarrow> \<forall>f\<in>set (concat fss). frame_ok f"
  by (induction es fss rule: frames_of.induct)
    (auto simp: holds_frames_def list_all2_conv_all_nth in_set_conv_nth split: list.splits)

text \<open>What one worker gets to see of a conversation: everything, or nothing.\<close>

lemma run_packets_events_of: "run_packets (events_of n j ps) = filter (\<lambda>dp. slot n dp = Some j) (pool_packets ps)"
  by (induction n j ps rule: events_of.induct) (simp_all add: run_packets_def)

lemma events_of_ready: "\<forall>dp\<in>set (pool_packets ps). packet_ready dp \<Longrightarrow> \<forall>e\<in>set (events_of n j ps). event_ready e"
  by (induction n j ps rule: events_of.induct) auto

lemma trace_seen:
  "list_all2 sees fs dps \<Longrightarrow> list_all2 same_header (conv_trace ports ck dps) (wire_trace ports ck fs)"
  by (induction fs dps rule: list_all2_induct) (auto simp: conv_trace_def wire_trace_def sees_def)

lemma trace_of_worker:
  assumes "\<forall>dp\<in>set dps. conversation_of ports (pkt_key dp) = ck \<longrightarrow> slot n dp = Some i"
  shows "conv_trace ports ck (filter (\<lambda>dp. slot n dp = Some j) dps) = (if j = i then conv_trace ports ck dps else [])"
proof -
  have "filter (\<lambda>dp. conversation_of ports (pkt_key dp) = ck \<and> slot n dp = Some j) dps =
      (if j = i then filter (\<lambda>dp. conversation_of ports (pkt_key dp) = ck) dps else [])"
    using assms by (auto intro: filter_cong)
  then show ?thesis by (simp add: conv_trace_def conj_commute)
qed

lemma sniff_conversation:
  assumes "conv_key ports ck" and "0 < n" and "frames_of es fss" and "\<forall>e\<in>set es. captured_within t0 e" and "0 \<le> t0"
    and "key_hash ck = Some h" and "conv_steps (wire_trace ports ck (concat fss)) Fresh = Some st"
  shows "\<exists>d ws. sniff es newDecoder (replicate n (newWorker ports)) = Some (d, ws) \<and> length ws = n \<and>
    (\<forall>j<n. represents t0 (if j = unat (h mod of_nat n) then st else Fresh) (conv_local ck (assembler (ws ! j))))"
proof -
  let ?i = "unat (h mod of_nat n)" and ?w = "newWorker ports"
  obtain ps d' where ps: "decode_stage es newDecoder = Some (ps, d')" "list_all2 sees (concat fss) (pool_packets ps)"
    "\<forall>dp\<in>set (pool_packets ps). within_minute t0 dp"
    using decode_stage_sees [OF assms(3) decoder_ok_new assms(4)] by blast
  have seen: "\<exists>f. sees f dp \<and> frame_ok f" if "dp \<in> set (pool_packets ps)" for dp
    using that ps(2) frames_ok [OF assms(3)] by (metis in_set_conv_nth list_all2_conv_all_nth)
  then have ready: "\<forall>e\<in>set (events_of n j ps). event_ready e" for j
    by (intro events_of_ready) (auto simp: sees_def)
  have "\<forall>dp\<in>set (pool_packets ps). conversation_of ports (pkt_key dp) = ck \<longrightarrow> slot n dp = Some ?i"
    using seen sees_slot assms(2,6) by blast
  note tr = trace_of_worker [OF this]
  have "conv_steps (conv_trace ports ck (pool_packets ps)) Fresh = Some st"
    using conv_steps_same [OF trace_seen [OF ps(2)]] assms(7) by simp
  then have steps: "conv_steps (conv_trace ports ck (run_packets (events_of n j ps))) Fresh = Some (if j = ?i then st else Fresh)" for j
    by (simp add: run_packets_events_of tr)
  have start: "mostRecent ?w \<le> t0 + minute" using assms(5) by (simp add: newWorker_def minute_def)
  have within: "\<forall>dp\<in>set (run_packets (events_of n j ps)). within_minute t0 dp" for j
    using ps(3) by (simp add: run_packets_events_of)
  have "\<exists>w. worker_loop (events_of n j ps) ?w = Some w \<and> represents t0 (if j = ?i then st else Fresh) (conv_local ck (assembler w))" for j
    using worker_refines [OF worker_ok_new ready within assms(1) represents_new steps start] by blast
  then obtain g where g: "\<And>j. worker_loop (events_of n j ps) ?w = Some (g j)"
    "\<And>j. represents t0 (if j = ?i then st else Fresh) (conv_local ck (assembler (g j)))" by metis
  have "sniff es newDecoder (replicate n ?w) = Some (d', map g [0..<n])"
    using assms(2) g(1) by (intro sniff_stages [OF ps(1)]) simp_all
  with g(2) show ?thesis by (intro exI [of _ d'] exI [of _ "map g [0..<n]"]) simp
qed

lemma no_consumer: "consumer_of sf ck = Map.empty \<Longrightarrow> ck \<notin> fst ` set (consumers sf)"
  by (fastforce simp: consumer_of_def fun_eq_iff in_set_conv_nth split: if_splits)

text \<open>The frames of a connection that is opened, carries the sessions \<open>xs\<close> in sequence and is closed.\<close>

definition carries :: "int list \<Rightarrow> nat \<Rightarrow> frame list \<Rightarrow> connectionKey \<Rightarrow> (exchange \<times> byte list list \<times> byte list list) list \<Rightarrow> bool" where
  "carries ports S fs ck xs \<longleftrightarrow> conv_key ports ck \<and> (\<forall>x\<in>set xs. session_ok S x) \<and>
     (\<exists>t1 t2 ps. wire_trace ports ck fs = (ClientSide, t1) # (ServerSide, t2) # ps \<and> SYN t1 \<and> SYN t2 \<and>
        vis (t_Payload t1) = [] \<and> vis (t_Payload t2) = [] \<and> transmits (after_syn t1) (after_syn t2) (concat (map sends_of xs)) ps)"

lemma sniff_carried:
  assumes "carries ports S (concat fss) ck xs" and "0 < n" and "frames_of es fss" and "\<forall>e\<in>set es. captured_within t0 e" and "0 \<le> t0"
  shows "\<exists>d ws i c. sniff es newDecoder (replicate n (newWorker ports)) = Some (d, ws) \<and> length ws = n \<and> i < n \<and>
    filter (\<lambda>x. fst x = ck) (consumers (world (assembler (ws ! i)))) = [(ck, c)] \<and>
    concat (handled c) = concat (map (hits_of \<circ> fst) xs) \<and> eventBuf c = [] \<and>
    (\<forall>j<n. j \<noteq> i \<longrightarrow> ck \<notin> fst ` set (consumers (world (assembler (ws ! j)))))"
proof -
  obtain t1 t2 ps where tr: "conv_key ports ck" "\<forall>x\<in>set xs. session_ok S x" "wire_trace ports ck (concat fss) = (ClientSide, t1) # (ServerSide, t2) # ps"
    "SYN t1" "SYN t2" "vis (t_Payload t1) = []" "vis (t_Payload t2) = []" "transmits (after_syn t1) (after_syn t2) (concat (map sends_of xs)) ps"
    using assms(1) unfolding carries_def by blast
  obtain f where f: "f \<in> set (concat fss)" "conversation_of ports (frame_key f) = ck"
  proof -
    have "filter (\<lambda>f. conversation_of ports (frame_key f) = ck) (concat fss) \<noteq> []" using tr(3) by (auto simp: wire_trace_def)
    then show ?thesis using that by (auto simp: filter_empty_conv)
  qed
  then have "frame_ok f" using frames_ok [OF assms(3)] by blast
  then obtain h where h: "key_hash ck = Some h"
    using frame_key_hash [of f ports] f(2) packet_flow_total [of "f_packet f"] segment_flow_total [of "f_segment f"]
    by (fastforce simp: frame_ok_def connection_hash_def)
  obtain c where c: "conv_steps (wire_trace ports ck (concat fss)) Fresh = Some (Closed c)"
    "concat (handled c) = concat (map (hits_of \<circ> fst) xs)" "eventBuf c = []"
    using session_steps [OF tr(2,4-8)] tr(3) by auto
  define i where "i = unat (h mod of_nat n)"
  obtain d ws where ws: "sniff es newDecoder (replicate n (newWorker ports)) = Some (d, ws)" "length ws = n"
    "\<forall>j<n. represents t0 (if j = i then Closed c else Fresh) (conv_local ck (assembler (ws ! j)))"
    using sniff_conversation [OF tr(1) assms(2-5) h c(1)] unfolding i_def by blast
  have "i < n" using slot_bound [of h "n - 1"] assms(2) by (simp add: i_def)
  moreover have "filter (\<lambda>x. fst x = ck) (consumers (world (assembler (ws ! i)))) = [(ck, c)]"
    using ws(3) \<open>i < n\<close> by (auto simp: conv_local_def conv_view_def dest!: spec [of _ i] sole_consumer)
  moreover have "ck \<notin> fst ` set (consumers (world (assembler (ws ! j))))" if "j < n" "j \<noteq> i" for j
    using ws(3) [rule_format, of j] that by (intro no_consumer) (simp add: conv_local_def conv_view_def)
  ultimately show ?thesis using ws(1,2) c(2,3) by blast
qed

section \<open>Properties\<close>


text \<open>A client gets a value over IPv4, with VLAN tags on some frames, while another connection sends something.\<close>

definition plain_frame :: "byte list \<Rightarrow> byte list \<Rightarrow> nat \<Rightarrow> nat \<Rightarrow> nat \<Rightarrow> byte \<Rightarrow> byte list \<Rightarrow> frame" where
  "plain_frame src dst sport dport n flags data =
     \<lparr>f_macs = ''abcdefghijkl'', f_tags = [5], f_packet = V4 (CHR 0x00) 0 0 (CHR 0x40) 0 src dst,
      f_segment = \<lparr>src_port = sport, dst_port = dport, seq_no = n, ack_no = 0, flag_bits = flags, window = 512, checksum = 0, urgent = 0,
        options = [Nop, Nop, Nop, Nop], content = data\<rparr>, f_trailer = ''pad''\<rparr>"

definition c2s :: "nat \<Rightarrow> byte \<Rightarrow> byte list \<Rightarrow> frame" where
  "c2s = plain_frame ''abcd'' ''efgh'' 1234 11211"

definition s2c :: "nat \<Rightarrow> byte \<Rightarrow> byte list \<Rightarrow> frame" where
  "s2c = plain_frame ''efgh'' ''abcd'' 11211 1234"

definition sample_wire :: "frame list list" where
  "sample_wire =
     [[c2s 0xFFFFFFFE (CHR 0x02) [], s2c 9 (CHR 0x12) [], c2s 0xFFFFFFFF (CHR 0x18) ''get''],
      [plain_frame ''wxyz'' ''efgh'' 1234 11211 77 (CHR 0x18) ''set a'', c2s 2 (CHR 0x18) ('' a'' @ crlf), s2c 10 (CHR 0x18) (''VALUE a 0 2'' @ crlf @ ''xy''),
       s2c 25 (CHR 0x18) (crlf @ ''END'' @ crlf), c2s 6 (CHR 0x11) [], s2c 32 (CHR 0x11) []]]"

lemma put16_ports: "put16 1234 = client_port" "put16 11211 = server_port"
  by code_simp+

lemma four_dvd: "4 dvd Suc (Suc (Suc (Suc 0)))"
  by (rule dvdI [of _ _ 1]) simp

lemma plain_frame_ok:
  "\<lbrakk> length src = 4; length dst = 4; sport < 65536; dport < 65536; n < 4294967296; length data \<le> 65000 \<rbrakk> \<Longrightarrow> frame_ok (plain_frame src dst sport dport n flags data)"
  using four_dvd by (simp add: frame_ok_def plain_frame_def segment_ok_def)

lemma plain_frame_key:
  "frame_key (plain_frame src dst sport dport n flags data) = (the (NewFlow EndpointIPv4 src dst), the (NewFlow EndpointTCPPort (put16 sport) (put16 dport)))"
  by (simp add: frame_key_def plain_frame_def segment_flow_def)

lemma plain_conversation:
  assumes "length src = 4" and "length dst = 4"
  shows "conversation_of [11211] (frame_key (plain_frame src dst 1234 11211 n flags data)) = (the (NewFlow EndpointIPv4 dst src), snd sample_ck)"
    and "side_of [11211] (frame_key (plain_frame src dst 1234 11211 n flags data)) = ClientSide"
    and "conversation_of [11211] (frame_key (plain_frame src dst 11211 1234 n flags data)) = (the (NewFlow EndpointIPv4 src dst), snd sample_ck)"
    and "side_of [11211] (frame_key (plain_frame src dst 11211 1234 n flags data)) = ServerSide"
  using assms
  by (simp_all add: plain_frame_key put16_ports conversation_of_def side_of_def from_server_ports ck_Reverse_def the_NewFlow_Reverse
      sample_ck_def client_port_def server_port_def)

lemma sample_wire_ok: "\<forall>f\<in>set (concat sample_wire). frame_ok f"
  by (simp add: sample_wire_def c2s_def s2c_def plain_frame_ok crlf_def)

lemma sample_wire_trace: "wire_trace [11211] sample_ck (concat sample_wire) =
  (ClientSide, header_of (c2s 0xFFFFFFFE (CHR 0x02) [])) # (ServerSide, header_of (s2c 9 (CHR 0x12) [])) #
  [(ClientSide, header_of (c2s 0xFFFFFFFF (CHR 0x18) ''get'')), (ClientSide, header_of (c2s 2 (CHR 0x18) ('' a'' @ crlf))),
   (ServerSide, header_of (s2c 10 (CHR 0x18) (''VALUE a 0 2'' @ crlf @ ''xy''))), (ServerSide, header_of (s2c 25 (CHR 0x18) (crlf @ ''END'' @ crlf))),
   (ClientSide, header_of (c2s 6 (CHR 0x11) [])), (ServerSide, header_of (s2c 32 (CHR 0x11) []))]"
proof -
  have ck: "(the (NewFlow EndpointIPv4 ''efgh'' ''abcd''), snd sample_ck) = sample_ck" by (simp add: sample_ck_def)
  have other: "(the (NewFlow EndpointIPv4 ''efgh'' ''wxyz''), snd sample_ck) \<noteq> sample_ck"
    by (simp add: sample_ck_def NewFlow_def MaxEndpointSize_def raw_array_def)
  show ?thesis by (simp add: wire_trace_def sample_wire_def c2s_def s2c_def plain_conversation ck other)
qed

lemma header_plain:
  "header_of (plain_frame src dst sport dport n flags data) =
     zeroTCP\<lparr>Seq := n, FIN := flag 0 (of_char flags), SYN := flag 1 (of_char flags), RST := flag 2 (of_char flags), t_Payload := whole data\<rparr>"
  by (simp add: header_of_def plain_frame_def Let_def)

lemma sample_wire_transmits:
  "transmits (after_syn (header_of (c2s 0xFFFFFFFE (CHR 0x02) []))) (after_syn (header_of (s2c 9 (CHR 0x12) []))) (concat (map sends_of [sample_exchange]))
  [(ClientSide, header_of (c2s 0xFFFFFFFF (CHR 0x18) ''get'')), (ClientSide, header_of (c2s 2 (CHR 0x18) ('' a'' @ crlf))),
   (ServerSide, header_of (s2c 10 (CHR 0x18) (''VALUE a 0 2'' @ crlf @ ''xy''))), (ServerSide, header_of (s2c 25 (CHR 0x18) (crlf @ ''END'' @ crlf))),
   (ClientSide, header_of (c2s 6 (CHR 0x11) [])), (ServerSide, header_of (s2c 32 (CHR 0x11) []))]"
  by (simp add: header_plain c2s_def s2c_def zeroTCP_def after_syn_def after_def Seq_Add_def useless_def whole_def crlf_def sample_exchange_def flag_def)

lemma buffer_holding:
  assumes "length pds \<le> batchSize"
  shows "\<exists>pb. pb_inv pb \<and> packets pb = pds"
  using store.appendAll_ok [of "NewPacketBuffer batchSize (sum_list (map (length \<circ> Data) pds))" pds]
    pb_inv_New [of batchSize "sum_list (map (length \<circ> Data) pds)"] assms by (auto simp: batchSize_def)

lemma buffer_of_frames:
  assumes "length fs \<le> batchSize" and "\<forall>f\<in>set fs. frame_ok f"
  shows "\<exists>pb. holds_frames pb fs \<and> captured_within 0 (Captured pb)"
proof -
  let ?pds = "map (\<lambda>f. \<lparr>Info = zeroInfo, Data = wire f\<rparr>) fs"
  obtain pb where pb: "pb_inv pb" "packets pb = ?pds" using buffer_holding [of ?pds] assms(1) by auto
  have "list_all2 (\<lambda>pd f. Data pd = wire f \<and> frame_ok f) ?pds fs"
    using assms(2) by (simp add: list_all2_conv_all_nth)
  with pb assms(1) show ?thesis by (intro exI [of _ pb]) (auto simp: holds_frames_def zeroInfo_def minute_def)
qed


end
