(* ===== verification/EndToEnd.thy ===== *)
theory EndToEnd
  imports Analysis Pipeline
begin

text \<open>
  From the wire to the report: the frames of any number of memcached connections go through decoding and assembly (\<open>Pipeline\<close>), and the batches of events that the consumers hand over
  reach the analysis pool (\<open>Analysis\<close>) in any order, interleaved with its workers in any way.
\<close>

declare split_paired_All [simp del]

section \<open>Conversations without packets leave no trace\<close>

definition untouched :: "int list \<Rightarrow> connectionKey \<Rightarrow> assembler \<Rightarrow> bool" where
  "untouched ports ck a \<longleftrightarrow> (\<forall>k. conversation_of ports k = ck \<longrightarrow> conns a k = None) \<and> conv_view (world a) ck = (None, Map.empty)"

lemma untouched_packets:
  "\<lbrakk> worker_ok ports w; \<forall>dp\<in>set dps. packet_ready dp \<and> conversation_of ports (pkt_key dp) \<noteq> ck; untouched ports ck (assembler w) \<rbrakk>
   \<Longrightarrow> \<exists>w'. assemble_all dps w = Some w' \<and> worker_ok ports w' \<and> untouched ports ck (assembler w')"
proof (induction dps arbitrary: w)
  case (Cons dp dps)
  let ?w = "w\<lparr>mostRecent := Timestamp (dp_Info dp)\<rparr>"
  obtain a where a: "AssembleWithTimestamp factory_ops (NetFlow dp) (tcp_of_dp dp) (mostRecent ?w) (assembler w) = Some a"
    "asm_inv (factory_ok ports) (owns ports) a" "\<forall>l. l \<noteq> pkt_key dp \<longrightarrow> conns a l = conns (assembler w) l"
    "extends (owns ports) conv_view (conversation_of ports (pkt_key dp)) (world (assembler w)) (world a)"
    using Assemble_ready [of ports "assembler w" dp "mostRecent ?w"] Cons.prems by (auto simp: worker_ok_def)
  have "conns a k = None" if "conversation_of ports k = ck" for k
    using a(3) [rule_format, of k] that Cons.prems(2,3) by (auto simp: untouched_def)
  moreover have "conv_view (world a) ck = (None, Map.empty)"
    using a(4) Cons.prems(2,3) by (auto simp: extends_def untouched_def)
  ultimately have "untouched ports ck a" by (simp add: untouched_def)
  with Cons.IH [of "?w\<lparr>assembler := a\<rparr>"] a(1,2) Cons.prems show ?case by (simp add: worker_ok_def)
qed simp

lemma untouched_tick:
  assumes "worker_ok ports w" and "untouched ports ck (assembler w)"
  shows "\<exists>w'. worker_tick keys w = Some w' \<and> worker_ok ports w' \<and> untouched ports ck (assembler w')"
proof -
  have "\<forall>k. conversation_of ports k = ck \<longrightarrow> \<not> stale (mostRecent w - minute) (assembler w) k"
    using assms(2) by (simp add: untouched_def stale_def)
  with worker_tick_ok [OF assms(1), of keys] assms(2) show ?thesis unfolding untouched_def by fastforce
qed

lemma untouched_loop:
  "\<lbrakk> worker_ok ports w; \<forall>e\<in>set es. event_ready e; \<forall>dp\<in>set (run_packets es). conversation_of ports (pkt_key dp) \<noteq> ck; untouched ports ck (assembler w) \<rbrakk>
   \<Longrightarrow> \<exists>w'. worker_loop es w = Some w' \<and> untouched ports ck (assembler w')"
proof (induction es arbitrary: w)
  case (Cons e es)
  have "\<exists>w1. loop_body e w = Some w1 \<and> worker_ok ports w1 \<and> untouched ports ck (assembler w1)"
  proof (cases e)
    case (Tick keys)
    with untouched_tick [OF Cons.prems(1,4)] show ?thesis by simp
  next
    case (Work dps)
    with untouched_packets [OF Cons.prems(1) _ Cons.prems(4), of dps] Cons.prems(2,3) show ?thesis by (simp add: run_packets_def)
  qed
  with Cons show ?case by (fastforce simp: run_packets_def)
qed simp

lemma untouched_new: "untouched ports ck (assembler (newWorker ports))"
  by (simp add: untouched_def newWorker_def NewAssembler_def newStreamFactory_def conv_view_def consumer_of_def fun_eq_iff)

text \<open>So the consumers of the whole program belong to conversations that were seen.\<close>

lemma sniff_consumers:
  assumes "0 < n" and "frames_of es fss" and "\<forall>e\<in>set es. captured_within t0 e"
    and "sniff es newDecoder (replicate n (newWorker ports)) = Some (d, ws)" and "w \<in> set ws" and "x \<in> set (consumers (world (assembler w)))"
  shows "\<exists>f\<in>set (concat fss). conversation_of ports (frame_key f) = fst x"
proof (rule ccontr)
  assume "\<not> ?thesis"
  then have none: "conversation_of ports (frame_key f) \<noteq> fst x" if "f \<in> set (concat fss)" for f using that by blast
  obtain ps d' where ps: "decode_stage es newDecoder = Some (ps, d')" "list_all2 sees (concat fss) (pool_packets ps)"
    using decode_stage_sees [OF assms(2) decoder_ok_new assms(3)] by blast
  have seen: "packet_ready dp \<and> conversation_of ports (pkt_key dp) \<noteq> fst x" if dp: "dp \<in> set (pool_packets ps)" for dp
  proof -
    obtain f where "f \<in> set (concat fss)" "sees f dp" using dp ps(2) by (metis in_set_conv_nth list_all2_conv_all_nth)
    with none show ?thesis by (auto simp: sees_def)
  qed
  have "\<exists>w'. worker_loop (events_of n j ps) (newWorker ports) = Some w' \<and> untouched ports (fst x) (assembler w')" for j
    using seen by (intro untouched_loop worker_ok_new events_of_ready untouched_new) (auto simp: run_packets_events_of)
  then obtain g where g: "\<And>j. worker_loop (events_of n j ps) (newWorker ports) = Some (g j)" "\<And>j. untouched ports (fst x) (assembler (g j))" by metis
  have "sniff es newDecoder (replicate n (newWorker ports)) = Some (d', map g [0..<n])"
    using assms(1) g(1) by (intro sniff_stages [OF ps(1)]) simp_all
  then obtain j where "w = g j" using assms(4,5) by auto
  with g(2) [of j] have "consumer_of (world (assembler w)) (fst x) = Map.empty" by (simp add: untouched_def conv_view_def)
  from no_consumer [OF this] assms(6) show False by simp
qed

section \<open>What all consumers hand over\<close>

definition all_consumers :: "worker_state list \<Rightarrow> (connectionKey \<times> McConsumer) list" where
  "all_consumers ws = concat (map (\<lambda>w. consumers (world (assembler w))) ws)"

text \<open>The batches of events that reached \<open>HandleEvents\<close> of the analysis pool.\<close>

definition handed_over :: "worker_state list \<Rightarrow> Event list list" where
  "handed_over ws = concat (map (handled \<circ> snd) (all_consumers ws))"

lemma mset_by_key:
  assumes "distinct ks" and "\<forall>x\<in>set xs. fst x \<in> set ks"
  shows "mset xs = (\<Sum>k\<leftarrow>ks. mset (filter (\<lambda>x. fst x = k) xs))"
proof -
  have one: "(\<Sum>k\<leftarrow>ks. mset (if fst x = k then [x] else [])) = (if fst x \<in> set ks then {#x#} else {#})" for x :: "'a \<times> 'b"
    using assms(1) by (induction ks) auto
  show ?thesis using assms(2)
  proof (induction xs)
    case (Cons x xs)
    have "mset (filter (\<lambda>y. fst y = k) (x # xs)) = mset (if fst x = k then [x] else []) + mset (filter (\<lambda>y. fst y = k) xs)" for k by simp
    then have "(\<Sum>k\<leftarrow>ks. mset (filter (\<lambda>y. fst y = k) (x # xs))) = {#x#} + (\<Sum>k\<leftarrow>ks. mset (filter (\<lambda>y. fst y = k) xs))"
      using Cons.prems by (simp only: sum_list_addf one) simp
    with Cons show ?case by simp
  qed simp
qed

lemma mset_concat_map: "mset xs = mset ys \<Longrightarrow> mset (concat (map f xs)) = mset (concat (map f ys))"
  by (metis mset_concat mset_map sum_mset_sum_list)

lemma concat_concat_map: "concat (concat (map f xs)) = concat (map (concat \<circ> f) xs)"
  by (induction xs) auto

text \<open>Each of the connections has one consumer, in one of the workers.\<close>

lemma sole_consumer_of_all:
  assumes "i < length ws" and "filter (\<lambda>x. fst x = ck) (consumers (world (assembler (ws ! i)))) = [x]"
    and "\<forall>j<length ws. j \<noteq> i \<longrightarrow> ck \<notin> fst ` set (consumers (world (assembler (ws ! j))))"
  shows "filter (\<lambda>x. fst x = ck) (all_consumers ws) = [x]"
proof -
  let ?f = "\<lambda>w. filter (\<lambda>x. fst x = ck) (consumers (world (assembler w)))"
  have "?f (ws ! j) = (if j = i then [x] else [])" if "j < length ws" for j
    using assms that by (auto simp: filter_empty_conv image_iff)
  then have "map ?f ws = map (\<lambda>j. if j = i then [x] else []) [0..<length ws]" by (auto intro!: nth_equalityI)
  moreover have "concat (map (\<lambda>j. if j = i then [x] else []) [0..<n]) = (if i < n then [x] else [])" for n
    by (induction n) auto
  ultimately show ?thesis using assms(1) by (simp add: all_consumers_def filter_concat comp_def)
qed

lemma handed_over_hits:
  assumes "0 < n" and "frames_of es fss" and "\<forall>e\<in>set es. captured_within t0 e" and "0 \<le> t0" and "distinct cks"
    and "\<forall>ck\<in>set cks. carries ports S (concat fss) ck (sess ck)"
    and "\<forall>f\<in>set (concat fss). conversation_of ports (frame_key f) \<in> set cks"
    and "sniff es newDecoder (replicate n (newWorker ports)) = Some (d, ws)"
  shows "mset (concat (handed_over ws)) = mset (concat (map (\<lambda>ck. concat (map (hits_of \<circ> fst) (sess ck))) cks))"
proof -
  have "\<forall>ck\<in>set cks. \<exists>c. filter (\<lambda>x. fst x = ck) (all_consumers ws) = [(ck, c)] \<and> concat (handled c) = concat (map (hits_of \<circ> fst) (sess ck))"
  proof
    fix ck assume "ck \<in> set cks"
    with assms(6) have "carries ports S (concat fss) ck (sess ck)" by blast
    from sniff_carried [OF this assms(1-4)] assms(8) obtain i c where "length ws = n" "i < n"
      "filter (\<lambda>x. fst x = ck) (consumers (world (assembler (ws ! i)))) = [(ck, c)]" "concat (handled c) = concat (map (hits_of \<circ> fst) (sess ck))"
      "\<forall>j<n. j \<noteq> i \<longrightarrow> ck \<notin> fst ` set (consumers (world (assembler (ws ! j))))" by auto
    with sole_consumer_of_all [of i ws ck "(ck, c)"]
    show "\<exists>c. filter (\<lambda>x. fst x = ck) (all_consumers ws) = [(ck, c)] \<and> concat (handled c) = concat (map (hits_of \<circ> fst) (sess ck))" by auto
  qed
  from bchoice [OF this] obtain c where c: "\<forall>ck\<in>set cks. filter (\<lambda>x. fst x = ck) (all_consumers ws) = [(ck, c ck)]"
    "\<forall>ck\<in>set cks. concat (handled (c ck)) = concat (map (hits_of \<circ> fst) (sess ck))" by auto
  have "\<forall>x\<in>set (all_consumers ws). fst x \<in> set cks"
    using sniff_consumers [OF assms(1-3,8)] assms(7) by (fastforce simp: all_consumers_def)
  from mset_by_key [OF assms(5) this] have "mset (all_consumers ws) = (\<Sum>ck\<leftarrow>cks. mset [(ck, c ck)])"
    using c(1) by (simp cong: map_cong)
  also have "\<dots> = mset (map (\<lambda>ck. (ck, c ck)) cks)" by (induction cks) auto
  finally have "mset (concat (map (concat \<circ> (handled \<circ> snd)) (all_consumers ws))) = mset (concat (map (concat \<circ> (handled \<circ> snd)) (map (\<lambda>ck. (ck, c ck)) cks)))"
    by (rule mset_concat_map)
  moreover have "map (concat \<circ> (handled \<circ> snd)) (map (\<lambda>ck. (ck, c ck)) cks) = map (\<lambda>ck. concat (map (hits_of \<circ> fst) (sess ck))) cks"
    using c(2) by simp
  ultimately show ?thesis unfolding handed_over_def concat_concat_map by (simp only:)
qed

section \<open>What the analysis sees of them\<close>

text \<open>The batches with which \<open>HandleEvents\<close> was called during a run of the pool.\<close>

fun batches_in :: "pool_action list \<Rightarrow> Event list list" where
  "batches_in [] = []"
| "batches_in (Handle evts # as) = evts # batches_in as"
| "batches_in (Receive i # as) = batches_in as"

lemma events_in_concat: "events_in as = concat (batches_in as)"
  by (induction as rule: batches_in.induct) simp_all

lemma filterEvents_mset: "mset xs = mset ys \<Longrightarrow> mset (filterEvents matches f xs) = mset (filterEvents matches f ys)"
  by (simp add: filterEvents_def split: option.split)

lemma filterEvents_subset: "set (filterEvents matches f xs) \<subseteq> set xs"
  by (auto simp: filterEvents_def split: option.splits)

text \<open>Reports depend only on how often each key occurs.\<close>

lemma exact_line_mset:
  assumes "mset xs = mset ys"
  shows "exact_line xs = exact_line ys" and "traffic xs = traffic ys"
proof -
  have "count_list xs x = count_list ys x" for x using assms by (metis count_mset)
  then show "exact_line xs = exact_line ys" "traffic xs = traffic ys" by (simp_all add: fun_eq_iff exact_line_def traffic_def)
qed

lemma hits_are_hits: "e \<in> set (hits_of x) \<Longrightarrow> is_hit e"
  by (cases x) (auto simp: is_hit_def)

text \<open>The hits of the sessions of all connections.\<close>

definition wire_hits :: "(connectionKey \<Rightarrow> (exchange \<times> byte list list \<times> byte list list) list) \<Rightarrow> connectionKey list \<Rightarrow> Event list" where
  "wire_hits sess cks = concat (map (\<lambda>ck. concat (map (hits_of \<circ> fst) (sess ck))) cks)"

lemma wire_hits_are_hits: "e \<in> set (wire_hits sess cks) \<Longrightarrow> is_hit e"
  by (auto simp: wire_hits_def hits_are_hits)

section \<open>Properties\<close>


lemma pool_run_append: "pool_run matches p (as @ bs) = do { p \<leftarrow> pool_run matches p as; pool_run matches p bs }"
  by (induction as arbitrary: p) simp_all

text \<open>A pool with one worker that takes each batch as soon as it arrives drops nothing.\<close>

lemma prompt_worker:
  assumes "Analysis.workers p = [w]" and "\<not> kisClosed w" and "kisChan w = []" and "filt p = None" and "\<forall>b\<in>set bs. list_all is_hit b"
  shows "\<exists>as p' w'. pool_run matches p as = Some p' \<and> batches_in as = bs \<and> Analysis.workers p' = [w'] \<and> kisChan w' = [] \<and>
    EventsDropped (stats p') = EventsDropped (stats p) \<and> hl w' = foldl AddWeighted (hl w) (map key_of (concat bs))"
  using assms
proof (induction bs arbitrary: p w)
  case Nil
  then show ?case by (intro exI [of _ "[]"] exI [of _ p] exI [of _ w]) simp
next
  case (Cons b bs)
  define w1 where "w1 = w\<lparr>hl := foldl AddWeighted (hl w) (map key_of b)\<rparr>"
  define p1 where "p1 = (if b = [] then p else p\<lparr>Analysis.workers := [w1], stats := addHandled (stats p) (length b)\<rparr>)"
  let ?as = "Handle b # (if b = [] then [] else [Receive 0])"
  have "partitionEvents (Suc 0) b = Some [b]" using partitionEvents_share [of "Suc 0" b] by (simp add: share_def keySlot_one)
  moreover have "collect_kis 0 [] b = map key_of b" using collect_kis_hits [of b "[]" 0] Cons.prems(5) by simp
  ultimately have run: "pool_run matches p ?as = Some p1"
    using Cons.prems(1-4) by (auto simp: HandleEvents_def filterEvents_def worker_handleEvents_def kisChanCap_def worker_receive_def p1_def w1_def)
  have p1: "Analysis.workers p1 = [w1]" "filt p1 = None" "EventsDropped (stats p1) = EventsDropped (stats p)"
    using Cons.prems(1,4) by (auto simp: p1_def w1_def addHandled_def)
  obtain as p' w' where r: "pool_run matches p1 as = Some p'" "batches_in as = bs" "Analysis.workers p' = [w']" "kisChan w' = []"
    "EventsDropped (stats p') = EventsDropped (stats p1)" "hl w' = foldl AddWeighted (hl w1) (map key_of (concat bs))"
    using Cons.IH [OF p1(1) _ _ p1(2)] Cons.prems(2,3,5) by (auto simp: w1_def)
  have "pool_run matches p (?as @ as) = Some p'" using run r(1) by (simp only: pool_run_append Option.bind.simps)
  moreover have "batches_in (?as @ as) = b # bs" using r(2) by simp
  ultimately show ?case using r(3-6) p1(3) by (intro exI [of _ "?as @ as"] exI [of _ p'] exI [of _ w']) (simp add: w1_def)
qed

text \<open>The connection of the sample, alone on the wire.\<close>

definition sample_alone :: "frame list" where
  "sample_alone = filter (\<lambda>f. conversation_of [11211] (frame_key f) = sample_ck) (concat sample_wire)"

lemma sample_alone_carries: "carries [11211] 1460 sample_alone sample_ck [sample_exchange]"
proof -
  have "wire_trace [11211] sample_ck sample_alone = wire_trace [11211] sample_ck (concat sample_wire)"
    by (simp add: wire_trace_def sample_alone_def)
  moreover have "SYN (header_of (c2s 0xFFFFFFFE (CHR 0x02) []))" "SYN (header_of (s2c 9 (CHR 0x12) []))"
    "vis (t_Payload (header_of (c2s 0xFFFFFFFE (CHR 0x02) []))) = []" "vis (t_Payload (header_of (s2c 9 (CHR 0x12) []))) = []"
    by (simp_all add: c2s_def s2c_def header_plain flag_def whole_def)
  ultimately show ?thesis
    using sample_conv_key sample_exchange_ok sample_wire_trace sample_wire_transmits unfolding carries_def by (simp del: transmits.simps)
qed

lemma sample_alone_report:
  assumes "\<forall>k\<in>set ks. \<exists>x\<in>set [\<lparr>name = ''a'', ksize = 2\<rparr>]. k = exact_line [\<lparr>name = ''a'', ksize = 2\<rparr>] x" and "distinct (map (\<lambda>k. (Name k, RSize k)) ks)"
    and "\<forall>x\<in>set [\<lparr>name = ''a'', ksize = 2\<rparr>]. exact_line [\<lparr>name = ''a'', ksize = 2\<rparr>] x \<notin> set ks \<longrightarrow> 5 \<le> int (length ks)"
  shows "ks = [\<lparr>Name = ''a'', RSize = 2, RequestsEstimate = 1, TrafficEstimate = 2\<rparr>]"
proof -
  define l where "l = \<lparr>Name = ''a'', RSize = 2, RequestsEstimate = 1, TrafficEstimate = 2\<rparr>"
  have l: "exact_line [\<lparr>name = ''a'', ksize = 2\<rparr>] \<lparr>name = ''a'', ksize = 2\<rparr> = l"
    by (simp add: exact_line_def traffic_def gint_id int64_def l_def)
  have "set ks \<subseteq> {l}" "distinct ks" using assms(1,2) by (auto simp: l distinct_map)
  moreover have "ks \<noteq> []" using assms(3) by auto
  ultimately have "set ks = {l}" "length ks = 1" by (cases ks; force simp: subset_singleton_iff distinct_card [symmetric])+
  then show ?thesis by (cases ks) (auto simp: l_def)
qed


end
