(* ===== verification/Presentation.thy ===== *)
theory Presentation
  imports Analysis Strconv
begin

text \<open>
  The user interface, \<^verbatim>\<open>presentation/presentation.go\<close> and \<^verbatim>\<open>presentation/termbox.go\<close>.  The terminal library is a parameter: the record \<open>terminal\<close> holds its size and the
  errors that its calls return.  What is drawn is a list of texts and lines at a column and a row; how a text is turned into cells is
  the subject of \<open>Screen\<close>.  For the status line the formatted time and the formatting of the floating point drop rate are parameters.
\<close>

section \<open>State\<close>

datatype ui_error = errQuitRequested | TerminalError string

text \<open>\<open>Stats\<close>.\<close>

record ui_stats =
  PacketsEnteredFilter :: int
  PacketsPassedFilter :: int
  us_PacketsCaptured :: int
  PacketsDroppedKernel :: int
  PacketsDroppedParser :: int
  PacketsDroppedAnalysis :: int
  PacketsDroppedTotal :: int
  ResponsesParsed :: int

text \<open>
  What an update finds: the terminal's size and the results of its calls, the statistics that the provider returns, the report's time stamp as text, and
  \<open>percent n d\<close>, the text \<^verbatim>\<open>%5.2f\<close> of a hundred times the floating point quotient.
\<close>

record terminal =
  width :: int
  height :: int
  clearErr :: "ui_error option"
  flushErr :: "ui_error option"
  syncErr :: "ui_error option"
  statProvider :: ui_stats
  stamp :: string
  percent :: "int \<Rightarrow> int \<Rightarrow> string"

record 'r uiContext =
  analysis :: "'r Pool"
  messages :: "string list"
  msgChan :: "string list"
  prevReport :: "KeyReport list"
  cumulative :: bool
  paused :: bool

definition msgChanCap :: nat where
  "msgChanCap = 128"

definition New :: "'r Pool \<Rightarrow> bool \<Rightarrow> 'r uiContext" where
  "New pool cumul = \<lparr>analysis = pool, messages = [], msgChan = [], prevReport = [], cumulative = cumul, paused = False\<rparr>"

text \<open>A send to the channel of messages; it blocks when the channel is full.\<close>

datatype 'a blocking = Returns 'a | Blocks

definition Log :: "string \<Rightarrow> 'r uiContext \<Rightarrow> 'r uiContext blocking" where
  "Log msg u = (if length (msgChan u) < msgChanCap then Returns (u\<lparr>msgChan := msgChan u @ [msg]\<rparr>) else Blocks)"

section \<open>Drawing\<close>

definition numColumns :: int where "numColumns = 12"
definition statusLines :: int where "statusLines = 1"
definition logLines :: int where "logLines = 4"

datatype draw = Text int int string | Line int int int char

definition columnX :: "terminal \<Rightarrow> int \<Rightarrow> int" where
  "columnX t col = (if col \<ge> numColumns then width t else width t * col div numColumns)"

definition yFromBottom :: "terminal \<Rightarrow> int \<Rightarrow> int" where
  "yFromBottom t n = height t - 1 - n"

definition renderHeader :: "draw list" where
  "renderHeader = [Text 0 0 ''Key'', Text 8 0 ''Requests (est)'', Text 9 0 ''Size'', Text 10 0 ''Bandwidth (est)'', Line 0 12 1 (CHR ''-'')]"

fun renderReport_loop :: "int \<Rightarrow> int \<Rightarrow> KeyReport list \<Rightarrow> draw list" where
  "renderReport_loop lastY i [] = []"
| "renderReport_loop lastY i (kr # krs) =
     (let y = i + 2 in
      if y > lastY then []
      else [Text 0 y (Name kr), Text 8 y (Itoa (RequestsEstimate kr)), Text 9 y (Itoa (RSize kr)), Text 10 y (Itoa (TrafficEstimate kr))] @
        renderReport_loop lastY (i + 1) krs)"

definition renderReport :: "terminal \<Rightarrow> KeyReport list \<Rightarrow> draw list" where
  "renderReport t rep = renderReport_loop (yFromBottom t (statusLines + logLines)) 0 rep"

fun renderMessages_loop :: "terminal \<Rightarrow> int \<Rightarrow> string list \<Rightarrow> draw list" where
  "renderMessages_loop t i [] = []"
| "renderMessages_loop t i (msg # msgs) = Text 0 (yFromBottom t (i + statusLines)) msg # renderMessages_loop t (i + 1) msgs"

definition renderMessages :: "terminal \<Rightarrow> 'r uiContext \<Rightarrow> draw list" where
  "renderMessages t u = renderMessages_loop t 0 (messages u)"

definition dropLabel :: "(int \<Rightarrow> int \<Rightarrow> string) \<Rightarrow> ui_stats \<Rightarrow> string" where
  "dropLabel pct s =
     (let dropRate = (if PacketsPassedFilter s = 0 then '' 0.00'' else pct (PacketsDroppedTotal s) (PacketsPassedFilter s)) in
      ''Dropped: '' @ Itoa (PacketsDroppedKernel s) @ ''+'' @ Itoa (PacketsDroppedParser s) @ ''+'' @ Itoa (PacketsDroppedAnalysis s) @ ''='' @
      Itoa (PacketsDroppedTotal s) @ '' ('' @ dropRate @ ''%)'')"

text \<open>\<^verbatim>\<open>%10d\<close>\<close>

definition pad10 :: "int \<Rightarrow> string" where
  "pad10 i = replicate (10 - length (Itoa i)) (CHR '' '') @ Itoa i"

definition renderFooter :: "terminal \<Rightarrow> draw list" where
  "renderFooter t =
     (let y = yFromBottom t 0; s = statProvider t in
      [Text 0 y (stamp t), Text 2 y (dropLabel (percent t) s), Text 4 y (''Packets: '' @ pad10 (PacketsPassedFilter s)),
       Text 6 y (''GET responses: '' @ pad10 (ResponsesParsed s))])"

section \<open>Events\<close>

text \<open>An update; \<open>its\<close> is the order in which the workers' maps are iterated.\<close>

definition update :: "terminal \<Rightarrow> (keyInfo \<times> int) list list \<Rightarrow> 'r uiContext \<Rightarrow> (ui_error option \<times> draw list \<times> 'r uiContext) option" where
  "update t its u =
     (case clearErr t of
        Some e \<Rightarrow> Some (Some e, [], u)
      | None \<Rightarrow>
          do { (rep, p) \<leftarrow> Report its (analysis u) (\<not> cumulative u);
               let u = u\<lparr>analysis := p\<rparr>;
               let u = (if \<not> paused u then u\<lparr>prevReport := rep\<rparr> else u);
               Some (flushErr t, renderHeader @ renderReport t (prevReport u) @ renderFooter t @ renderMessages t u, u) })"

definition handlePause :: "'r uiContext \<Rightarrow> 'r uiContext blocking" where
  "handlePause u =
     (let u = u\<lparr>paused := \<not> paused u\<rparr> in
      if paused u then Log (''Updates paused'' @ [CHR 0x0A]) u else Log (''Updates unpaused'' @ [CHR 0x0A]) u)"

definition handleNewMessage :: "string \<Rightarrow> 'r uiContext \<Rightarrow> 'r uiContext" where
  "handleNewMessage msg u =
     (if int (length (messages u)) < logLines then u\<lparr>messages := messages u @ [msg]\<rparr>
      else u\<lparr>messages := drop 1 (messages u) @ [msg]\<rparr>)"

datatype ui_key = KeyCtrlC | KeyCtrlL | OtherKey
datatype ui_event = EventKey char ui_key | EventResize | OtherEvent

definition handleEvent ::
  "terminal \<Rightarrow> (keyInfo \<times> int) list list \<Rightarrow> ui_event \<Rightarrow> 'r uiContext \<Rightarrow> (ui_error option \<times> 'r uiContext) blocking option" where
  "handleEvent t its ev u =
     (case ev of
        EventKey ch key \<Rightarrow>
          (case (if ch = CHR ''p'' then handlePause u else Returns u) of
             Blocks \<Rightarrow> Some Blocks
           | Returns u \<Rightarrow>
               if ch = CHR ''q'' \<or> key = KeyCtrlC then Some (Returns (Some errQuitRequested, u))
               else if key = KeyCtrlL
               then do { (err, ds, u) \<leftarrow> update t its u; Some (Returns (if err \<noteq> None then err else syncErr t, u)) }
               else Some (Returns (None, u)))
      | EventResize \<Rightarrow> do { (err, ds, u) \<leftarrow> update t its u; Some (Returns (err, u)) }
      | OtherEvent \<Rightarrow> Some (Returns (None, u)))"

text \<open>
  The event loop, driven by what \<open>select\<close> chooses; messages that other goroutines log arrive in between and wait when the channel is full.
  The loop ends with a result, or gets stuck in a send.
\<close>

datatype input =
    UpdateTick terminal "(keyInfo \<times> int) list list"
  | NextMessage
  | UserEvent terminal "(keyInfo \<times> int) list list" ui_event
  | Logged string

datatype 'r loop_state = Running "'r uiContext" | Finished "ui_error option" | Stuck

definition loop_result :: "ui_error option \<Rightarrow> 'r uiContext \<Rightarrow> 'r loop_state" where
  "loop_result err u =
     (case err of None \<Rightarrow> Running u | Some e \<Rightarrow> if e = errQuitRequested then Finished None else Finished (Some e))"

fun loop_step :: "input \<Rightarrow> 'r uiContext \<Rightarrow> 'r loop_state option" where
  "loop_step (UpdateTick t its) u =
     do { (err, ds, u) \<leftarrow> update t its u; Some (case err of None \<Rightarrow> Running u | Some e \<Rightarrow> Finished (Some e)) }"
| "loop_step NextMessage u =
     (case msgChan u of [] \<Rightarrow> Some (Running u) | m # ms \<Rightarrow> Some (Running (handleNewMessage m (u\<lparr>msgChan := ms\<rparr>))))"
| "loop_step (UserEvent t its ev) u =
     do { r \<leftarrow> handleEvent t its ev u; Some (case r of Blocks \<Rightarrow> Stuck | Returns (err, u) \<Rightarrow> loop_result err u) }"
| "loop_step (Logged m) u = Some (case Log m u of Returns u \<Rightarrow> Running u | Blocks \<Rightarrow> Running u)"

fun eventLoop :: "input list \<Rightarrow> 'r loop_state \<Rightarrow> 'r loop_state option" where
  "eventLoop [] s = Some s"
| "eventLoop (i # is) (Running u) = do { s \<leftarrow> loop_step i u; eventLoop is s }"
| "eventLoop (i # is) (Finished err) = Some (Finished err)"
| "eventLoop (i # is) Stuck = Some Stuck"

text \<open>The whole loop: the terminal may fail to open, and the screen is drawn once before the first event.\<close>

definition runTermbox :: "ui_error option \<Rightarrow> terminal \<Rightarrow> (keyInfo \<times> int) list list \<Rightarrow> input list \<Rightarrow> 'r uiContext \<Rightarrow> 'r loop_state option" where
  "runTermbox initErr t its is u =
     (case initErr of Some e \<Rightarrow> Some (Finished (Some e)) | None \<Rightarrow> eventLoop (UpdateTick t its # is) (Running u))"

section \<open>Layout\<close>

fun row :: "draw \<Rightarrow> int" where
  "row (Text col y txt) = y"
| "row (Line col span y ch) = y"

fun place :: "draw \<Rightarrow> int \<times> int" where
  "place (Text col y txt) = (col, y)"
| "place (Line col span y ch) = (col, y)"

lemma renderReport_rows: "d \<in> set (renderReport_loop lastY i krs) \<Longrightarrow> i + 2 \<le> row d \<and> row d \<le> lastY"
  by (induction lastY i krs rule: renderReport_loop.induct) (auto simp: Let_def split: if_splits)

lemma snd_place: "snd (place d) = row d"
  by (cases d) auto

lemma place_notin: "(\<And>d. d \<in> set ds \<Longrightarrow> row d \<noteq> y) \<Longrightarrow> (c, y) \<notin> place ` set ds"
  using snd_place by (auto simp: image_iff) (metis snd_conv)

lemma renderReport_distinct: "distinct (map place (renderReport_loop lastY i krs))"
proof (induction lastY i krs rule: renderReport_loop.induct)
  case (2 lastY i kr krs)
  have "row d \<noteq> i + 2" if "d \<in> set (renderReport_loop lastY (i + 1) krs)" for d
    using renderReport_rows [OF that] by linarith
  then have "(c, i + 2) \<notin> place ` set (renderReport_loop lastY (i + 1) krs)" for c by (rule place_notin)
  with 2 show ?case by (simp add: Let_def)
qed simp

lemma renderMessages_rows:
  "d \<in> set (renderMessages_loop t i msgs) \<Longrightarrow> yFromBottom t (i + int (length msgs)) \<le> row d \<and> row d \<le> yFromBottom t (i + 1)"
  by (induction t i msgs rule: renderMessages_loop.induct) (auto simp: yFromBottom_def statusLines_def)

lemma renderMessages_distinct: "distinct (map place (renderMessages_loop t i msgs))"
proof (induction t i msgs rule: renderMessages_loop.induct)
  case (2 t i msg msgs)
  have "row d \<noteq> yFromBottom t (i + 1)" if "d \<in> set (renderMessages_loop t (i + 1) msgs)" for d
    using renderMessages_rows [OF that] by (auto simp: yFromBottom_def)
  then have "(0, yFromBottom t (i + 1)) \<notin> place ` set (renderMessages_loop t (i + 1) msgs)" by (rule place_notin)
  with 2 show ?case by (simp add: statusLines_def)
qed simp

lemma columnX_mono:
  assumes "12 \<le> width t" and "0 \<le> c" and "c < d" and "d \<le> 12"
  shows "columnX t c < columnX t d"
proof -
  have "width t * c + 12 \<le> width t * d"
    using assms mult_left_mono [of "c + 1" d "width t"] by (simp add: distrib_left)
  then have "(width t * c + 12) div 12 \<le> width t * d div 12" by (intro zdiv_mono1) simp_all
  moreover have "(width t * c + 12) div 12 = width t * c div 12 + 1" by simp
  ultimately show ?thesis using assms by (auto simp: columnX_def numColumns_def)
qed

section \<open>Messages\<close>

lemma handleNewMessage_messages:
  "messages u = drop (length ms - 4) ms \<Longrightarrow> messages (handleNewMessage m u) = drop (length (ms @ [m]) - 4) (ms @ [m])"
proof (cases "length ms < 4")
  case False
  assume "messages u = drop (length ms - 4) ms"
  moreover have "Suc (length ms - 4) = length ms - 3" "length ms - 3 \<le> length ms" using False by auto
  ultimately show ?thesis using False by (simp add: handleNewMessage_def logLines_def)
qed (simp add: handleNewMessage_def logLines_def)

lemma log_fills:
  "length (msgChan u) \<le> 128 \<Longrightarrow> \<exists>u'. eventLoop (map Logged ms @ is) (Running u) = eventLoop is (Running u') \<and>
     length (msgChan u') = min 128 (length (msgChan u) + length ms)"
proof (induction ms arbitrary: u)
  case (Cons m ms)
  show ?case
  proof (cases "length (msgChan u) < 128")
    case True
    with Cons.IH [of "u\<lparr>msgChan := msgChan u @ [m]\<rparr>"] show ?thesis by (auto simp: Log_def msgChanCap_def)
  next
    case False
    with Cons show ?thesis by (fastforce simp: Log_def msgChanCap_def)
  qed
qed auto

lemma eventLoop_stuck [simp]: "eventLoop is Stuck = Some Stuck"
  by (cases "is") auto

lemma eventLoop_finished [simp]: "eventLoop is (Finished e) = Some (Finished e)"
  by (cases "is") auto

section \<open>Pausing\<close>

fun is_pause :: "input \<Rightarrow> bool" where
  "is_pause (UserEvent t its (EventKey ch key)) = (ch = CHR ''p'')"
| "is_pause _ = False"

definition frozen :: "KeyReport list \<Rightarrow> 'r uiContext \<Rightarrow> bool" where
  "frozen rep u \<longleftrightarrow> paused u \<and> prevReport u = rep"

lemma update_frozen: "\<lbrakk> update t its u = Some (err, ds, u'); frozen rep u \<rbrakk> \<Longrightarrow> frozen rep u'"
  by (auto simp: update_def frozen_def Option.bind_eq_Some_conv Let_def split: option.splits if_splits)

lemma loop_step_frozen:
  assumes "loop_step i u = Some (Running u')" and "frozen rep u" and "\<not> is_pause i"
  shows "frozen rep u'"
proof (cases i)
  case (UpdateTick t its)
  with assms update_frozen show ?thesis by (fastforce simp: Option.bind_eq_Some_conv split: option.splits)
next
  case NextMessage
  with assms show ?thesis by (auto simp: handleNewMessage_def frozen_def split: list.splits if_splits)
next
  case (UserEvent t its ev)
  with assms update_frozen show ?thesis
    by (cases ev) (fastforce simp: handleEvent_def loop_result_def Option.bind_eq_Some_conv split: option.splits if_splits blocking.splits)+
next
  case (Logged m)
  with assms show ?thesis by (auto simp: Log_def frozen_def split: if_splits)
qed

lemma eventLoop_frozen:
  "\<lbrakk> eventLoop is s = Some (Running u'); s = Running u; frozen rep u; \<forall>i\<in>set is. \<not> is_pause i \<rbrakk> \<Longrightarrow> frozen rep u'"
proof (induction "is" s arbitrary: u rule: eventLoop.induct)
  case (2 i "is" v)
  then obtain s where s: "loop_step i v = Some s" "eventLoop is s = Some (Running u')" by (auto simp: Option.bind_eq_Some_conv)
  then obtain w where "s = Running w" by (cases s) auto
  with 2 s loop_step_frozen [of i v w rep] show ?case by auto
qed auto

section \<open>Properties\<close>

text \<open>
  Nothing is drawn over anything else: on a terminal of at least seven rows the header, the lines of the report, cut off where it would be too long, the status
  line and up to four messages occupy different places inside the terminal, the status line alone in the last row; and on at least twelve
  columns of characters different columns start at different positions inside the terminal.
\<close>

theorem layout_disjoint:
  assumes "7 \<le> height t" and "length (messages u) \<le> 4"
  shows "distinct (map place (renderHeader @ renderReport t rep @ renderFooter t @ renderMessages t u)) \<and>
    (\<forall>d\<in>set (renderHeader @ renderReport t rep @ renderMessages t u). 0 \<le> row d \<and> row d < height t - 1) \<and>
    (\<forall>d\<in>set (renderFooter t). row d = height t - 1) \<and>
    (12 \<le> width t \<longrightarrow> (\<forall>c d. 0 \<le> c \<longrightarrow> c < d \<longrightarrow> d \<le> 12 \<longrightarrow> columnX t c < columnX t d \<and> columnX t d \<le> width t))"
proof -
  let ?rep = "renderReport t rep" and ?ft = "renderFooter t" and ?msg = "renderMessages t u"
  have r: "2 \<le> row d \<and> row d \<le> height t - 6" if "d \<in> set ?rep" for d
    using renderReport_rows [of d "yFromBottom t 5" 0 rep] that by (simp add: renderReport_def yFromBottom_def statusLines_def logLines_def)
  have m: "height t - 5 \<le> row d \<and> row d \<le> height t - 2" if "d \<in> set ?msg" for d
    using renderMessages_rows [of d t 0 "messages u"] that assms(2) by (auto simp: renderMessages_def yFromBottom_def)
  have h: "0 \<le> row d \<and> row d \<le> 1" if "d \<in> set renderHeader" for d using that by (auto simp: renderHeader_def)
  have f: "row d = height t - 1" if "d \<in> set ?ft" for d using that by (auto simp: renderFooter_def yFromBottom_def Let_def)
  have apart: "place ` set xs \<inter> place ` set ys = {}" if "\<And>x y. \<lbrakk> x \<in> set xs; y \<in> set ys \<rbrakk> \<Longrightarrow> row x \<noteq> row y" for xs ys
    using that snd_place by (auto simp: image_iff) metis
  have "place ` set renderHeader \<inter> place ` set ?rep = {}" "place ` set renderHeader \<inter> place ` set ?msg = {}"
    "place ` set ?rep \<inter> place ` set ?msg = {}" "place ` set renderHeader \<inter> place ` set ?ft = {}"
    "place ` set ?rep \<inter> place ` set ?ft = {}" "place ` set ?ft \<inter> place ` set ?msg = {}"
    using h r m f assms(1) by (intro apart; fastforce)+
  moreover have "distinct (map place renderHeader)" "distinct (map place ?ft)" by (simp_all add: renderHeader_def renderFooter_def Let_def)
  ultimately have "distinct (map place (renderHeader @ ?rep @ ?ft @ ?msg))"
    using renderReport_distinct renderMessages_distinct by (auto simp: renderReport_def renderMessages_def)
  moreover have "0 \<le> row d \<and> row d < height t - 1" if "d \<in> set (renderHeader @ ?rep @ ?msg)" for d
    using that h [of d] r [of d] m [of d] assms(1) by auto
  moreover have "columnX t d \<le> width t" if "12 \<le> width t" "0 \<le> d" "d \<le> 12" for d
    using columnX_mono [OF that(1,2), of 12] that by (cases "d = 12") (auto simp: columnX_def numColumns_def)
  ultimately show ?thesis using f columnX_mono by auto
qed

definition sample_terminal :: terminal where
  "sample_terminal = \<lparr>width = 80, height = 24, clearErr = None, flushErr = None, syncErr = None,
     statProvider = \<lparr>PacketsEnteredFilter = 9, PacketsPassedFilter = 8, us_PacketsCaptured = 7, PacketsDroppedKernel = 1, PacketsDroppedParser = 1,
       PacketsDroppedAnalysis = 0, PacketsDroppedTotal = 2, ResponsesParsed = 5\<rparr>,
     stamp = ''12:00:00.000'', percent = (\<lambda>n d. ''25.00'')\<rparr>"

theorem layout_disjoint_witness:
  "distinct (map place (renderHeader @ renderReport sample_terminal [\<lparr>Name = ''k'', RSize = 1, RequestsEstimate = 2, TrafficEstimate = 2\<rparr>] @
     renderFooter sample_terminal @ renderMessages sample_terminal (New (Pool_New 1 10 :: nat Pool) False))) \<and> columnX sample_terminal 8 < columnX sample_terminal 9"
  using layout_disjoint [of sample_terminal "New (Pool_New 1 10 :: nat Pool) False"] by (simp add: sample_terminal_def New_def)

text \<open>
  The interface shows the last four messages, in the order in which they were logged.
\<close>

theorem messages_last_four:
  "messages (foldl (\<lambda>u m. handleNewMessage m u) (New pool cumul) ms) = drop (length ms - 4) ms"
proof (induction ms rule: rev_induct)
  case (snoc m ms)
  then show ?case using handleNewMessage_messages by (simp del: length_append)
qed (simp add: New_def)

text \<open>
  While the display is paused the report shown does not change, whatever else happens, until the pause key is pressed again.
\<close>

theorem pause_freezes_report:
  assumes "eventLoop is (Running u) = Some (Running u')" and "paused u" and "\<forall>i\<in>set is. \<not> is_pause i"
  shows "paused u' \<and> prevReport u' = prevReport u"
  using eventLoop_frozen [OF assms(1) refl _ assms(3), of "prevReport u"] assms(2) by (simp add: frozen_def)

theorem pause_freezes_report_witness:
  "\<exists>u'. eventLoop [Logged ''m'', NextMessage] (Running ((New (Pool_New 1 10 :: nat Pool) False)\<lparr>paused := True\<rparr>)) = Some (Running u') \<and>
     paused u' \<and> prevReport u' = []"
  using pause_freezes_report [of "[Logged ''m'', NextMessage]" "(New (Pool_New 1 10 :: nat Pool) False)\<lparr>paused := True\<rparr>"]
  by (simp add: New_def Log_def msgChanCap_def)

text \<open>
  C38.  Pausing can hang the interface.  \<open>handlePause\<close> logs a message from the goroutine that receives the messages: once 128 messages wait in the channel, the pause key
  blocks the event loop for ever, and no later event, not even the quit key, is handled.
\<close>

theorem pause_hangs:
  assumes "128 \<le> length ms"
  shows "eventLoop (map Logged ms @ UserEvent t its (EventKey (CHR ''p'') key) # is) (Running (New pool cumul)) = Some Stuck"
proof -
  obtain u where u: "eventLoop (map Logged ms @ UserEvent t its (EventKey (CHR ''p'') key) # is) (Running (New pool cumul)) =
      eventLoop (UserEvent t its (EventKey (CHR ''p'') key) # is) (Running u)" "length (msgChan u) = min 128 (length ms)"
    using log_fills [of "New pool cumul" ms "UserEvent t its (EventKey (CHR ''p'') key) # is"]
    by (auto simp: New_def simp del: eventLoop.simps)
  then have "handlePause u = Blocks" using assms by (simp add: handlePause_def Log_def msgChanCap_def Let_def)
  then show ?thesis unfolding u(1) by (simp add: handleEvent_def)
qed

theorem pause_hangs_witness:
  "eventLoop (map Logged (replicate 200 ''m'') @ UserEvent sample_terminal [] (EventKey (CHR ''p'') OtherKey) #
     [UserEvent sample_terminal [] (EventKey (CHR ''q'') OtherKey)]) (Running (New (Pool_New 1 10 :: nat Pool) False)) = Some Stuck"
  by (rule pause_hangs) simp

end
