(* ===== verification/Logger.thy ===== *)
theory Logger
  imports Prelude
begin

text \<open>
  The loggers of \<^verbatim>\<open>log/logger.go\<close> and the redirection of log messages in \<^verbatim>\<open>main.go\<close>.  A message is the list of its items, taken as
  strings.  A logger is a value; what the loggers write to is the record \<open>log_state\<close>: the console, the one buffer logger and its mutex, the
  destination of the one proxy logger, and the channel of the user interface (\<^verbatim>\<open>presentation.go\<close>, \<open>uiContext.Log\<close>).
  \<open>None\<close> stands for a call that panics or never returns.
\<close>

type_synonym items = "string list"

datatype Logger = ConsoleLogger | BufferLogger | ProxyLogger | ContextLogger string Logger | UiLogger

record log_state =
  console :: "items list"
  buffered :: "items list"
  bufferLocked :: bool
  proxied :: "Logger option"
  uiChan :: "string list"

definition uiChanCap :: nat where
  "uiChanCap = 128"

text \<open>\<open>fmt.Sprintln\<close> of strings: the items with a blank between them and a newline.\<close>

fun Sprintln :: "items \<Rightarrow> string" where
  "Sprintln [] = [CHR 0x0A]"
| "Sprintln [x] = x @ [CHR 0x0A]"
| "Sprintln (x # y # xs) = x @ CHR '' '' # Sprintln (y # xs)"

definition ui_Log :: "items \<Rightarrow> log_state \<Rightarrow> log_state option" where
  "ui_Log items s = (if length (uiChan s) < uiChanCap then Some (s\<lparr>uiChan := uiChan s @ [Sprintln items]\<rparr>) else None)"

definition ConsoleLogger_Log :: "items \<Rightarrow> log_state \<Rightarrow> log_state" where
  "ConsoleLogger_Log items s = s\<lparr>console := console s @ [items]\<rparr>"

definition BufferLogger_Log :: "items \<Rightarrow> log_state \<Rightarrow> log_state option" where
  "BufferLogger_Log items s = (if bufferLocked s then None else Some (s\<lparr>buffered := buffered s @ [items]\<rparr>))"

text \<open>A context logger passes its context on as the first item.\<close>

definition ContextLogger_items :: "string \<Rightarrow> items \<Rightarrow> items" where
  "ContextLogger_items context items = context # items"

text \<open>Dispatch over the interface \<open>Logger\<close>: a proxy calls the logger it was set to, and panics before the first \<open>SetLogger\<close>.\<close>

partial_function (option) Log :: "Logger \<Rightarrow> items \<Rightarrow> log_state \<Rightarrow> log_state option" where
  "Log l items s =
     (case l of
        ConsoleLogger \<Rightarrow> Some (ConsoleLogger_Log items s)
      | BufferLogger \<Rightarrow> BufferLogger_Log items s
      | ProxyLogger \<Rightarrow> (case proxied s of None \<Rightarrow> None | Some l \<Rightarrow> Log l items s)
      | ContextLogger context l \<Rightarrow> Log l (ContextLogger_items context items) s
      | UiLogger \<Rightarrow> ui_Log items s)"

definition SetLogger :: "Logger \<Rightarrow> log_state \<Rightarrow> log_state" where
  "SetLogger l s = s\<lparr>proxied := Some l\<rparr>"

definition NewContext :: "Logger option \<Rightarrow> string \<Rightarrow> Logger option" where
  "NewContext l context = (case l of None \<Rightarrow> None | Some l \<Rightarrow> Some (ContextLogger context l))"

fun log_all :: "Logger \<Rightarrow> items list \<Rightarrow> log_state \<Rightarrow> log_state option" where
  "log_all l [] s = Some s"
| "log_all l (m # ms) s = do { s \<leftarrow> Log l m s; log_all l ms s }"

text \<open>The buffer's mutex is held while its messages are written.\<close>

definition WriteTo :: "Logger \<Rightarrow> log_state \<Rightarrow> log_state option" where
  "WriteTo l s =
     (if bufferLocked s then None
      else do { s' \<leftarrow> log_all l (buffered s) (s\<lparr>bufferLocked := True\<rparr>); Some (s'\<lparr>bufferLocked := False\<rparr>) })"

section \<open>Facts\<close>

lemma Log_simps [simp]:
  "Log ConsoleLogger items s = Some (s\<lparr>console := console s @ [items]\<rparr>)"
  "Log BufferLogger items s = (if bufferLocked s then None else Some (s\<lparr>buffered := buffered s @ [items]\<rparr>))"
  "Log ProxyLogger items s = (case proxied s of None \<Rightarrow> None | Some l \<Rightarrow> Log l items s)"
  "Log (ContextLogger context l) items s = Log l (context # items) s"
  "Log UiLogger items s = ui_Log items s"
  by (simp_all add: Log.simps ConsoleLogger_Log_def BufferLogger_Log_def ContextLogger_items_def)

lemma log_all_console:
  "proxied s = Some ConsoleLogger \<Longrightarrow> log_all ProxyLogger ms s = Some (s\<lparr>console := console s @ ms\<rparr>)"
  by (induction ms arbitrary: s) auto

lemma log_all_buffer:
  "\<lbrakk> proxied s = Some BufferLogger; \<not> bufferLocked s \<rbrakk> \<Longrightarrow> log_all ProxyLogger ms s = Some (s\<lparr>buffered := buffered s @ ms\<rparr>)"
  by (induction ms arbitrary: s) auto

text \<open>Nested contexts; the innermost was created first.\<close>

fun with_contexts :: "string list \<Rightarrow> Logger \<Rightarrow> Logger" where
  "with_contexts [] l = l"
| "with_contexts (c # cs) l = ContextLogger c (with_contexts cs l)"

lemma Log_contexts: "Log (with_contexts cs l) items s = Log l (rev cs @ items) s"
  by (induction cs arbitrary: items) auto

section \<open>Properties\<close>

text \<open>The part of \<open>main\<close> that redirects the log when there is no user interface, with the messages that are logged meanwhile.\<close>

definition nogui_logging :: "items list \<Rightarrow> items list \<Rightarrow> items list \<Rightarrow> log_state \<Rightarrow> log_state option" where
  "nogui_logging early meanwhile later s =
     do { let s = SetLogger BufferLogger s;
          s \<leftarrow> log_all ProxyLogger early s;
          let s = SetLogger ConsoleLogger s;
          s \<leftarrow> log_all ProxyLogger meanwhile s;
          s \<leftarrow> WriteTo ProxyLogger s;
          log_all ProxyLogger later s }"

text \<open>
  No message is lost at start-up: what is logged through the proxy before the destination is known, while it is switched and afterwards
  reaches the console exactly once, the early messages in order before the later ones.
\<close>

theorem startup_keeps_messages:
  assumes "\<not> bufferLocked s" and "buffered s = []"
  shows "\<exists>s'. nogui_logging early meanwhile later s = Some s' \<and> console s' = console s @ meanwhile @ early @ later \<and> \<not> bufferLocked s'"
  using assms by (simp add: nogui_logging_def SetLogger_def WriteTo_def log_all_console log_all_buffer)

definition fresh_log :: log_state where
  "fresh_log = \<lparr>console = [], buffered = [], bufferLocked = False, proxied = None, uiChan = []\<rparr>"

theorem startup_keeps_messages_witness:
  "\<exists>s'. nogui_logging [[''a''], [''b'']] [[''c'']] [[''d'']] fresh_log = Some s' \<and> console s' = [[''c''], [''a''], [''b''], [''d'']]"
  using startup_keeps_messages [of fresh_log "[[''a''], [''b'']]" "[[''c'']]" "[[''d'']]"] by (auto simp: fresh_log_def)

end
