(* ===== verification/Startup.thy ===== *)
theory Startup
  imports DecodeRun AssemblyPool Presentation Logger
begin

text \<open>
  The program's statistics, the construction of its parts and its profiles, \<^verbatim>\<open>main.go\<close> and \<^verbatim>\<open>profiling.go\<close>.  Which parts call which is in the theories of the
  parts, the redirection of the log in \<open>Logger\<close>.  Parsing the command line and signals are not modelled; the calls of the operating system and of
  Go's profiler are the actions of a trace, and their results a parameter.
\<close>

section \<open>Statistics\<close>

record capture_stats =
  PacketsReceived :: int
  cs_PacketsDropped :: int
  PacketsIfDropped :: int

text \<open>
  One call of the generated provider: the capture statistics are \<open>None\<close> when the source returns an error.  The counters of the global \<open>stats\<close> that belong to the capture then keep
  their values.  All sums wrap around like Go's \<open>int\<close>.
\<close>

definition statGenerator :: "capture_stats option \<Rightarrow> 's DecodePool.Pool \<Rightarrow> 'r Analysis.Pool \<Rightarrow> ui_stats \<Rightarrow> ui_stats" where
  "statGenerator captureStats decodePool analysisPool st =
     (let st = (case captureStats of
            None \<Rightarrow> st
          | Some c \<Rightarrow> st\<lparr>PacketsEnteredFilter := PacketsReceived c,
                            PacketsDroppedKernel := gint (PacketsIfDropped c + cs_PacketsDropped c)\<rparr>);
          (captured, dropped) = DecodePool.Stats decodePool;
          st = st\<lparr>us_PacketsCaptured := captured, PacketsDroppedParser := dropped\<rparr>;
          analysisStats = Analysis.Pool.stats analysisPool;
          st = st\<lparr>ResponsesParsed := EventsHandled analysisStats, PacketsDroppedAnalysis := EventsDropped analysisStats\<rparr>;
          st = st\<lparr>PacketsPassedFilter := gint (PacketsDroppedKernel st + us_PacketsCaptured st)\<rparr> in
      st\<lparr>PacketsDroppedTotal := gint (gint (PacketsDroppedKernel st + PacketsDroppedParser st) + PacketsDroppedAnalysis st)\<rparr>)"

section \<open>Starting\<close>

record options =
  netInterface :: string
  infile :: string
  opt_bufferSize :: int
  ports :: "int list"
  assemblyWorkers :: nat
  decodeWorkers :: nat
  analysisWorkers :: nat
  profiles :: "string list"
  opt_filter :: string
  opt_reportSize :: int
  interval :: int
  opt_cumulative :: bool
  noDelay :: bool
  noGui :: bool
  displayVersion :: bool

definition default_options :: options where
  "default_options =
     \<lparr>netInterface = [], infile = [], opt_bufferSize = 8, ports = [11211], assemblyWorkers = 8, decodeWorkers = 8, analysisWorkers = 32,
      profiles = [], opt_filter = [], opt_reportSize = 100, interval = 1, opt_cumulative = False, noDelay = False, noGui = False,
      displayVersion = False\<rparr>"

datatype start_error = FilterError string | SourceError capture_error

text \<open>The program prints its version, exits with a status after an error, or runs with its three pools; each decode worker is a caller of the assembly pool.\<close>

datatype ('r, 'h) startup =
    VersionShown
  | ExitStatus int start_error
  | Started "'r Analysis.Pool" AssemblyPool.Pool "'h opened DecodePool.Pool"

definition packetHandler :: "options \<Rightarrow> AssemblyPool.Pool" where
  "packetHandler opt = AssemblyPool.New (ports opt) (assemblyWorkers opt) (decodeWorkers opt)"

definition main_start ::
  "(string \<Rightarrow> string + 'r) \<Rightarrow> (keyInfo \<times> int) list list \<Rightarrow> ('i, 'h) pcap \<Rightarrow> options \<Rightarrow> ('r, 'h) startup" where
  "main_start compile its api opt =
     (if displayVersion opt then VersionShown
      else let analysisPool = Pool_New (analysisWorkers opt) (opt_reportSize opt);
               (err, analysisPool) = SetFilterPattern compile its analysisPool (opt_filter opt) in
        case err of
          Some e \<Rightarrow> ExitStatus 1 (FilterError e)
        | None \<Rightarrow>
            (case Capture_New api (netInterface opt) (infile opt) (opt_bufferSize opt) (noDelay opt) (ports opt) of
               Inl e \<Rightarrow> ExitStatus 2 (SourceError e)
             | Inr packetSource \<Rightarrow> Started analysisPool (packetHandler opt) (NewPool (decodeWorkers opt) packetSource)))"

lemma main_start_refuses:
  assumes "\<not> displayVersion opt" and "compile (opt_filter opt) = Inr re"
  shows "\<lbrakk> netInterface opt = []; infile opt = [] \<rbrakk> \<Longrightarrow> main_start compile its api opt = ExitStatus 2 (SourceError ErrNoSource)"
    and "\<lbrakk> netInterface opt \<noteq> []; infile opt \<noteq> [] \<rbrakk> \<Longrightarrow> main_start compile its api opt = ExitStatus 2 (SourceError ErrAmbiguousSource)"
  using assms by (auto simp: main_start_def SetFilterPattern_def setPattern_def Capture_New_def makeHandle_def attempt_def Let_def)

text \<open>
  With at most 128 decode workers, as many as the queue of an assembly worker has places, the assembly pool of the running program never refuses a batch.
\<close>

lemma started_never_refuses:
  assumes "main_start compile its api opt = Started p a d" and "decodeWorkers opt \<le> 128" and "0 < assemblyWorkers opt"
    and "AssemblyPool.run a ls q" and "\<forall>l\<in>set ls. label_ready l"
  shows "Dropped j i \<notin> set ls"
proof -
  have "a = AssemblyPool.New (ports opt) (assemblyWorkers opt) (decodeWorkers opt)"
    using assms(1) by (auto simp: main_start_def packetHandler_def Let_def split: if_splits prod.splits option.splits sum.splits)
  then have "unhurried (ports opt) a" using unhurried_New [OF assms(3)] assms(2) by (simp add: wiChCap_def)
  from no_drops [OF assms(4) this assms(5)] show ?thesis .
qed

section \<open>Profiling\<close>

fun isProfileEnabled :: "string list \<Rightarrow> string \<Rightarrow> bool" where
  "isProfileEnabled [] profile = False"
| "isProfileEnabled (p # ps) profile = (if p = profile then True else isProfileEnabled ps profile)"

lemma isProfileEnabled_set: "isProfileEnabled ps profile \<longleftrightarrow> profile \<in> set ps"
  by (induction ps) auto

datatype action =
    Create string | StartCPUProfile | StopCPUProfile | SetBlockProfileRate int | SetMemProfileRate int | WriteProfile string | Close string | Fatal

text \<open>Whether the calls that may fail succeed, and which profiles \<open>pprof.Lookup\<close> knows.\<close>

record profiler =
  can_create :: "string \<Rightarrow> bool"
  can_start :: bool
  known :: "string \<Rightarrow> bool"
  can_write :: "string \<Rightarrow> bool"
  can_close :: "string \<Rightarrow> bool"

text \<open>The actions so far, and whether the program still runs: \<open>log.Fatalln\<close> ends it at once, without deferred calls.\<close>

type_synonym trace = "action list \<times> bool"

definition followed_by :: "trace \<Rightarrow> trace \<Rightarrow> trace" where
  "followed_by t u = (if snd t then (fst t @ fst u, snd u) else t)"

definition may_fail :: "action \<Rightarrow> bool \<Rightarrow> trace" where
  "may_fail a ok = (if ok then ([a], True) else ([a, Fatal], False))"

definition startProfiling :: "profiler \<Rightarrow> string list \<Rightarrow> trace" where
  "startProfiling env ps =
     followed_by (if isProfileEnabled ps ''cpu''
       then followed_by (may_fail (Create ''cpu.pprof'') (can_create env ''cpu.pprof'')) (may_fail StartCPUProfile (can_start env))
       else ([], True))
     (followed_by (if isProfileEnabled ps ''block'' then ([SetBlockProfileRate 1], True) else ([], True))
     (if isProfileEnabled ps ''heap'' then ([SetMemProfileRate (16 * 1024)], True) else ([], True)))"

definition dumpProfile :: "profiler \<Rightarrow> string \<Rightarrow> trace" where
  "dumpProfile env p =
     (if p = ''cpu'' then ([StopCPUProfile], True)
      else let f = p @ ''.pprof'' in
        followed_by (may_fail (Create f) (can_create env f))
        (followed_by (if known env p then may_fail (WriteProfile p) (can_write env p) else ([], True))
        (may_fail (Close f) (can_close env f))))"

fun dumpProfiles :: "profiler \<Rightarrow> string list \<Rightarrow> trace" where
  "dumpProfiles env [] = ([], True)"
| "dumpProfiles env (p # ps) = followed_by (dumpProfile env p) (dumpProfiles env ps)"

text \<open>When nothing fails every requested profile is written to its file, in the order of the command line, and each file is closed.\<close>

fun created :: "action list \<Rightarrow> string list" where
  "created [] = []"
| "created (Create f # as) = f # created as"
| "created (_ # as) = created as"

fun closed_files :: "action list \<Rightarrow> string list" where
  "closed_files [] = []"
| "closed_files (Close f # as) = f # closed_files as"
| "closed_files (_ # as) = closed_files as"

lemma created_append [simp]: "created (as @ bs) = created as @ created bs"
  by (induction as rule: created.induct) auto

lemma closed_files_append [simp]: "closed_files (as @ bs) = closed_files as @ closed_files bs"
  by (induction as rule: closed_files.induct) auto

lemma dumpProfiles_files:
  assumes "\<And>f. can_create env f" and "\<And>p. can_write env p" and "\<And>f. can_close env f"
  shows "snd (dumpProfiles env ps) \<and> created (fst (dumpProfiles env ps)) = map (\<lambda>p. p @ ''.pprof'') (filter (\<lambda>p. p \<noteq> ''cpu'') ps) \<and>
    closed_files (fst (dumpProfiles env ps)) = created (fst (dumpProfiles env ps))"
  using assms by (induction ps) (auto simp: dumpProfile_def followed_by_def may_fail_def Let_def)

end
