(* ===== verification/AnalysisRun.thy ===== *)
theory AnalysisRun
  imports Analysis Runs
begin

text \<open>
  The analysis pool with all its goroutines: any number of clients call \<open>HandleEvents\<close>, \<open>Report\<close>, \<open>Reset\<close> and \<open>SetFilterPattern\<close> (\<^verbatim>\<open>analysis/pool.go\<close>,
  \<^verbatim>\<open>analysis/report.go\<close>) while each worker runs its loop (\<^verbatim>\<open>analysis/worker.go\<close>).  The channels for requests, replies and resets are
  unbuffered, so a send and its receipt are one step; a worker that has accepted a request for its top entries does nothing else until its reply has been received.
\<close>

section \<open>State\<close>

text \<open>Where a client is in its call.  \<open>Asking i\<close> is in front of \<open>w.top\<close> for worker \<open>i\<close>, \<open>Awaiting i\<close> inside it, \<open>Clearing i\<close> in front of \<open>w.reset\<close>.\<close>

datatype client =
    Idle
  | Handling nat "Event list list"
  | Asking nat bool "keyInfo itemCount list"
  | Awaiting nat bool "keyInfo itemCount list"
  | Clearing nat "keyInfo itemCount list"
  | Resetting nat

record 'r system =
  pool :: "'r Pool"
  replying :: "keyInfo itemCount list option list"
  clients :: "client list"

definition start :: "nat \<Rightarrow> int \<Rightarrow> 'r option \<Rightarrow> nat \<Rightarrow> 'r system" where
  "start n rs f m = \<lparr>pool = pool_with n rs f, replying = replicate n None, clients = replicate m Idle\<rparr>"

datatype label =
    Called nat "Event list"
  | Returned nat
  | ReportCalled nat bool
  | Reported nat "KeyReport list"
  | ResetCalled nat
  | FilterSet nat string "string option"
  | Counted nat "keyInfo list"
  | Snapshot nat nat "keyInfo itemCount list"
  | Cleared nat
  | Internal

abbreviation nworkers :: "'r system \<Rightarrow> nat" where
  "nworkers s \<equiv> length (workers (pool s))"

definition set_client :: "nat \<Rightarrow> client \<Rightarrow> 'r system \<Rightarrow> 'r system" where
  "set_client c x s = s\<lparr>clients := (clients s)[c := x]\<rparr>"

definition set_worker :: "nat \<Rightarrow> worker \<Rightarrow> 'r system \<Rightarrow> 'r system" where
  "set_worker i w s = s\<lparr>pool := (pool s)\<lparr>workers := (workers (pool s))[i := w]\<rparr>\<rparr>"

text \<open>What one round of the loop in \<open>HandleEvents\<close> does to the statistics.\<close>

definition note_events :: "worker_error option \<Rightarrow> nat \<Rightarrow> 'r system \<Rightarrow> 'r system" where
  "note_events err k s =
     s\<lparr>pool := (pool s)\<lparr>stats := (if err = Some errQueueFull then addDropped (stats (pool s)) k else addHandled (stats (pool s)) k)\<rparr>\<rparr>"

section \<open>Steps\<close>

inductive step :: "('r \<Rightarrow> string \<Rightarrow> bool) \<Rightarrow> (string \<Rightarrow> string + 'r) \<Rightarrow> 'r system \<Rightarrow> label \<Rightarrow> 'r system \<Rightarrow> bool" for matches compile where
  handle: "\<lbrakk> c < length (clients s); clients s ! c = Idle;
      partitionEvents (nworkers s) (filterEvents matches (filt (pool s)) evts) = Some parts \<rbrakk>
    \<Longrightarrow> step matches compile s (Called c evts) (set_client c (Handling 0 parts) s)"
| skip: "\<lbrakk> c < length (clients s); clients s ! c = Handling i parts; i < length parts; parts ! i = [] \<rbrakk>
    \<Longrightarrow> step matches compile s Internal (set_client c (Handling (Suc i) parts) s)"
| send: "\<lbrakk> c < length (clients s); clients s ! c = Handling i parts; i < length parts; parts ! i \<noteq> []; i < nworkers s;
      worker_handleEvents (workers (pool s) ! i) (parts ! i) = Some (err, w) \<rbrakk>
    \<Longrightarrow> step matches compile s Internal (set_client c (Handling (Suc i) parts) (note_events err (length (parts ! i)) (set_worker i w s)))"
| handled: "\<lbrakk> c < length (clients s); clients s ! c = Handling (length parts) parts \<rbrakk>
    \<Longrightarrow> step matches compile s (Returned c) (set_client c Idle s)"
| receive: "\<lbrakk> i < nworkers s; replying s ! i = None; kisChan (workers (pool s) ! i) = kis # rest; worker_receive (workers (pool s) ! i) = Some w \<rbrakk>
    \<Longrightarrow> step matches compile s (Counted i kis) (set_worker i w s)"
| report: "\<lbrakk> c < length (clients s); clients s ! c = Idle \<rbrakk>
    \<Longrightarrow> step matches compile s (ReportCalled c shouldReset) (set_client c (Asking 0 shouldReset []) s)"
| ask: "\<lbrakk> c < length (clients s); clients s ! c = Asking i shouldReset es; i < nworkers s; replying s ! i = None;
      iteration it (hl (workers (pool s) ! i)); worker_top it (workers (pool s) ! i) (reportSize (pool s)) = Some ts \<rbrakk>
    \<Longrightarrow> step matches compile s (Snapshot c i ts) (set_client c (Awaiting i shouldReset es) (s\<lparr>replying := (replying s)[i := Some ts]\<rparr>))"
| reply: "\<lbrakk> c < length (clients s); clients s ! c = Awaiting i shouldReset es; i < nworkers s; replying s ! i = Some ts \<rbrakk>
    \<Longrightarrow> step matches compile s Internal
          (set_client c (if shouldReset then Clearing i (es @ ts) else Asking (Suc i) False (es @ ts)) (s\<lparr>replying := (replying s)[i := None]\<rparr>))"
| clear: "\<lbrakk> c < length (clients s); clients s ! c = Clearing i es; i < nworkers s; replying s ! i = None; iteration it (hl (workers (pool s) ! i)) \<rbrakk>
    \<Longrightarrow> step matches compile s (Cleared i) (set_client c (Asking (Suc i) True es) (set_worker i (worker_reset it (workers (pool s) ! i)) s))"
| finish: "\<lbrakk> c < length (clients s); clients s ! c = Asking (nworkers s) shouldReset es \<rbrakk>
    \<Longrightarrow> step matches compile s (Reported c (sort_Report (map keyReport es))) (set_client c Idle s)"
| reset: "\<lbrakk> c < length (clients s); clients s ! c = Idle \<rbrakk> \<Longrightarrow> step matches compile s (ResetCalled c) (set_client c (Resetting 0) s)"
| reset_one: "\<lbrakk> c < length (clients s); clients s ! c = Resetting i; i < nworkers s; replying s ! i = None; iteration it (hl (workers (pool s) ! i)) \<rbrakk>
    \<Longrightarrow> step matches compile s (Cleared i) (set_client c (Resetting (Suc i)) (set_worker i (worker_reset it (workers (pool s) ! i)) s))"
| reset_end: "\<lbrakk> c < length (clients s); clients s ! c = Resetting (nworkers s) \<rbrakk> \<Longrightarrow> step matches compile s (Returned c) (set_client c Idle s)"
| filter: "\<lbrakk> c < length (clients s); clients s ! c = Idle; setPattern compile (filt (pool s)) pattern = (err, f) \<rbrakk>
    \<Longrightarrow> step matches compile s (FilterSet c pattern err)
          (set_client c (if err = None then Resetting 0 else Idle) (s\<lparr>pool := (pool s)\<lparr>filt := f\<rparr>\<rparr>))"

abbreviation run :: "('r \<Rightarrow> string \<Rightarrow> bool) \<Rightarrow> (string \<Rightarrow> string + 'r) \<Rightarrow> 'r system \<Rightarrow> label list \<Rightarrow> 'r system \<Rightarrow> bool" where
  "run matches compile \<equiv> runs (step matches compile)"

lemma set_simps [simp]:
  "pool (set_client c x s) = pool s" "replying (set_client c x s) = replying s" "clients (set_client c x s) = (clients s)[c := x]"
  "pool (set_worker i w s) = (pool s)\<lparr>workers := (workers (pool s))[i := w]\<rparr>" "replying (set_worker i w s) = replying s"
  "clients (set_worker i w s) = clients s"
  "workers (pool (note_events err k s)) = workers (pool s)" "filt (pool (note_events err k s)) = filt (pool s)"
  "reportSize (pool (note_events err k s)) = reportSize (pool s)" "replying (note_events err k s) = replying s"
  "clients (note_events err k s) = clients s"
  by (simp_all add: set_client_def set_worker_def note_events_def)

section \<open>What the workers have counted\<close>

text \<open>What worker \<open>i\<close> has counted since its hot list was last cleared.\<close>

fun counts :: "nat \<Rightarrow> keyInfo list \<Rightarrow> label \<Rightarrow> keyInfo list" where
  "counts i kis (Counted j new) = (if j = i then kis @ new else kis)"
| "counts i kis (Cleared j) = (if j = i then [] else kis)"
| "counts i kis _ = kis"

definition since :: "nat \<Rightarrow> label list \<Rightarrow> keyInfo list" where
  "since i ls = foldl (counts i) [] ls"

lemma since_simps [simp]: "since i [] = []" "since i (ls @ [l]) = counts i (since i ls) l"
  by (simp_all add: since_def)

text \<open>Everything that was counted in a run.\<close>

fun new_keys :: "label \<Rightarrow> keyInfo list" where
  "new_keys (Counted j new) = new"
| "new_keys _ = []"

lemma length_since: "length (since i ls) \<le> length (concat (map new_keys ls))"
proof (induction ls rule: rev_induct)
  case (snoc l ls)
  then show ?case by (cases l) auto
qed simp

definition sys_ok :: "nat \<Rightarrow> int \<Rightarrow> label list \<Rightarrow> 'r system \<Rightarrow> bool" where
  "sys_ok n rs ls s \<longleftrightarrow> nworkers s = n \<and> length (replying s) = n \<and> reportSize (pool s) = rs \<and>
     (\<forall>i<n. \<not> kisClosed (workers (pool s) ! i) \<and> hl (workers (pool s) ! i) = foldl AddWeighted NewPerfect (since i ls))"

lemma sys_ok_step:
  "\<lbrakk> step matches compile s l s'; sys_ok n rs ls s \<rbrakk> \<Longrightarrow> sys_ok n rs (ls @ [l]) s'"
proof (induction rule: step.induct)
  case (send c s i parts err w)
  then show ?case by (auto simp: sys_ok_def worker_handleEvents_def nth_list_update Let_def split: if_splits)
next
  case (receive i s kis rest w)
  then show ?case by (auto simp: sys_ok_def worker_receive_def nth_list_update)
next
  case (clear c s i es it)
  then show ?case by (auto simp: sys_ok_def worker_reset_def Reset_iteration NewPerfect_def nth_list_update)
next
  case (reset_one c s i it)
  then show ?case by (auto simp: sys_ok_def worker_reset_def Reset_iteration NewPerfect_def nth_list_update)
qed (simp_all add: sys_ok_def)

lemma sys_ok_start: "sys_ok n rs [] (start n rs f m)"
  by (simp add: sys_ok_def start_def pool_with_def Pool_New_def newWorker_def)

section \<open>Who gets which reply\<close>

definition awaits :: "'r system \<Rightarrow> nat \<Rightarrow> nat \<Rightarrow> bool" where
  "awaits s c i \<longleftrightarrow> c < length (clients s) \<and> (\<exists>r es. clients s ! c = Awaiting i r es)"

definition replies_ok :: "'r system \<Rightarrow> bool" where
  "replies_ok s \<longleftrightarrow> (\<forall>c i. awaits s c i \<longrightarrow> i < length (replying s) \<and> replying s ! i \<noteq> None) \<and>
     (\<forall>c d i. awaits s c i \<longrightarrow> awaits s d i \<longrightarrow> c = d) \<and>
     (\<forall>i<length (replying s). replying s ! i \<noteq> None \<longrightarrow> (\<exists>c. awaits s c i))"

lemma awaits_set_client:
  "c < length (clients s) \<Longrightarrow> awaits (set_client c x s) d i \<longleftrightarrow> (if d = c then \<exists>r es. x = Awaiting i r es else awaits s d i)"
  by (auto simp: awaits_def nth_list_update)

lemma awaits_other [simp]: "awaits (set_worker j w s) = awaits s" "awaits (note_events err k s) = awaits s" "awaits (s\<lparr>replying := x\<rparr>) = awaits s"
  "awaits (s\<lparr>pool := p\<rparr>) = awaits s"
  by (auto simp: awaits_def fun_eq_iff)

text \<open>A step of a client that neither asks nor receives a reply.\<close>

fun waiting :: "client \<Rightarrow> bool" where
  "waiting (Awaiting i r es) = True"
| "waiting _ = False"

lemma replies_ok_client:
  assumes "c < length (clients s)" and "\<not> waiting (clients s ! c)" and "\<not> waiting x"
  shows "replies_ok (set_client c x s) \<longleftrightarrow> replies_ok s"
proof -
  have "awaits (set_client c x s) = awaits s"
    using assms(2,3) by (auto simp: fun_eq_iff awaits_set_client [OF assms(1)]) (auto simp: awaits_def)
  then show ?thesis by (simp add: replies_ok_def)
qed

lemma replies_ok_other [simp]:
  "replies_ok (set_worker i w s) = replies_ok s" "replies_ok (note_events err k s) = replies_ok s" "replies_ok (s\<lparr>pool := p\<rparr>) = replies_ok s"
  by (simp_all add: replies_ok_def)

lemma replies_ok_step:
  "\<lbrakk> step matches compile s l s'; replies_ok s; length (replying s) = nworkers s \<rbrakk> \<Longrightarrow> replies_ok s'"
proof (induction rule: step.induct)
  case (receive i s kis rest w)
  then show ?case by (simp add: replies_ok_def)
next
  case (ask c s i shouldReset es it ts)
  then have none: "\<not> awaits s d i" for d unfolding replies_ok_def by blast
  have c: "\<not> awaits s c j" for j using ask by (auto simp: awaits_def)
  with ask none show ?case by (fastforce simp: replies_ok_def awaits_set_client nth_list_update)
next
  case (reply c s i shouldReset es ts)
  then have "awaits s c i" by (auto simp: awaits_def)
  with reply have sole: "awaits s d i \<longleftrightarrow> d = c" for d unfolding replies_ok_def by blast
  have c: "awaits s c j \<longleftrightarrow> j = i" for j using reply by (auto simp: awaits_def)
  have a: "awaits (set_client c (if shouldReset then Clearing i (es @ ts) else Asking (Suc i) False (es @ ts)) (s\<lparr>replying := (replying s)[i := None]\<rparr>)) d j
      \<longleftrightarrow> d \<noteq> c \<and> awaits s d j" for d j
    using reply.hyps(1) by (auto simp: awaits_set_client)
  show ?case using reply.prems sole c unfolding replies_ok_def a
    by (auto simp: nth_list_update) metis
qed (simp_all add: replies_ok_client)

lemma replies_ok_start: "replies_ok (start n rs f m)"
  by (auto simp: replies_ok_def start_def awaits_def)

section \<open>Where the entries of a report come from\<close>

lemma partitionEvents_length: "partitionEvents n evts = Some parts \<Longrightarrow> length parts = n"
  using scatter_length by (fastforce simp: partitionEvents_def)

text \<open>The entries that client \<open>c\<close> has collected are the snapshots it took of the first \<open>j\<close> workers since it called \<open>Report\<close>.\<close>

definition taken :: "label list \<Rightarrow> nat \<Rightarrow> nat \<Rightarrow> keyInfo itemCount list \<Rightarrow> bool" where
  "taken ls c j es \<longleftrightarrow> (\<exists>pre r mid g. ls = pre @ ReportCalled c r # mid \<and> (\<forall>r. ReportCalled c r \<notin> set mid) \<and>
     es = concat (map g [0..<j]) \<and> (\<forall>i<j. Snapshot c i (g i) \<in> set mid))"

lemma taken_start: "taken (ls @ [ReportCalled c r]) c 0 []"
  unfolding taken_def by (intro exI [of _ ls] exI [of _ r] exI [of _ "[]"]) simp

lemma taken_later:
  assumes "taken ls c j es" and "\<And>r. l \<noteq> ReportCalled c r"
  shows "taken (ls @ [l]) c j es"
proof -
  from assms(1) obtain pre r mid g where "ls = pre @ ReportCalled c r # mid" "\<forall>r. ReportCalled c r \<notin> set mid"
    "es = concat (map g [0..<j])" "\<forall>i<j. Snapshot c i (g i) \<in> set mid" unfolding taken_def by blast
  with assms(2) show ?thesis
    unfolding taken_def by (intro exI [of _ pre] exI [of _ r] exI [of _ "mid @ [l]"] exI [of _ g]) auto
qed

lemma taken_snapshot:
  assumes "taken ls c j es"
  shows "taken (ls @ [Snapshot c j ts]) c (Suc j) (es @ ts)"
proof -
  from assms(1) obtain pre r mid g where "ls = pre @ ReportCalled c r # mid" "\<forall>r. ReportCalled c r \<notin> set mid"
    "es = concat (map g [0..<j])" "\<forall>i<j. Snapshot c i (g i) \<in> set mid" unfolding taken_def by blast
  then show ?thesis
    unfolding taken_def by (intro exI [of _ pre] exI [of _ r] exI [of _ "mid @ [Snapshot c j ts]"] exI [of _ "g(j := ts)"])
      (auto simp: less_Suc_eq intro!: arg_cong [where f = concat])
qed

fun client_ok :: "nat \<Rightarrow> label list \<Rightarrow> keyInfo itemCount list option list \<Rightarrow> nat \<Rightarrow> client \<Rightarrow> bool" where
  "client_ok n ls rp c Idle \<longleftrightarrow> True"
| "client_ok n ls rp c (Handling j parts) \<longleftrightarrow> length parts = n \<and> j \<le> n"
| "client_ok n ls rp c (Asking j r es) \<longleftrightarrow> j \<le> n \<and> taken ls c j es"
| "client_ok n ls rp c (Awaiting j r es) \<longleftrightarrow> j < n \<and> (\<exists>ts. rp ! j = Some ts \<and> taken ls c (Suc j) (es @ ts))"
| "client_ok n ls rp c (Clearing j es) \<longleftrightarrow> j < n \<and> taken ls c (Suc j) es"
| "client_ok n ls rp c (Resetting j) \<longleftrightarrow> j \<le> n"

definition clients_ok :: "nat \<Rightarrow> label list \<Rightarrow> 'r system \<Rightarrow> bool" where
  "clients_ok n ls s \<longleftrightarrow> (\<forall>c<length (clients s). client_ok n ls (replying s) c (clients s ! c))"

lemma client_ok_later:
  assumes "client_ok n ls rp c x" and "\<And>r. l \<noteq> ReportCalled c r" and "\<And>j r es. x = Awaiting j r es \<Longrightarrow> rp' ! j = rp ! j"
  shows "client_ok n (ls @ [l]) rp' c x"
  using assms by (cases x) (auto intro: taken_later)

text \<open>One client moves on, nobody else is concerned.\<close>

lemma clients_ok_move:
  assumes "clients_ok n ls s" and "c < length (clients s)" and "clients s' = (clients s)[c := x]"
    and "client_ok n (ls @ [l]) (replying s') c x" and "\<And>d r. d \<noteq> c \<Longrightarrow> l \<noteq> ReportCalled d r"
    and "\<And>d j. \<lbrakk> d \<noteq> c; awaits s d j \<rbrakk> \<Longrightarrow> replying s' ! j = replying s ! j"
  shows "clients_ok n (ls @ [l]) s'"
  unfolding clients_ok_def
proof (intro allI impI)
  fix d assume d: "d < length (clients s')"
  show "client_ok n (ls @ [l]) (replying s') d (clients s' ! d)"
  proof (cases "d = c")
    case False
    with d assms(1,3) have "client_ok n ls (replying s) d (clients s ! d)" by (simp add: clients_ok_def)
    then have "client_ok n (ls @ [l]) (replying s') d (clients s ! d)"
      by (rule client_ok_later) (use assms(3,5,6) d False in \<open>auto simp: awaits_def\<close>)
    with assms(3) False show ?thesis by simp
  qed (use assms(2-4) in simp)
qed

lemma clients_ok_quiet:
  assumes "clients_ok n ls s" and "clients s' = clients s" and "replying s' = replying s" and "\<And>d r. l \<noteq> ReportCalled d r"
  shows "clients_ok n (ls @ [l]) s'"
  using assms by (auto simp: clients_ok_def intro: client_ok_later)

lemma clients_ok_step:
  assumes "step matches compile s l s'" and "clients_ok n ls s" and "sys_ok n rs ls s" and "replies_ok s"
  shows "clients_ok n (ls @ [l]) s'"
  using assms
proof (induction rule: step.induct)
  case (receive i s kis rest w)
  then show ?case by (intro clients_ok_quiet) simp_all
next
  case (ask c s i shouldReset es it ts)
  then have "taken ls c i es" "i < n" "length (replying s) = n" by (auto simp: clients_ok_def sys_ok_def dest: spec [of _ c])
  moreover have "\<not> awaits s d i" for d using ask unfolding replies_ok_def by blast
  ultimately show ?case using ask
    by (intro clients_ok_move [where c = c and x = "Awaiting i shouldReset es"]) (auto simp: nth_list_update taken_snapshot)
next
  case (reply c s i shouldReset es ts)
  have "client_ok n ls (replying s) c (Awaiting i shouldReset es)" using reply by (auto simp: clients_ok_def)
  then have t: "taken ls c (Suc i) (es @ ts)" "i < n" using reply by auto
  have "awaits s c i" using reply by (auto simp: awaits_def)
  then have "j \<noteq> i" if "d \<noteq> c" "awaits s d j" for d j using reply.prems(3) that unfolding replies_ok_def by blast
  then have "(replying s)[i := None] ! j = replying s ! j" if "d \<noteq> c" "awaits s d j" for d j using that by (metis nth_list_update_neq)
  with t reply show ?case by (intro clients_ok_move [where c = c]) (auto intro: taken_later)
next
  case (handle c s evts parts)
  then have "length parts = n" by (auto simp: sys_ok_def partitionEvents_length)
  with handle show ?case by (intro clients_ok_move [where c = c and x = "Handling 0 parts"]) auto
next
  case (report c s shouldReset)
  then show ?case by (intro clients_ok_move [where c = c]) (auto simp: taken_start)
next
  case (skip c s i parts)
  then have "length parts = n" by (auto simp: clients_ok_def dest: spec [of _ c])
  with skip show ?case by (intro clients_ok_move [where c = c and x = "Handling (Suc i) parts"]) auto
next
  case (send c s i parts err w)
  then have "length parts = n" by (auto simp: clients_ok_def dest: spec [of _ c])
  with send show ?case by (intro clients_ok_move [where c = c and x = "Handling (Suc i) parts"]) auto
next
  case (handled c s parts)
  then show ?case by (intro clients_ok_move [where c = c and x = Idle]) auto
next
  case (clear c s i es it)
  then have "client_ok n ls (replying s) c (Clearing i es)" by (auto simp: clients_ok_def)
  with clear show ?case by (intro clients_ok_move [where c = c and x = "Asking (Suc i) True es"]) (auto intro: taken_later)
next
  case (finish c s shouldReset es)
  then show ?case by (intro clients_ok_move [where c = c and x = Idle]) auto
next
  case (reset c s)
  then show ?case by (intro clients_ok_move [where c = c and x = "Resetting 0"]) auto
next
  case (reset_one c s i it)
  then show ?case by (intro clients_ok_move [where c = c and x = "Resetting (Suc i)"]) (auto simp: sys_ok_def)
next
  case (reset_end c s)
  then show ?case by (intro clients_ok_move [where c = c and x = Idle]) auto
next
  case (filter c s pattern err f)
  then show ?case by (intro clients_ok_move [where c = c and x = "if err = None then Resetting 0 else Idle"]) auto
qed

lemma clients_ok_start: "clients_ok n [] (start n rs f m)"
  by (simp add: clients_ok_def start_def)

section \<open>Every worker counts its own keys\<close>

definition slots_ok :: "nat \<Rightarrow> label list \<Rightarrow> 'r system \<Rightarrow> bool" where
  "slots_ok n ls s \<longleftrightarrow> (\<forall>i<n. \<forall>x\<in>set (since i ls @ concat (kisChan (workers (pool s) ! i))). keySlot n (name x) = Some i) \<and>
     (\<forall>c<length (clients s). \<forall>j parts. clients s ! c = Handling j parts \<longrightarrow> (\<forall>i<n. list_all is_hit (parts ! i) \<and> (\<forall>e\<in>set (parts ! i). keySlot n (Key e) = Some i)))"

lemma slots_ok_clear:
  assumes "slots_ok n ls s" and "clients s' = (clients s)[c := x]" and "workers (pool s') = (workers (pool s))[i := worker_reset it (workers (pool s) ! i)]"
    and "\<And>j parts. x \<noteq> Handling j parts" and "c < length (clients s)" and "nworkers s = n"
  shows "slots_ok n (ls @ [Cleared i]) s'"
  using assms by (auto simp: slots_ok_def nth_list_update worker_reset_def)

lemma parts_slots:
  assumes "partitionEvents n evts = Some parts" and "0 < n" and "list_all is_hit evts" and "i < n"
  shows "list_all is_hit (parts ! i) \<and> (\<forall>e\<in>set (parts ! i). keySlot n (Key e) = Some i)"
  using assms partitionEvents_share [OF assms(2), of evts] by (auto simp: share_def list_all_iff)

lemma filterEvents_hits: "list_all is_hit evts \<Longrightarrow> list_all is_hit (filterEvents matches f evts)"
  by (auto simp: filterEvents_def list_all_iff split: option.splits)

lemma slots_ok_step:
  assumes "step matches compile s l s'" and "slots_ok n ls s" and "sys_ok n rs ls s" and "clients_ok n ls s" and "0 < n"
    and "\<And>c evts. l = Called c evts \<Longrightarrow> list_all is_hit evts"
  shows "slots_ok n (ls @ [l]) s'"
  using assms
proof (induction rule: step.induct)
  case (handle c s evts parts)
  then have "list_all is_hit (filterEvents matches (filt (pool s)) evts)" "nworkers s = n" by (auto simp: filterEvents_hits sys_ok_def)
  with parts_slots [of n _ parts] handle show ?case by (auto simp: slots_ok_def nth_list_update)
next
  case (skip c s i parts)
  then show ?case by (auto simp: slots_ok_def nth_list_update)
next
  case (send c s i parts err w)
  have n: "nworkers s = n" "i < n" using send by (auto simp: sys_ok_def)
  have p: "list_all is_hit (parts ! i)" "\<forall>e\<in>set (parts ! i). keySlot n (Key e) = Some i" using send n(2) by (auto simp: slots_ok_def)
  have "collect_kis 0 [] (parts ! i) = map key_of (parts ! i)" using collect_kis_hits [OF p(1), of "[]" 0] by simp
  then have "set (concat (kisChan w)) \<subseteq> set (concat (kisChan (workers (pool s) ! i))) \<union> key_of ` set (parts ! i)"
    using send.hyps(6) by (auto simp: worker_handleEvents_def split: if_splits)
  then have "\<forall>x\<in>set (since i ls @ concat (kisChan w)). keySlot n (name x) = Some i"
    using send.prems(1) n(2) p(2) by (fastforce simp: slots_ok_def key_of_def)
  with send.prems(1) send.hyps(1,2) n show ?case by (simp add: slots_ok_def nth_list_update)
next
  case (receive i s kis rest w)
  then have w: "kisChan w = rest" "nworkers s = n" by (auto simp: worker_receive_def sys_ok_def)
  then have "set (since i (ls @ [Counted i kis]) @ concat (kisChan w)) = set (since i ls @ concat (kisChan (workers (pool s) ! i)))"
    using receive.hyps(3) by auto
  then have "\<forall>x\<in>set (since i (ls @ [Counted i kis]) @ concat (kisChan w)). keySlot n (name x) = Some i"
    using receive.prems(1) receive.hyps(1) w(2) by (auto simp: slots_ok_def)
  with receive w(2) show ?case by (simp add: slots_ok_def nth_list_update)
next
  case (clear c s i es it)
  then show ?case by (intro slots_ok_clear [where c = c]) (auto simp: sys_ok_def)
next
  case (reset_one c s i it)
  then show ?case by (intro slots_ok_clear [where c = c]) (auto simp: sys_ok_def)
qed (simp_all add: slots_ok_def nth_list_update)

lemma slots_ok_start: "slots_ok n [] (start n rs f m)"
  by (simp add: slots_ok_def start_def pool_with_def Pool_New_def newWorker_def)

section \<open>Runs\<close>

lemma run_good:
  "run matches compile (start n rs f m) ls s \<Longrightarrow> sys_ok n rs ls s \<and> replies_ok s \<and> clients_ok n ls s"
proof (induction "start n rs f m" ls s rule: runs.induct)
  case runs_nil
  show ?case using sys_ok_start replies_ok_start clients_ok_start by blast
next
  case (runs_snoc ls q l r)
  then have q: "sys_ok n rs ls q" "replies_ok q" "clients_ok n ls q" "length (replying q) = nworkers q" by (simp_all add: sys_ok_def)
  note s = runs_snoc.hyps(3)
  show ?case using sys_ok_step [OF s q(1)] replies_ok_step [OF s q(2,4)] clients_ok_step [OF s q(3,1,2)] by blast
qed

lemma run_slots:
  "\<lbrakk> run matches compile (start n rs f m) ls s; 0 < n; \<forall>c evts. Called c evts \<in> set ls \<longrightarrow> list_all is_hit evts \<rbrakk> \<Longrightarrow> slots_ok n ls s"
proof (induction "start n rs f m" ls s rule: runs.induct)
  case runs_nil
  show ?case by (rule slots_ok_start)
next
  case (runs_snoc ls q l r)
  then show ?case using run_good [OF runs_snoc.hyps(1)] by (intro slots_ok_step [OF runs_snoc.hyps(3)]) auto
qed

lemma snapshot_moment:
  assumes "run matches compile (start n rs f m) (a @ Snapshot c i ts # b) s"
  shows "i < n \<and> (\<exists>it w. hl w = foldl AddWeighted NewPerfect (since i a) \<and> iteration it (hl w) \<and> worker_top it w rs = Some ts)"
proof -
  obtain t u where t: "run matches compile (start n rs f m) a t" "step matches compile t (Snapshot c i ts) u"
    using assms by (auto simp: runs_append_iff runs_Cons_iff)
  from run_good [OF t(1)] have "sys_ok n rs a t" by blast
  with t(2) show ?thesis by (auto simp: sys_ok_def elim!: step.cases)
qed

section \<open>Calls come to an end\<close>

fun external :: "label \<Rightarrow> bool" where
  "external (Called c evts) = True"
| "external (ReportCalled c r) = True"
| "external (ResetCalled c) = True"
| "external (FilterSet c pattern err) = True"
| "external _ = False"

fun client_weight :: "nat \<Rightarrow> client \<Rightarrow> nat" where
  "client_weight n Idle = 0"
| "client_weight n (Handling i parts) = 2 * (n - i) + 1"
| "client_weight n (Asking i r es) = 3 * (n - i) + 1"
| "client_weight n (Awaiting i r es) = 3 * (n - i)"
| "client_weight n (Clearing i es) = 3 * (n - i) - 1"
| "client_weight n (Resetting i) = n - i + 1"

definition weight :: "'r system \<Rightarrow> nat" where
  "weight s = (\<Sum>x\<leftarrow>clients s. client_weight (nworkers s) x) + (\<Sum>w\<leftarrow>workers (pool s). length (kisChan w))"

text \<open>What is known of the states that a run from a fresh pool can reach.\<close>

definition reachable :: "nat \<Rightarrow> int \<Rightarrow> 'r system \<Rightarrow> bool" where
  "reachable n rs s \<longleftrightarrow> 0 \<le> rs \<and> (\<exists>ls. sys_ok n rs ls s \<and> replies_ok s \<and> clients_ok n ls s)"

definition at_rest :: "'r system \<Rightarrow> bool" where
  "at_rest s \<longleftrightarrow> (\<forall>x\<in>set (clients s). x = Idle) \<and> (\<forall>w\<in>set (workers (pool s)). kisChan w = [])"

text \<open>How much lighter one client and one worker make the whole.\<close>

lemma weight_client:
  assumes "c < length (clients s)"
  shows "weight (set_client c x s) + client_weight (nworkers s) (clients s ! c) = weight s + client_weight (nworkers s) x"
  using sum_list_update_nat [OF assms, of "client_weight (nworkers s)" x] by (simp add: weight_def)

lemma weight_worker:
  "i < nworkers s \<Longrightarrow> weight (set_worker i w s) + length (kisChan (workers (pool s) ! i)) = weight s + length (kisChan w)"
  using sum_list_update_nat [of i "workers (pool s)" "\<lambda>w. length (kisChan w)" w] by (simp add: weight_def)

lemma weight_other [simp]:
  "weight (note_events err k s) = weight s" "weight (s\<lparr>replying := r\<rparr>) = weight s"
  by (simp_all add: weight_def)

lemma weight_step:
  assumes "step matches compile s l s'" and "clients_ok n ls s" and "sys_ok n rs ls s" and "\<not> external l"
  shows "weight s' < weight s"
  using assms
proof (induction rule: step.induct)
  case (skip c s i parts)
  then have "length parts = n" by (auto simp: clients_ok_def dest: spec [of _ c])
  with skip weight_client [of c s "Handling (Suc i) parts"] show ?case by (simp add: sys_ok_def)
next
  case (send c s i parts err w)
  have "length (kisChan w) \<le> Suc (length (kisChan (workers (pool s) ! i)))"
    using send.hyps(6) by (auto simp: worker_handleEvents_def Let_def split: if_splits)
  with send weight_client [of c "note_events err (length (parts ! i)) (set_worker i w s)" "Handling (Suc i) parts"] weight_worker [of i s w]
  show ?case by simp
next
  case (handled c s parts)
  with weight_client [of c s Idle] show ?case by simp
next
  case (receive i s kis rest w)
  then have "kisChan w = rest" by (auto simp: worker_receive_def)
  with receive weight_worker [of i s w] show ?case by simp
next
  case (ask c s i shouldReset es it ts)
  with weight_client [of c "s\<lparr>replying := (replying s)[i := Some ts]\<rparr>" "Awaiting i shouldReset es"] show ?case by simp
next
  case (reply c s i shouldReset es ts)
  with weight_client [of c "s\<lparr>replying := (replying s)[i := None]\<rparr>" "if shouldReset then Clearing i (es @ ts) else Asking (Suc i) False (es @ ts)"]
  show ?case by (auto split: if_splits)
next
  case (clear c s i es it)
  with weight_client [of c "set_worker i (worker_reset it (workers (pool s) ! i)) s" "Asking (Suc i) True es"]
    weight_worker [of i s "worker_reset it (workers (pool s) ! i)"]
  show ?case by (simp add: worker_reset_def)
next
  case (finish c s shouldReset es)
  with weight_client [of c s Idle] show ?case by simp
next
  case (reset_one c s i it)
  with weight_client [of c "set_worker i (worker_reset it (workers (pool s) ! i)) s" "Resetting (Suc i)"]
    weight_worker [of i s "worker_reset it (workers (pool s) ! i)"]
  show ?case by (simp add: worker_reset_def)
next
  case (reset_end c s)
  with weight_client [of c s Idle] show ?case by simp
qed simp_all

text \<open>Every worker can be iterated over, so that requests and resets are served.\<close>

lemma iteration_exists: "finite (dom m) \<Longrightarrow> \<exists>it. iteration it m"
proof -
  assume "finite (dom m)"
  then obtain xs where xs: "set xs = dom m" "distinct xs" using finite_distinct_list by metis
  have "map_of (map (\<lambda>x. (x, the (m x))) xs) = m"
    using xs(1) by (auto simp: map_of_map_restrict fun_eq_iff restrict_map_def)
  with xs(2) show ?thesis by (intro exI [of _ "map (\<lambda>x. (x, the (m x))) xs"]) (simp add: iteration_def comp_def)
qed

lemma counted_iteration: "\<exists>it. iteration it (foldl AddWeighted NewPerfect kis)"
proof -
  have "finite (dom m) \<Longrightarrow> finite (dom (foldl AddWeighted m kis))" for m :: "'a \<rightharpoonup> int"
    by (induction kis arbitrary: m) (auto simp: AddWeighted_def AddNWeighted_def)
  then show ?thesis by (intro iteration_exists) (simp add: NewPerfect_def)
qed

text \<open>A worker that a client wants to talk to takes part at once, or after the client has received its reply that it is busy with.\<close>

lemma worker_serves:
  assumes "sys_ok n rs ls s" and "replies_ok s" and "i < n"
  shows "replying s ! i = None \<or> (\<exists>s'. step matches compile s Internal s')"
proof (cases "replying s ! i")
  case (Some ts)
  have n: "length (replying s) = n" "nworkers s = n" using assms(1) by (simp_all add: sys_ok_def)
  then obtain c where "awaits s c i" using assms(2,3) Some unfolding replies_ok_def by blast
  then obtain r es where "c < length (clients s)" "clients s ! c = Awaiting i r es" by (auto simp: awaits_def)
  from step.reply [OF this _ Some] assms(3) n(2) show ?thesis by blast
qed simp

lemma worker_progress:
  assumes "sys_ok n rs ls s" and "replies_ok s" and "w \<in> set (workers (pool s))" and "kisChan w \<noteq> []"
  shows "\<exists>l s'. step matches compile s l s' \<and> \<not> external l"
proof -
  obtain i where i: "i < nworkers s" "workers (pool s) ! i = w" using assms(3) by (auto simp: in_set_conv_nth)
  obtain kis rest where kis: "kisChan w = kis # rest" using assms(4) by (cases "kisChan w") auto
  then have "worker_receive w = Some (w\<lparr>kisChan := rest, hl := foldl AddWeighted (hl w) kis\<rparr>)" by (simp add: worker_receive_def)
  with step.receive [of i s kis rest] i kis have "replying s ! i = None \<Longrightarrow> \<exists>s'. step matches compile s (Counted i kis) s'" by blast
  moreover have "i < n" using i(1) assms(1) by (simp add: sys_ok_def)
  ultimately show ?thesis using worker_serves [OF assms(1,2)] by (metis external.simps(7,10))
qed

lemma client_progress:
  assumes ok: "sys_ok n rs ls s" "replies_ok s" "clients_ok n ls s" "0 \<le> rs" and c: "c < length (clients s)" "clients s ! c \<noteq> Idle"
  shows "\<exists>l s'. step matches compile s l s' \<and> \<not> external l"
proof -
  have n: "nworkers s = n" "reportSize (pool s) = rs" using ok(1) by (simp_all add: sys_ok_def)
  have co: "client_ok n ls (replying s) c (clients s ! c)" using ok(3) c(1) by (simp add: clients_ok_def)
  have it: "\<exists>it. iteration it (hl (workers (pool s) ! i))" if "i < n" for i
    using ok(1) that counted_iteration by (auto simp: sys_ok_def)
  have ts: "\<exists>ts. worker_top it w rs = Some ts" for it w using ok(4) by (simp add: worker_top_def Top_def orderedTop_eq)
  have busy: ?thesis if "\<exists>s'. step matches compile s Internal s'" using that by (metis external.simps(10))
  show ?thesis
  proof (cases "clients s ! c")
    case (Handling i parts)
    with co have p: "length parts = n" "i \<le> n" by auto
    consider "i = n" | "i < n" "parts ! i = []" | "i < n" "parts ! i \<noteq> []" using p(2) by linarith
    then show ?thesis
    proof cases
      case 1
      with step.handled [OF c(1)] Handling p(1) show ?thesis by (metis external.simps(5))
    next
      case 2
      with step.skip [OF c(1) Handling] p(1) busy show ?thesis by blast
    next
      case 3
      have "\<not> kisClosed (workers (pool s) ! i)" using ok(1) 3(1) by (simp add: sys_ok_def)
      then have "worker_handleEvents (workers (pool s) ! i) (parts ! i) \<noteq> None" by (simp add: worker_handleEvents_def)
      then obtain r where "worker_handleEvents (workers (pool s) ! i) (parts ! i) = Some r" by blast
      with step.send [OF c(1) Handling, of "fst r" "snd r"] 3 p(1) n(1) busy show ?thesis by (metis prod.collapse)
    qed
  next
    case (Asking i r es)
    with co have "i = n \<or> i < n" by auto
    then show ?thesis
    proof
      assume "i = n"
      with step.finish [OF c(1)] Asking n(1) show ?thesis by (metis external.simps(6))
    next
      assume i: "i < n"
      with it obtain it where it: "iteration it (hl (workers (pool s) ! i))" by blast
      obtain ts where "worker_top it (workers (pool s) ! i) rs = Some ts" using ts by blast
      with step.ask [OF c(1) Asking _ _ it] n i worker_serves [OF ok(1,2) i] busy show ?thesis by (metis external.simps(8))
    qed
  next
    case (Awaiting i r es)
    with co obtain ts where "i < n" "replying s ! i = Some ts" by auto
    with step.reply [OF c(1) Awaiting] n(1) busy show ?thesis by blast
  next
    case (Clearing i es)
    with co it obtain it where "i < n" "iteration it (hl (workers (pool s) ! i))" by auto
    with step.clear [OF c(1) Clearing] n(1) worker_serves [OF ok(1,2)] busy show ?thesis by (metis external.simps(9))
  next
    case (Resetting i)
    with co have "i = n \<or> i < n" by auto
    then show ?thesis
    proof
      assume "i = n"
      with step.reset_end [OF c(1)] Resetting n(1) show ?thesis by (metis external.simps(5))
    next
      assume i: "i < n"
      with it step.reset_one [OF c(1) Resetting] n(1) worker_serves [OF ok(1,2) i] busy show ?thesis by (metis external.simps(9))
    qed
  qed (use c(2) in simp)
qed

lemma reachable_step:
  assumes "step matches compile p l q" and "reachable n rs p"
  shows "reachable n rs q"
proof -
  obtain ls where ls: "sys_ok n rs ls p" "replies_ok p" "clients_ok n ls p" "0 \<le> rs" using assms(2) by (auto simp: reachable_def)
  have "length (replying p) = nworkers p" using ls(1) by (simp add: sys_ok_def)
  then show ?thesis unfolding reachable_def
    using sys_ok_step [OF assms(1) ls(1)] replies_ok_step [OF assms(1) ls(2)] clients_ok_step [OF assms(1) ls(3,1,2)] ls(4) by blast
qed

lemma reachable_progress:
  assumes "reachable n rs p" and "\<not> at_rest p"
  shows "\<exists>l q. step matches compile p l q \<and> \<not> external l"
proof -
  obtain ls where ls: "sys_ok n rs ls p" "replies_ok p" "clients_ok n ls p" "0 \<le> rs" using assms(1) by (auto simp: reachable_def)
  consider c where "c < length (clients p)" "clients p ! c \<noteq> Idle" | w where "w \<in> set (workers (pool p))" "kisChan w \<noteq> []"
    using assms(2) by (auto simp: at_rest_def in_set_conv_nth)
  then show ?thesis by cases (rule client_progress [OF ls], assumption+, rule worker_progress [OF ls(1,2)])
qed

lemma reachable_weight: "\<lbrakk> step matches compile p l q; reachable n rs p; \<not> external l \<rbrakk> \<Longrightarrow> weight q < weight p"
  by (auto simp: reachable_def intro: weight_step)

interpretation analysis: winding_down "step matches compile" "reachable n rs" external weight at_rest for matches compile n rs
  by unfold_locales (rule reachable_step reachable_weight reachable_progress; assumption)+

lemma reachable_run: "\<lbrakk> run matches compile (start n rs f m) ls s; 0 \<le> rs \<rbrakk> \<Longrightarrow> reachable n rs s"
  using run_good unfolding reachable_def by blast

section \<open>What a report says\<close>

text \<open>
  The lines \<open>ks\<close> of a report agree with what worker \<open>i\<close> had counted at one moment: the lines for its keys are exact, and a key is missing only if the worker has
  contributed as many lines as a report asks for, all with at least the traffic of that key.
\<close>

definition snapshot_of :: "nat \<Rightarrow> nat \<Rightarrow> int \<Rightarrow> keyInfo list \<Rightarrow> KeyReport list \<Rightarrow> bool" where
  "snapshot_of n i rs kis ks \<longleftrightarrow>
     (\<forall>k\<in>set ks. keySlot n (Name k) = Some i \<longrightarrow> (\<exists>x\<in>set kis. k = exact_line kis x)) \<and>
     (\<forall>x\<in>set kis. exact_line kis x \<notin> set ks \<longrightarrow> rs \<le> int (length (filter (\<lambda>k. keySlot n (Name k) = Some i) ks)) \<and>
        (\<forall>k\<in>set ks. keySlot n (Name k) = Some i \<longrightarrow> traffic kis x \<le> TrafficEstimate k))"

text \<open>The entries of one worker at the moment when it has counted \<open>kis\<close>.\<close>

definition tops_of :: "nat \<Rightarrow> nat \<Rightarrow> int \<Rightarrow> keyInfo list \<Rightarrow> keyInfo itemCount list \<Rightarrow> bool" where
  "tops_of n i rs kis ts \<longleftrightarrow> distinct (map item ts) \<and>
     (\<forall>e\<in>set ts. item e \<in> set kis \<and> keySlot n (name (item e)) = Some i \<and> keyReport e = exact_line kis (item e)) \<and>
     (\<forall>x\<in>set kis. x \<notin> item ` set ts \<longrightarrow> int (length ts) = rs \<and> (\<forall>e\<in>set ts. traffic kis x \<le> TrafficEstimate (keyReport e)))"

lemma snapshot_entries:
  assumes "run matches compile (start n rs f m) (a @ Snapshot c i ts # b) s" and "0 < n" and "0 \<le> rs"
    and "\<forall>c evts. Called c evts \<in> set a \<longrightarrow> list_all is_hit evts" and "int64 (int (length (since i a)))"
  shows "tops_of n i rs (since i a) ts"
proof -
  have i: "i < n" using snapshot_moment [OF assms(1)] by blast
  obtain it w where w: "hl w = foldl AddWeighted NewPerfect (since i a)" "iteration it (hl w)" "worker_top it w rs = Some ts"
    using snapshot_moment [OF assms(1)] by blast
  then have ts: "top_entries rs it w = ts" by (simp add: top_entries_def)
  note top = top_report [OF w(1,2) assms(3,5), unfolded ts]
  obtain t where "run matches compile (start n rs f m) a t" using assms(1) by (auto simp: runs_append_iff)
  from run_slots [OF this assms(2,4)] have "\<forall>x\<in>set (since i a). keySlot n (name x) = Some i" using i by (auto simp: slots_ok_def)
  with top show ?thesis unfolding tops_of_def by blast
qed

text \<open>The lines for the keys of worker \<open>i\<close> in a report come from its snapshot.\<close>

lemma lines_of_worker:
  assumes "\<And>j e. \<lbrakk> j < n; e \<in> set (g j) \<rbrakk> \<Longrightarrow> keySlot n (Name (keyReport e)) = Some j" and "i < n"
  shows "filter (\<lambda>k. keySlot n (Name k) = Some i) (map keyReport (concat (map g [0..<n]))) = map keyReport (g i)"
proof -
  have each: "filter (\<lambda>e. keySlot n (Name (keyReport e)) = Some i) (g j) = (if j = i then g i else [])" if "j < n" for j
    using assms(1) [OF that] by (auto simp: filter_id_conv filter_empty_conv)
  have "map (\<lambda>j. filter (\<lambda>e. keySlot n (Name (keyReport e)) = Some i) (g j)) [0..<n] = map (\<lambda>j. if j = i then g i else []) [0..<n]"
    using each by (intro map_cong) auto
  then have "filter (\<lambda>k. keySlot n (Name k) = Some i) (map keyReport (concat (map g [0..<n]))) =
      map keyReport (concat (map (\<lambda>j. if j = i then g i else []) [0..<n]))"
    by (simp only: filter_map comp_def filter_concat map_map)
  moreover have "concat (map (\<lambda>j. if j = i then g i else []) [0..<m]) = (if i < m then g i else [])" for m
    by (induction m) auto
  ultimately show ?thesis using assms(2) by simp
qed

lemma snapshot_of_tops:
  assumes "\<And>k. k \<in> set ks \<and> keySlot n (Name k) = Some i \<longleftrightarrow> k \<in> keyReport ` set ts"
    and "length (filter (\<lambda>k. keySlot n (Name k) = Some i) ks) = length ts" and "tops_of n i rs kis ts"
  shows "snapshot_of n i rs kis ks"
proof -
  have src: "\<exists>e\<in>set ts. k = keyReport e" if "k \<in> set ks" "keySlot n (Name k) = Some i" for k using assms(1) [of k] that by blast
  have "x \<notin> item ` set ts" if "exact_line kis x \<notin> set ks" for x
  proof
    assume "x \<in> item ` set ts"
    then obtain e where e: "e \<in> set ts" "x = item e" by blast
    with assms(3) have "exact_line kis x = keyReport e" by (simp add: tops_of_def)
    with e(1) assms(1) that show False by blast
  qed
  with src assms(2,3) show ?thesis unfolding snapshot_of_def tops_of_def by fastforce
qed

lemma report_of_tops:
  assumes "\<forall>i<n. tops_of n i rs (kis i) (g i)" and "ks = sort_Report (map keyReport (concat (map g [0..<n])))"
  shows "distinct (map (\<lambda>k. (Name k, RSize k)) ks)" and "i < n \<Longrightarrow> snapshot_of n i rs (kis i) ks"
proof -
  have slot: "keySlot n (name (item e)) = Some j" if "j < n" "e \<in> set (g j)" for j e using assms(1) that by (auto simp: tops_of_def)
  have "distinct (map (\<lambda>k. (Name k, RSize k)) (map keyReport (concat (map g [0..<n]))))"
    using assms(1) slot by (intro distinct_lines) (auto simp: tops_of_def)
  then show "distinct (map (\<lambda>k. (Name k, RSize k)) ks)"
    unfolding assms(2) by (metis mset_eq_imp_distinct_iff mset_map sort_Report_facts(1))
  have name: "Name (keyReport e) = name (item e)" for e by (simp add: keyReport_def itemCount_Item_def Let_def)
  show "snapshot_of n i rs (kis i) ks" if i: "i < n"
  proof -
    let ?P = "\<lambda>k. keySlot n (Name k) = Some i"
    have f: "filter ?P (map keyReport (concat (map g [0..<n]))) = map keyReport (g i)"
      using slot by (intro lines_of_worker [OF _ i]) (simp add: name)
    have "k \<in> set ks \<and> ?P k \<longleftrightarrow> k \<in> set (filter ?P (map keyReport (concat (map g [0..<n]))))" for k by (auto simp: assms(2))
    then have "k \<in> set ks \<and> ?P k \<longleftrightarrow> k \<in> keyReport ` set (g i)" for k unfolding f by simp
    moreover have "length (filter ?P ks) = length (g i)" unfolding assms(2) length_filter_sort_Report f by simp
    ultimately show ?thesis using assms(1) i by (intro snapshot_of_tops) auto
  qed
qed

text \<open>The entries that a client has collected come from moments during its call.\<close>

lemma taken_moments:
  assumes "run matches compile (start n rs f m) ls s" and "taken ls c n es" and "0 < n" and "0 \<le> rs"
    and "\<forall>c evts. Called c evts \<in> set ls \<longrightarrow> list_all is_hit evts" and "int64 (int (length (concat (map new_keys ls))))"
  shows "\<exists>pre r mid g. ls = pre @ ReportCalled c r # mid \<and> (\<forall>r. ReportCalled c r \<notin> set mid) \<and> es = concat (map g [0..<n]) \<and>
    (\<forall>i<n. \<exists>a b. mid = a @ b \<and> tops_of n i rs (since i (pre @ ReportCalled c r # a)) (g i))"
proof -
  obtain pre r mid g where tk: "ls = pre @ ReportCalled c r # mid" "\<forall>r. ReportCalled c r \<notin> set mid"
    "es = concat (map g [0..<n])" "\<forall>i<n. Snapshot c i (g i) \<in> set mid" using assms(2) unfolding taken_def by blast
  have "\<exists>a b. mid = a @ b \<and> tops_of n i rs (since i (pre @ ReportCalled c r # a)) (g i)" if i: "i < n" for i
  proof -
    obtain a b where ab: "mid = a @ Snapshot c i (g i) # b" using tk(4) i by (meson split_list)
    have ls: "ls = (pre @ ReportCalled c r # a) @ Snapshot c i (g i) # b" using tk(1) ab by simp
    then have "length (since i (pre @ ReportCalled c r # a)) \<le> length (concat (map new_keys ls))"
      using length_since [of i "pre @ ReportCalled c r # a"] by simp
    then have "int64 (int (length (since i (pre @ ReportCalled c r # a))))" using assms(6) by (auto simp: int64_def)
    with snapshot_entries [OF assms(1) [unfolded ls] assms(3,4)] assms(5) ab show ?thesis
      by (intro exI [of _ a] exI [of _ "Snapshot c i (g i) # b"]) (auto simp: ls)
  qed
  with tk(1-3) show ?thesis by blast
qed

section \<open>Properties\<close>


text \<open>One worker and two clients: one hands over a hit, the other asks for a report with a reset.\<close>

definition sample_key :: keyInfo where
  "sample_key = \<lparr>name = ''a'', ksize = 10\<rparr>"

definition sample_system :: "keyInfo perfectHotlist \<Rightarrow> keyInfo list list \<Rightarrow> int \<Rightarrow> keyInfo itemCount list option \<Rightarrow> client list \<Rightarrow> unit system" where
  "sample_system h q k r cs =
     \<lparr>pool = \<lparr>reportSize = 5, workers = [\<lparr>hl = h, kisChan = q, kisClosed = False\<rparr>], filt = None, stats = \<lparr>EventsHandled = k, EventsDropped = 0\<rparr>\<rparr>,
      replying = [r], clients = cs\<rparr>"

definition sample_top :: "keyInfo itemCount list" where
  "sample_top = entries_of Weight [(sample_key, 1)]"

definition sample_labels :: "label list" where
  "sample_labels = [Called 0 [hit_event ''a'' 10], ReportCalled 1 True, Internal, Returned 0, Counted 0 [sample_key], Snapshot 1 0 sample_top, Internal, Cleared 0]"

definition sample_lines :: "KeyReport list" where
  "sample_lines = [\<lparr>Name = ''a'', RSize = 10, RequestsEstimate = 1, TrafficEstimate = 10\<rparr>]"

lemma sample_report_run:
  "\<exists>s. run (\<lambda>_ _. True) (\<lambda>_. Inr ()) (start 1 5 None 2) (sample_labels @ [Reported 1 sample_lines]) s"
proof -
  let ?step = "step (\<lambda>_ _. True) (\<lambda>_. Inr ())" and ?S = sample_system and ?e = "hit_event ''a'' 10" and ?m = "[sample_key \<mapsto> 1]"
  have s0: "start 1 5 None 2 = ?S Map.empty [] 0 None [Idle, Idle]"
    by (simp add: start_def pool_with_def Pool_New_def newWorker_def NewPerfect_def sample_system_def numeral_2_eq_2)
  have part: "partitionEvents (Suc 0) [?e] = Some [[?e]]" using partitionEvents_share [of "Suc 0" "[?e]"] by (simp add: share_def keySlot_one)
  have kis: "collect_kis 0 [] [?e] = [sample_key]" using collect_kis_hits [of "[?e]" "[]" 0] by (simp add: is_hit_def key_of_def sample_key_def hit_event_def)
  have "?step (?S Map.empty [] 0 None [Idle, Idle]) (Called 0 [?e]) (?S Map.empty [] 0 None [Handling 0 [[?e]], Idle])"
    using step.handle [of 0 "?S Map.empty [] 0 None [Idle, Idle]" "\<lambda>_ _. True" "[?e]" "[[?e]]" "\<lambda>_. Inr ()"] part by (simp add: sample_system_def set_client_def filterEvents_def)
  moreover have "?step (?S Map.empty [] 0 None [Handling 0 [[?e]], Idle]) (ReportCalled 1 True) (?S Map.empty [] 0 None [Handling 0 [[?e]], Asking 0 True []])"
    using step.report [of 1 "?S Map.empty [] 0 None [Handling 0 [[?e]], Idle]" _ _ True] by (simp add: sample_system_def set_client_def)
  moreover have "?step (?S Map.empty [] 0 None [Handling 0 [[?e]], Asking 0 True []]) Internal (?S Map.empty [[sample_key]] 1 None [Handling 1 [[?e]], Asking 0 True []])"
    using step.send [of 0 "?S Map.empty [] 0 None [Handling 0 [[?e]], Asking 0 True []]" 0 "[[?e]]" None _ "\<lambda>_ _. True" "\<lambda>_. Inr ()"] kis
    by (simp add: sample_system_def set_client_def set_worker_def note_events_def worker_handleEvents_def kisChanCap_def addHandled_def gint_id int64_def)
  moreover have "?step (?S Map.empty [[sample_key]] 1 None [Handling 1 [[?e]], Asking 0 True []]) (Returned 0) (?S Map.empty [[sample_key]] 1 None [Idle, Asking 0 True []])"
    using step.handled [of 0 "?S Map.empty [[sample_key]] 1 None [Handling 1 [[?e]], Asking 0 True []]" "[[?e]]"] by (simp add: sample_system_def set_client_def)
  moreover have "?step (?S Map.empty [[sample_key]] 1 None [Idle, Asking 0 True []]) (Counted 0 [sample_key]) (?S ?m [] 1 None [Idle, Asking 0 True []])"
    using step.receive [of 0 "?S Map.empty [[sample_key]] 1 None [Idle, Asking 0 True []]" "[sample_key]" "[]"]
    by (simp add: sample_system_def set_worker_def worker_receive_def AddWeighted_def AddNWeighted_def gint_id int64_def)
  moreover have "iteration [(sample_key, 1)] ?m" by (simp add: iteration_def)
  moreover have "?step (?S ?m [] 1 None [Idle, Asking 0 True []]) (Snapshot 1 0 sample_top) (?S ?m [] 1 (Some sample_top) [Idle, Awaiting 0 True []])"
    using step.ask [of 1 "?S ?m [] 1 None [Idle, Asking 0 True []]" 0 True "[]" "[(sample_key, 1)]" sample_top] \<open>iteration _ _\<close>
    by (simp add: sample_system_def set_client_def worker_top_def Top_def orderedTop_eq sort_Sort_def sample_top_def entries_of_def)
  moreover have "?step (?S ?m [] 1 (Some sample_top) [Idle, Awaiting 0 True []]) Internal (?S ?m [] 1 None [Idle, Clearing 0 sample_top])"
    using step.reply [of 1 "?S ?m [] 1 (Some sample_top) [Idle, Awaiting 0 True []]" 0 True "[]" sample_top] by (simp add: sample_system_def set_client_def)
  moreover have "?step (?S ?m [] 1 None [Idle, Clearing 0 sample_top]) (Cleared 0) (?S Map.empty [] 1 None [Idle, Asking 1 True sample_top])"
    using step.clear [of 1 "?S ?m [] 1 None [Idle, Clearing 0 sample_top]" 0 sample_top "[(sample_key, 1)]"] \<open>iteration _ _\<close>
    by (simp add: sample_system_def set_client_def set_worker_def worker_reset_def Reset_iteration)
  moreover have "sort_Report (map keyReport sample_top) = sample_lines"
    by (simp add: sample_top_def entries_of_def sort_Report_def keyReport_def sample_lines_def sample_key_def itemCount_Item_def itemCount_Count_def gint_id int64_def)
  then have "?step (?S Map.empty [] 1 None [Idle, Asking 1 True sample_top]) (Reported 1 sample_lines) (?S Map.empty [] 1 None [Idle, Idle])"
    using step.finish [of 1 "?S Map.empty [] 1 None [Idle, Asking 1 True sample_top]" True sample_top "\<lambda>_ _. True" "\<lambda>_. Inr ()"]
    by (simp add: sample_system_def set_client_def)
  ultimately show ?thesis unfolding s0 sample_labels_def by (simp add: runs_Cons_iff) blast
qed


text \<open>
  C12.  Reports are exact under concurrency.  In every interleaving of clients that handle hits, ask for reports and reset with the workers' loops, a report that returns was
  asked for, lists every key and size at most once, in descending order of traffic, and for each worker there is a moment during the call at which its lines show exactly
  what that worker had counted since it was last cleared.  Replies of workers never reach another client than the one that asked.
\<close>

theorem report_linearizable:
  assumes "run matches compile (start n rs f m) (ls @ [Reported c ks]) s" and "0 < n" and "0 \<le> rs"
    and "\<forall>c evts. Called c evts \<in> set ls \<longrightarrow> list_all is_hit evts" and "int64 (int (length (concat (map new_keys ls))))"
  shows "\<exists>pre r mid. ls = pre @ ReportCalled c r # mid \<and> (\<forall>r. ReportCalled c r \<notin> set mid) \<and>
    distinct (map (\<lambda>k. (Name k, RSize k)) ks) \<and> sorted_wrt (\<lambda>a b. TrafficEstimate a \<ge> TrafficEstimate b) ks \<and>
    (\<forall>i<n. \<exists>a b. mid = a @ b \<and> snapshot_of n i rs (since i (pre @ ReportCalled c r # a)) ks)"
proof -
  obtain t where t: "run matches compile (start n rs f m) ls t" "step matches compile t (Reported c ks) s"
    using assms(1) by (auto simp: runs_snoc_iff)
  then obtain r' es where fin: "c < length (clients t)" "clients t ! c = Asking (nworkers t) r' es" "ks = sort_Report (map keyReport es)"
    by (auto elim: step.cases)
  have "sys_ok n rs ls t" "clients_ok n ls t" using run_good [OF t(1)] by blast+
  with fin have "taken ls c n es" by (auto simp: clients_ok_def sys_ok_def)
  from taken_moments [OF t(1) this assms(2-5)] obtain pre r mid g where tk: "ls = pre @ ReportCalled c r # mid" "\<forall>r. ReportCalled c r \<notin> set mid"
    "es = concat (map g [0..<n])" "\<forall>i<n. \<exists>a b. mid = a @ b \<and> tops_of n i rs (since i (pre @ ReportCalled c r # a)) (g i)" by blast
  then have "\<forall>i\<in>{..<n}. \<exists>a. (\<exists>b. mid = a @ b) \<and> tops_of n i rs (since i (pre @ ReportCalled c r # a)) (g i)" by blast
  from bchoice [OF this] obtain a where a: "\<forall>i<n. (\<exists>b. mid = a i @ b) \<and> tops_of n i rs (since i (pre @ ReportCalled c r # a i)) (g i)" by auto
  note rep = report_of_tops [of n rs "\<lambda>i. since i (pre @ ReportCalled c r # a i)" g ks]
  have ks: "ks = sort_Report (map keyReport (concat (map g [0..<n])))" using fin(3) tk(3) by simp
  have "\<exists>a b. mid = a @ b \<and> snapshot_of n i rs (since i (pre @ ReportCalled c r # a)) ks" if "i < n" for i
    using rep(2) [OF _ ks that] a that by blast
  moreover have "distinct (map (\<lambda>k. (Name k, RSize k)) ks)" using rep(1) [OF _ ks] a by blast
  ultimately show ?thesis using tk(1,2) sort_Report_sorted [of "map keyReport es"] fin(3) by blast
qed

theorem report_linearizable_witness:
  "\<exists>s pre r mid. run (\<lambda>_ _. True) (\<lambda>_. Inr ()) (start 1 5 None 2) (sample_labels @ [Reported 1 sample_lines]) s \<and>
     sample_labels = pre @ ReportCalled 1 r # mid \<and> distinct (map (\<lambda>k. (Name k, RSize k)) sample_lines) \<and>
     (\<forall>i<1. \<exists>a b. mid = a @ b \<and> snapshot_of 1 i 5 (since i (pre @ ReportCalled 1 r # a)) sample_lines)"
proof -
  obtain s where run: "run (\<lambda>_ _. True) (\<lambda>_. Inr ()) (start 1 5 None 2) (sample_labels @ [Reported 1 sample_lines]) s" using sample_report_run by blast
  have "\<forall>c evts. Called c evts \<in> set sample_labels \<longrightarrow> list_all is_hit evts" by (simp add: sample_labels_def is_hit_def hit_event_def)
  moreover have "int64 (int (length (concat (map new_keys sample_labels))))" by (simp add: sample_labels_def int64_def)
  ultimately show ?thesis using report_linearizable [OF run zero_less_one] run by fastforce
qed

end
