(* ===== verification/Screen.thy ===== *)
theory Screen
  imports Presentation RuneWidth
begin

text \<open>
  What the user sees: the cells of the terminal, from \<open>renderText\<close> and \<open>renderLine\<close> of \<^verbatim>\<open>presentation/termbox.go\<close> down to the back buffer of the vendored
  termbox.  A cell holds a rune; colours are all the default and are left out.
\<close>

section \<open>The back buffer\<close>

record cellbuf =
  cb_width :: int
  cb_height :: int
  cells :: "int list"

definition cleared :: "terminal \<Rightarrow> cellbuf" where
  "cleared t = \<lparr>cb_width = width t, cb_height = height t, cells = replicate (nat (width t * height t)) 32\<rparr>"

definition SetCell :: "int \<Rightarrow> int \<Rightarrow> int \<Rightarrow> cellbuf \<Rightarrow> cellbuf" where
  "SetCell x y ch b =
     (if x < 0 \<or> x \<ge> cb_width b then b
      else if y < 0 \<or> y \<ge> cb_height b then b
      else b\<lparr>cells := (cells b)[nat (y * cb_width b + x) := ch]\<rparr>)"

section \<open>Drawing\<close>

fun renderText_loop :: "bool \<Rightarrow> int \<Rightarrow> int \<Rightarrow> int list \<Rightarrow> cellbuf \<Rightarrow> cellbuf" where
  "renderText_loop ea x y [] b = b"
| "renderText_loop ea x y (r # rs) b = renderText_loop ea (x + RuneWidth ea r) y rs (SetCell x y r b)"

definition bytes_of :: "string \<Rightarrow> nat list" where
  "bytes_of txt = map of_char txt"

definition renderText :: "bool \<Rightarrow> terminal \<Rightarrow> int \<Rightarrow> int \<Rightarrow> string \<Rightarrow> cellbuf \<Rightarrow> cellbuf" where
  "renderText ea t column y txt b = renderText_loop ea (columnX t column) y (runes (bytes_of txt)) b"

text \<open>The loop of \<open>renderLine\<close> would not stop for a rune without width: \<open>None\<close>.\<close>

function renderLine_loop :: "int \<Rightarrow> int \<Rightarrow> int \<Rightarrow> int \<Rightarrow> int \<Rightarrow> cellbuf \<Rightarrow> cellbuf option" where
  "renderLine_loop w x stop y ch b =
     (if x < stop then if w \<le> 0 then None else renderLine_loop w (x + w) stop y ch (SetCell x y ch b) else Some b)"
  by auto
termination
  by (relation "measure (\<lambda>(w, x, stop, y, ch, b). nat (stop - x))") auto

declare renderLine_loop.simps [simp del]

definition renderLine :: "bool \<Rightarrow> terminal \<Rightarrow> int \<Rightarrow> int \<Rightarrow> int \<Rightarrow> char \<Rightarrow> cellbuf \<Rightarrow> cellbuf option" where
  "renderLine ea t column span y ch b =
     renderLine_loop (RuneWidth ea (of_char ch)) (columnX t column) (columnX t (column + span)) y (of_char ch) b"

fun paint :: "bool \<Rightarrow> terminal \<Rightarrow> draw \<Rightarrow> cellbuf \<Rightarrow> cellbuf option" where
  "paint ea t (Text column y txt) b = Some (renderText ea t column y txt b)"
| "paint ea t (Line column span y ch) b = renderLine ea t column span y ch b"

fun paint_all :: "bool \<Rightarrow> terminal \<Rightarrow> draw list \<Rightarrow> cellbuf \<Rightarrow> cellbuf option" where
  "paint_all ea t [] b = Some b"
| "paint_all ea t (d # ds) b = do { b \<leftarrow> paint ea t d b; paint_all ea t ds b }"

text \<open>The screen after an update that draws \<open>ds\<close>.\<close>

definition screen :: "bool \<Rightarrow> terminal \<Rightarrow> draw list \<Rightarrow> cellbuf option" where
  "screen ea t ds = paint_all ea t ds (cleared t)"

section \<open>Cells\<close>

definition buf_ok :: "terminal \<Rightarrow> cellbuf \<Rightarrow> bool" where
  "buf_ok t b \<longleftrightarrow> cb_width b = width t \<and> cb_height b = height t \<and> length (cells b) = nat (width t * height t)"

definition cell :: "cellbuf \<Rightarrow> int \<Rightarrow> int \<Rightarrow> int" where
  "cell b x y = cells b ! nat (y * cb_width b + x)"

definition inside :: "terminal \<Rightarrow> int \<Rightarrow> int \<Rightarrow> bool" where
  "inside t x y \<longleftrightarrow> 0 \<le> x \<and> x < width t \<and> 0 \<le> y \<and> y < height t"

lemma inside_index:
  assumes "inside t x y"
  shows "0 \<le> y * width t + x" and "y * width t + x < width t * height t"
proof -
  have b: "0 \<le> x" "x < width t" "0 \<le> y" "y < height t" using assms by (auto simp: inside_def)
  then show "0 \<le> y * width t + x" by simp
  have "y * width t + x < (y + 1) * width t" using b by (simp add: distrib_right)
  also have "\<dots> \<le> height t * width t" using b by (intro mult_right_mono) auto
  finally show "y * width t + x < width t * height t" by (simp add: mult.commute)
qed

lemma inside_inj:
  assumes "inside t x y" and "inside t x' y'" and "y * width t + x = y' * width t + x'"
  shows "x = x' \<and> y = y'"
proof -
  have "(y * width t + x) div width t = y" "(y' * width t + x') div width t = y'" using assms(1,2) by (auto simp: inside_def)
  with assms(3) show ?thesis by simp
qed

lemma SetCell_ok [simp]: "buf_ok t b \<Longrightarrow> buf_ok t (SetCell x y ch b)"
  by (simp add: buf_ok_def SetCell_def)

lemma cell_SetCell:
  assumes "buf_ok t b" and "inside t x' y'"
  shows "cell (SetCell x y ch b) x' y' = (if x = x' \<and> y = y' then ch else cell b x' y')"
proof (cases "inside t x y")
  case True
  have "nat (y * width t + x) = nat (y' * width t + x') \<longleftrightarrow> x = x' \<and> y = y'"
    using inside_index [OF True] inside_index [OF assms(2)] inside_inj [OF True assms(2)] by auto
  moreover have "nat (y' * width t + x') < length (cells b)"
    using inside_index [OF assms(2)] assms(1) by (simp add: buf_ok_def nat_less_iff)
  ultimately show ?thesis using True assms(1) by (auto simp: SetCell_def cell_def buf_ok_def inside_def nth_list_update)
next
  case False
  with assms show ?thesis by (auto simp: SetCell_def cell_def buf_ok_def inside_def)
qed

text \<open>What is drawn in one row leaves the others alone.\<close>

lemma renderText_loop_row:
  "\<lbrakk> buf_ok t b; inside t x' y'; y' \<noteq> y \<rbrakk> \<Longrightarrow> buf_ok t (renderText_loop ea x y rs b) \<and> cell (renderText_loop ea x y rs b) x' y' = cell b x' y'"
  by (induction ea x y rs b rule: renderText_loop.induct) (simp_all add: cell_SetCell)

lemma renderText_loop_ok [simp]: "buf_ok t b \<Longrightarrow> buf_ok t (renderText_loop ea x y rs b)"
  by (induction ea x y rs b rule: renderText_loop.induct) simp_all

lemma renderLine_loop_row:
  "\<lbrakk> buf_ok t b; 0 < w \<rbrakk> \<Longrightarrow> \<exists>b'. renderLine_loop w x stop y ch b = Some b' \<and> buf_ok t b' \<and>
     (\<forall>x' y'. inside t x' y' \<longrightarrow> y' \<noteq> y \<longrightarrow> cell b' x' y' = cell b x' y')"
proof (induction w x "stop" y ch b rule: renderLine_loop.induct)
  case (1 w x "stop" y ch b)
  then show ?case by (subst renderLine_loop.simps) (auto simp: cell_SetCell)
qed

section \<open>Text of plain characters\<close>

definition plain :: "string \<Rightarrow> bool" where
  "plain txt \<longleftrightarrow> (\<forall>b\<in>set (bytes_of txt). plain_byte b)"

lemma runes_plain: "plain txt \<Longrightarrow> runes (bytes_of txt) = map int (bytes_of txt)"
  by (rule runes_ascii) (auto simp: plain_def plain_byte_def)

lemma cell_plain_loop:
  "\<lbrakk> buf_ok t b; inside t x' y'; \<forall>c\<in>set bs. plain_byte c \<rbrakk>
   \<Longrightarrow> cell (renderText_loop ea x y (map int bs) b) x' y' =
     (if y' = y \<and> x \<le> x' \<and> x' < x + int (length bs) then int (bs ! nat (x' - x)) else cell b x' y')"
proof (induction bs arbitrary: x b)
  case (Cons c bs)
  have step: "nat (x' - x) = Suc (nat (x' - (x + 1)))" if "x < x'" using that by simp
  from Cons.IH [of "SetCell x y (int c) b" "x + 1"] Cons.prems show ?case
    by (auto simp: RuneWidth_plain cell_SetCell step)
qed simp

lemma cell_renderText:
  assumes "buf_ok t b" and "inside t x' y'" and "plain txt"
  shows "cell (renderText ea t column y txt b) x' y' =
    (if y' = y \<and> columnX t column \<le> x' \<and> x' < columnX t column + int (length txt) then of_char (txt ! nat (x' - columnX t column)) else cell b x' y')"
proof -
  have "cell (renderText ea t column y txt b) x' y' =
      (if y' = y \<and> columnX t column \<le> x' \<and> x' < columnX t column + int (length (bytes_of txt)) then int (bytes_of txt ! nat (x' - columnX t column)) else cell b x' y')"
    unfolding renderText_def runes_plain [OF assms(3)] by (rule cell_plain_loop) (use assms in \<open>simp_all add: plain_def\<close>)
  moreover have "nat (x' - columnX t column) < length txt" if "columnX t column \<le> x'" "x' < columnX t column + int (length txt)" using that by linarith
  ultimately show ?thesis by (auto simp: bytes_of_def of_nat_of_char)
qed

lemma buf_eqI:
  assumes "buf_ok t b" and "buf_ok t b'" and "\<And>x y. inside t x y \<Longrightarrow> cell b x y = cell b' x y" and "0 \<le> width t" and "0 \<le> height t"
  shows "b = b'"
proof -
  have "cells b ! k = cells b' ! k" if k: "k < nat (width t * height t)" for k
  proof -
    have w: "0 < width t" using k assms(4) by (cases "width t = 0") auto
    define x where "x = int k mod width t"
    define y where "y = int k div width t"
    have "int k < height t * width t" using k by (simp add: mult.commute zless_nat_eq_int_zless)
    moreover have "y * width t \<le> int k" using w by (simp add: y_def minus_mod_eq_div_mult [symmetric])
    ultimately have "y * width t < height t * width t" by linarith
    then have "y < height t" using w by simp
    then have "inside t x y" using w by (simp add: inside_def x_def y_def pos_imp_zdiv_nonneg_iff)
    from assms(3) [OF this] show ?thesis using assms(1,2) by (simp add: cell_def buf_ok_def x_def y_def)
  qed
  then have "cells b = cells b'" using assms(1,2) by (intro nth_equalityI) (auto simp: buf_ok_def)
  with assms(1,2) show ?thesis by (auto simp: buf_ok_def intro: cellbuf.equality)
qed

text \<open>Drawing a text over cells that already show how it could go on is the same as drawing the longer text.\<close>

lemma renderText_suffix:
  assumes "buf_ok t b" and "plain (n @ ds)" and "0 \<le> width t" and "0 \<le> height t"
    and "\<And>p. \<lbrakk> columnX t column + int (length n) \<le> p; p < columnX t column + int (length (n @ ds)); inside t p y \<rbrakk>
      \<Longrightarrow> cell b p y = of_char ((n @ ds) ! nat (p - columnX t column))"
  shows "renderText ea t column y n b = renderText ea t column y (n @ ds) b"
proof (rule buf_eqI [of t])
  fix x' y' assume ins: "inside t x' y'"
  have n: "plain n" using assms(2) by (simp add: plain_def bytes_of_def)
  have "(n @ ds) ! nat (x' - columnX t column) = n ! nat (x' - columnX t column)"
    if "columnX t column \<le> x'" "x' < columnX t column + int (length n)" using that by (simp add: nth_append nat_less_iff)
  with assms(5) [of x'] ins show "cell (renderText ea t column y n b) x' y' = cell (renderText ea t column y (n @ ds) b) x' y'"
    unfolding cell_renderText [OF assms(1) ins n] cell_renderText [OF assms(1) ins assms(2)] by auto
qed (use assms in \<open>simp_all add: renderText_def\<close>)

section \<open>Rows\<close>

text \<open>The lines that are drawn consist of a character with a width.\<close>

fun drawable :: "draw \<Rightarrow> bool" where
  "drawable (Text column y txt) = True"
| "drawable (Line column span y ch) = plain_byte (of_char ch)"

lemma paint_row:
  assumes "buf_ok t b" and "drawable d"
  shows "\<exists>b'. paint ea t d b = Some b' \<and> buf_ok t b' \<and> (\<forall>x y. inside t x y \<longrightarrow> y \<noteq> row d \<longrightarrow> cell b' x y = cell b x y)"
proof (cases d)
  case (Text column y s)
  with assms(1) renderText_loop_row show ?thesis by (auto simp: renderText_def)
next
  case (Line column span y ch)
  then have "0 < RuneWidth ea (int (of_char ch))" using assms(2) by (simp add: RuneWidth_plain)
  then have "0 < RuneWidth ea (of_char ch)" by (simp add: of_nat_of_char)
  from renderLine_loop_row [OF assms(1) this] Line show ?thesis by (auto simp: renderLine_def)
qed

lemma paint_all_append: "paint_all ea t (ds @ es) b = do { b \<leftarrow> paint_all ea t ds b; paint_all ea t es b }"
proof (induction ds arbitrary: b)
  case (Cons d ds)
  then show ?case by (cases "paint ea t d b") simp_all
qed simp

lemma paint_all_rows:
  "\<lbrakk> buf_ok t b; \<forall>d\<in>set ds. drawable d \<and> row d \<noteq> y \<rbrakk>
   \<Longrightarrow> \<exists>b'. paint_all ea t ds b = Some b' \<and> buf_ok t b' \<and> (\<forall>x. inside t x y \<longrightarrow> cell b' x y = cell b x y)"
proof (induction ds arbitrary: b)
  case (Cons d ds)
  obtain b1 where b1: "paint ea t d b = Some b1" "buf_ok t b1" "\<forall>x y. inside t x y \<longrightarrow> y \<noteq> row d \<longrightarrow> cell b1 x y = cell b x y"
    using paint_row [OF Cons.prems(1), of d ea] Cons.prems(2) by auto
  obtain b' where "paint_all ea t ds b1 = Some b'" "buf_ok t b'" "\<forall>x. inside t x y \<longrightarrow> cell b' x y = cell b1 x y"
    using Cons.IH [OF b1(2)] Cons.prems(2) by auto
  with b1 Cons.prems(2) show ?case by auto
qed simp

lemma cleared_ok: "buf_ok t (cleared t)"
  by (simp add: buf_ok_def cleared_def)

lemma cell_cleared: "inside t x y \<Longrightarrow> cell (cleared t) x y = 32"
  using inside_index [of t x y] by (simp add: cell_def cleared_def nat_less_iff)

text \<open>The texts of one line of a report, and that they have their row to themselves.\<close>

definition line_texts :: "int \<Rightarrow> KeyReport \<Rightarrow> draw list" where
  "line_texts y kr = [Text 0 y (Name kr), Text 8 y (Itoa (RequestsEstimate kr)), Text 9 y (Itoa (RSize kr)), Text 10 y (Itoa (TrafficEstimate kr))]"

lemma renderReport_line:
  "\<lbrakk> j < length krs; i + int j + 2 \<le> lastY \<rbrakk>
   \<Longrightarrow> \<exists>pre post. \<forall>kr. renderReport_loop lastY i (krs[j := kr]) = pre @ line_texts (i + int j + 2) kr @ post \<and>
     (\<forall>d\<in>set (pre @ post). drawable d \<and> row d \<noteq> i + int j + 2)"
proof (induction krs arbitrary: i j)
  case (Cons k krs)
  have draw: "drawable d" if "d \<in> set (renderReport_loop lastY i ks)" for d i ks
    using that by (induction lastY i ks rule: renderReport_loop.induct) (auto simp: Let_def split: if_splits)
  show ?case
  proof (cases j)
    case 0
    have "row d \<noteq> i + 2" if "d \<in> set (renderReport_loop lastY (i + 1) krs)" for d
      using renderReport_rows [OF that] by linarith
    with 0 Cons.prems draw show ?thesis
      by (intro exI [of _ "[]"] exI [of _ "renderReport_loop lastY (i + 1) krs"]) (auto simp: line_texts_def Let_def)
  next
    case (Suc m)
    have eq: "i + 1 + int m + 2 = i + int j + 2" using Suc by simp
    obtain pre post where pp: "\<forall>kr. renderReport_loop lastY (i + 1) (krs[m := kr]) = pre @ line_texts (i + int j + 2) kr @ post \<and>
        (\<forall>d\<in>set (pre @ post). drawable d \<and> row d \<noteq> i + int j + 2)"
      using Cons.IH [of m "i + 1"] Cons.prems Suc unfolding eq by auto
    have "i + 2 \<le> lastY" "i + 2 \<noteq> i + int j + 2" using Cons.prems Suc by auto
    with pp Suc show ?thesis
      by (intro exI [of _ "line_texts (i + 2) k @ pre"] exI [of _ post]) (auto simp: line_texts_def Let_def)
  qed
qed simp

lemma plain_Itoa: "plain (Itoa i)"
proof -
  have "plain_byte (of_char c)" if "is_digit c" for c using that by (auto simp: is_digit_def plain_byte_def)
  then have "plain (Utoa n)" for n using Utoa_digits [of n] by (auto simp: plain_def bytes_of_def)
  then show ?thesis by (simp add: Itoa_def plain_def bytes_of_def plain_byte_def)
qed

text \<open>A report with one of its lines replaced: everything else is drawn in other rows.\<close>

lemma screen_line:
  assumes "7 \<le> height t" and "length (messages u) \<le> 4" and "i < length rep" and "int i + 2 \<le> height t - 6"
  shows "\<exists>pre post. \<forall>kr. renderHeader @ renderReport t (rep[i := kr]) @ renderFooter t @ renderMessages t u = pre @ line_texts (int i + 2) kr @ post \<and>
    (\<forall>d\<in>set (pre @ post). drawable d \<and> row d \<noteq> int i + 2)"
proof -
  have last: "yFromBottom t (statusLines + logLines) = height t - 6" by (simp add: yFromBottom_def statusLines_def logLines_def)
  obtain pre post where pp: "\<forall>kr. renderReport_loop (height t - 6) 0 (rep[i := kr]) = pre @ line_texts (int i + 2) kr @ post \<and>
      (\<forall>d\<in>set (pre @ post). drawable d \<and> row d \<noteq> int i + 2)"
    using renderReport_line [of i rep 0 "height t - 6"] assms(3,4) by auto
  have h: "\<forall>d\<in>set renderHeader. drawable d \<and> row d \<noteq> int i + 2" by (simp add: renderHeader_def plain_byte_def)
  have f: "\<forall>d\<in>set (renderFooter t). drawable d \<and> row d \<noteq> int i + 2" using assms(4) by (simp add: renderFooter_def yFromBottom_def Let_def)
  have texts: "drawable d" if "d \<in> set (renderMessages_loop t k ms)" for d k ms
    using that by (induction t k ms rule: renderMessages_loop.induct) auto
  have m: "\<forall>d\<in>set (renderMessages t u). drawable d \<and> row d \<noteq> int i + 2"
    using renderMessages_rows [of _ t 0 "messages u"] texts assms(2,4) by (fastforce simp: renderMessages_def yFromBottom_def)
  show ?thesis
    by (rule exI [of _ "renderHeader @ pre"], rule exI [of _ "post @ renderFooter t @ renderMessages t u"])
      (use pp h f m in \<open>auto simp: renderReport_def last\<close>)
qed

text \<open>The buffer after the four texts of a line.\<close>

definition draw_line :: "bool \<Rightarrow> terminal \<Rightarrow> int \<Rightarrow> KeyReport \<Rightarrow> cellbuf \<Rightarrow> cellbuf" where
  "draw_line ea t y kr b = renderText ea t 10 y (Itoa (TrafficEstimate kr)) (renderText ea t 9 y (Itoa (RSize kr))
     (renderText ea t 8 y (Itoa (RequestsEstimate kr)) (renderText ea t 0 y (Name kr) b)))"

lemma paint_line: "paint_all ea t (line_texts y kr) b = Some (draw_line ea t y kr b)"
  by (simp add: line_texts_def draw_line_def)

lemma renderText_ok [simp]: "buf_ok t b \<Longrightarrow> buf_ok t (renderText ea t column y s b)"
  by (simp add: renderText_def)

lemma screen_split:
  assumes "7 \<le> height t" and "length (messages u) \<le> 4" and "i < length rep" and "int i + 2 \<le> height t - 6"
  shows "\<exists>b post. buf_ok t b \<and> (\<forall>x. inside t x (int i + 2) \<longrightarrow> cell b x (int i + 2) = 32) \<and> (\<forall>d\<in>set post. drawable d \<and> row d \<noteq> int i + 2) \<and>
    (\<forall>kr. screen ea t (renderHeader @ renderReport t (rep[i := kr]) @ renderFooter t @ renderMessages t u) =
       paint_all ea t post (draw_line ea t (int i + 2) kr b))"
proof -
  obtain pre post where pp: "\<forall>kr. renderHeader @ renderReport t (rep[i := kr]) @ renderFooter t @ renderMessages t u = pre @ line_texts (int i + 2) kr @ post"
    "\<forall>d\<in>set (pre @ post). drawable d \<and> row d \<noteq> int i + 2" using screen_line [OF assms] by blast
  then have "\<forall>d\<in>set pre. drawable d \<and> row d \<noteq> int i + 2" by simp
  from paint_all_rows [OF cleared_ok this] obtain b where b: "paint_all ea t pre (cleared t) = Some b" "buf_ok t b"
    "\<forall>x. inside t x (int i + 2) \<longrightarrow> cell b x (int i + 2) = cell (cleared t) x (int i + 2)" by blast
  have "screen ea t (renderHeader @ renderReport t (rep[i := kr]) @ renderFooter t @ renderMessages t u) =
      paint_all ea t post (draw_line ea t (int i + 2) kr b)" for kr
    unfolding pp(1) [rule_format] screen_def paint_all_append by (simp add: b(1) paint_line)
  with b pp(2) cell_cleared show ?thesis by (intro exI [of _ b] exI [of _ post]) auto
qed

section \<open>Properties\<close>

text \<open>What stands in the cells from \<open>x\<close> up to \<open>stop\<close>: the text, and blanks behind it.\<close>

definition shows_text :: "cellbuf \<Rightarrow> int \<Rightarrow> int \<Rightarrow> int \<Rightarrow> string \<Rightarrow> bool" where
  "shows_text b y x stop s \<longleftrightarrow> (\<forall>p. x \<le> p \<longrightarrow> p < stop \<longrightarrow>
     cell b p y = (if p < x + int (length s) then of_char (s ! nat (p - x)) else 32))"

text \<open>
  C25.  The screen shows the report.  On a terminal with at least seven rows and twelve columns of characters, in every locale: if the texts of a line of the report are printable ASCII and
  fit into their columns, the line is drawn in its row exactly as it is, with blanks up to the next column.
\<close>

theorem report_on_screen:
  assumes "7 \<le> height t" and "12 \<le> width t" and "length (messages u) \<le> 4" and "i < length rep" and "int i + 2 \<le> height t - 6"
    and "plain (Name (rep ! i))" and "int (length (Name (rep ! i))) \<le> columnX t 8"
    and "columnX t 8 + int (length (Itoa (RequestsEstimate (rep ! i)))) \<le> columnX t 9"
    and "columnX t 9 + int (length (Itoa (RSize (rep ! i)))) \<le> columnX t 10"
  shows "\<exists>b. screen ea t (renderHeader @ renderReport t rep @ renderFooter t @ renderMessages t u) = Some b \<and>
    shows_text b (int i + 2) 0 (columnX t 8) (Name (rep ! i)) \<and>
    shows_text b (int i + 2) (columnX t 8) (columnX t 9) (Itoa (RequestsEstimate (rep ! i))) \<and>
    shows_text b (int i + 2) (columnX t 9) (columnX t 10) (Itoa (RSize (rep ! i))) \<and>
    shows_text b (int i + 2) (columnX t 10) (width t) (Itoa (TrafficEstimate (rep ! i)))"
proof -
  let ?y = "int i + 2" and ?kr = "rep ! i"
  obtain b post where b: "buf_ok t b" "\<forall>x. inside t x ?y \<longrightarrow> cell b x ?y = 32" "\<forall>d\<in>set post. drawable d \<and> row d \<noteq> ?y"
    "\<forall>kr. screen ea t (renderHeader @ renderReport t (rep[i := kr]) @ renderFooter t @ renderMessages t u) = paint_all ea t post (draw_line ea t ?y kr b)"
    using screen_split [OF assms(1,3-5), of ea] by blast
  have ok: "buf_ok t (draw_line ea t ?y ?kr b)" using b(1) by (simp add: draw_line_def)
  obtain b' where b': "paint_all ea t post (draw_line ea t ?y ?kr b) = Some b'" "\<forall>x. inside t x ?y \<longrightarrow> cell b' x ?y = cell (draw_line ea t ?y ?kr b) x ?y"
    using paint_all_rows [OF ok b(3)] by blast
  have s: "screen ea t (renderHeader @ renderReport t rep @ renderFooter t @ renderMessages t u) = Some b'"
    using b(4) [rule_format, of ?kr] b'(1) by simp
  have cols: "columnX t 0 = 0" "0 < columnX t 8" "columnX t 8 < columnX t 9" "columnX t 9 < columnX t 10" "columnX t 10 < width t"
    using columnX_mono [OF assms(2), of 0 8] columnX_mono [OF assms(2), of 8 9] columnX_mono [OF assms(2), of 9 10] columnX_mono [OF assms(2), of 10 12]
    by (auto simp: columnX_def numColumns_def)
  have "cell b' x ?y =
      (if columnX t 10 \<le> x \<and> x < columnX t 10 + int (length (Itoa (TrafficEstimate ?kr))) then of_char (Itoa (TrafficEstimate ?kr) ! nat (x - columnX t 10))
       else if columnX t 9 \<le> x \<and> x < columnX t 9 + int (length (Itoa (RSize ?kr))) then of_char (Itoa (RSize ?kr) ! nat (x - columnX t 9))
       else if columnX t 8 \<le> x \<and> x < columnX t 8 + int (length (Itoa (RequestsEstimate ?kr))) then of_char (Itoa (RequestsEstimate ?kr) ! nat (x - columnX t 8))
       else if 0 \<le> x \<and> x < int (length (Name ?kr)) then of_char (Name ?kr ! nat x) else 32)" if "0 \<le> x" "x < width t" for x
  proof -
    have "inside t x ?y" using that assms(5) by (simp add: inside_def)
    with b'(2) b(1,2) assms(6) show ?thesis by (simp add: draw_line_def cell_renderText plain_Itoa cols(1))
  qed
  with s cols assms(7-9) show ?thesis by (intro exI [of _ b']) (auto simp: shows_text_def)
qed

text \<open>
  C39.  A long key falsifies the number of requests.  A key that reaches into the next columns is overwritten by their texts but not erased behind them: whenever its characters behind the number look
  like further digits, the screen is the same as for the number with these digits, so that 5 requests for a long key of nines appear as 59.
\<close>

theorem long_key_garbles:
  assumes "7 \<le> height t" and "12 \<le> width t" and "length (messages u) \<le> 4" and "i < length rep" and "int i + 2 \<le> height t - 6"
    and "plain (Name (rep ! i))" and "Itoa r = Itoa (RequestsEstimate (rep ! i)) @ ds"
    and "take (length ds) (drop (nat (columnX t 8) + length (Itoa (RequestsEstimate (rep ! i)))) (Name (rep ! i))) = ds"
  shows "screen ea t (renderHeader @ renderReport t rep @ renderFooter t @ renderMessages t u) =
    screen ea t (renderHeader @ renderReport t (rep[i := (rep ! i)\<lparr>RequestsEstimate := r\<rparr>]) @ renderFooter t @ renderMessages t u)"
proof -
  let ?y = "int i + 2" and ?kr = "rep ! i" and ?x = "columnX t 8" and ?n = "Itoa (RequestsEstimate (rep ! i))"
  obtain b post where b: "buf_ok t b"
    "\<forall>kr. screen ea t (renderHeader @ renderReport t (rep[i := kr]) @ renderFooter t @ renderMessages t u) = paint_all ea t post (draw_line ea t ?y kr b)"
    using screen_split [OF assms(1,3-5), of ea] by blast
  have x: "columnX t 0 = 0" "0 < ?x" using columnX_mono [OF assms(2), of 0 8] by (auto simp: columnX_def numColumns_def)
  let ?b = "renderText ea t 0 ?y (Name ?kr) b"
  have "cell ?b p ?y = of_char ((?n @ ds) ! nat (p - ?x))"
    if p: "?x + int (length ?n) \<le> p" "p < ?x + int (length (?n @ ds))" "inside t p ?y" for p
  proof -
    define q where "q = nat (p - ?x) - length ?n"
    have q: "q < length ds" "nat (p - ?x) = length ?n + q" "nat p = nat ?x + length ?n + q" using p x(2) by (auto simp: q_def)
    have "length (take (length ds) (drop (nat ?x + length ?n) (Name ?kr))) = length ds" using assms(8) by simp
    then have l: "nat ?x + length ?n + length ds \<le> length (Name ?kr)" using q(1) by simp
    have "ds ! q = Name ?kr ! (nat ?x + length ?n + q)" using arg_cong [OF assms(8), of "\<lambda>xs. xs ! q"] q(1) l by simp
    moreover have "p < int (length (Name ?kr))" "0 \<le> p" using l q(1,3) p x(2) by linarith+
    ultimately show ?thesis using q by (simp add: cell_renderText [OF b(1) p(3) assms(6)] x(1) nth_append)
  qed
  moreover have "plain (?n @ ds)" using plain_Itoa [of r] assms(7) by simp
  ultimately have "renderText ea t 8 ?y ?n ?b = renderText ea t 8 ?y (Itoa r) ?b"
    unfolding assms(7) using b(1) assms(1,2) by (intro renderText_suffix) auto
  then have "draw_line ea t ?y ?kr b = draw_line ea t ?y (?kr\<lparr>RequestsEstimate := r\<rparr>) b" by (simp add: draw_line_def)
  with b(2) [rule_format, of ?kr] b(2) [rule_format, of "?kr\<lparr>RequestsEstimate := r\<rparr>"] show ?thesis by simp
qed

definition sample_line :: "string \<Rightarrow> int \<Rightarrow> KeyReport" where
  "sample_line k r = \<lparr>Name = k, RSize = 10, RequestsEstimate = r, TrafficEstimate = 10 * r\<rparr>"

lemma sample_numbers: "Itoa 5 = ''5''" "Itoa 59 = ''59''" "Itoa 10 = ''10''"
  by code_simp+

lemma sample_columns: "columnX sample_terminal 8 = 53" "columnX sample_terminal 9 = 60" "columnX sample_terminal 10 = 66"
  by (simp_all add: columnX_def numColumns_def sample_terminal_def)

theorem report_on_screen_witness:
  "\<exists>b. screen True sample_terminal (renderHeader @ renderReport sample_terminal [sample_line ''k'' 5] @ renderFooter sample_terminal @
       renderMessages sample_terminal (New (Pool_New 1 10 :: nat Pool) False)) = Some b \<and>
     shows_text b 2 0 53 ''k'' \<and> shows_text b 2 53 60 ''5''"
proof -
  have "plain ''k''" by (simp add: plain_def bytes_of_def plain_byte_def)
  moreover have "7 \<le> height sample_terminal" "12 \<le> width sample_terminal" "(2::int) \<le> height sample_terminal - 6" by (simp_all add: sample_terminal_def)
  moreover have "length (messages (New (Pool_New 1 10 :: nat Pool) False)) \<le> 4" by (simp add: New_def)
  ultimately show ?thesis
    using report_on_screen [of sample_terminal "New (Pool_New 1 10 :: nat Pool) False" 0 "[sample_line ''k'' 5]" True]
    by (auto simp: sample_line_def sample_numbers sample_columns)
qed

theorem long_key_garbles_witness:
  "screen False sample_terminal (renderHeader @ renderReport sample_terminal [sample_line (replicate 60 (CHR ''9'')) 5] @ renderFooter sample_terminal @
       renderMessages sample_terminal (New (Pool_New 1 10 :: nat Pool) False)) =
   screen False sample_terminal (renderHeader @ renderReport sample_terminal [(sample_line (replicate 60 (CHR ''9'')) 5)\<lparr>RequestsEstimate := 59\<rparr>] @
       renderFooter sample_terminal @ renderMessages sample_terminal (New (Pool_New 1 10 :: nat Pool) False))"
proof -
  have "plain (replicate 60 (CHR ''9''))" by (simp add: plain_def bytes_of_def plain_byte_def)
  moreover have "7 \<le> height sample_terminal" "12 \<le> width sample_terminal" "(2::int) \<le> height sample_terminal - 6" by (simp_all add: sample_terminal_def)
  moreover have "length (messages (New (Pool_New 1 10 :: nat Pool) False)) \<le> 4" by (simp add: New_def)
  ultimately show ?thesis
    using long_key_garbles [of sample_terminal "New (Pool_New 1 10 :: nat Pool) False" 0 "[sample_line (replicate 60 (CHR ''9'')) 5]" 59 "''9''" False]
    by (simp add: sample_line_def sample_numbers sample_columns)
qed

end
