(* ===== verification/LogRun.thy ===== *)
theory LogRun
  imports Logger Runs "HOL-Library.Sublist"
begin

text \<open>
  Logging while the user interface starts, runs and fails: the last part of \<open>main\<close> in \<^verbatim>\<open>main.go\<close> with the locks of the loggers (\<^verbatim>\<open>log/logger.go\<close>) and the interface's bounded
  channel.  Goroutines that log go through the proxy, which holds its read lock during the call; \<open>SetLogger\<close> needs the write lock; \<open>BufferLogger\<close> holds its mutex
  while it writes its messages.  The goroutine that \<open>main\<close> starts for \<open>buffered.WriteTo(cui)\<close> and \<open>main\<close> itself are the two that write them.  Go lets a waiting writer of a
  read-write lock go before new readers; here readers may enter at any time, which allows more runs.
\<close>

section \<open>State\<close>

text \<open>
  Where \<open>main\<close> is: in front of \<open>SetLogger(cui)\<close>; inside \<open>cui.Run\<close>; after it has failed, in front of \<open>SetLogger(ConsoleLogger)\<close>, of locking the buffer, inside \<open>WriteTo\<close> in front of
  message \<open>k\<close>, and in front of logging the error.
\<close>

datatype main_pc = Starting | Running | Failing items | Locking items | Draining nat items | Telling items | Exited

datatype writer_pc = NotStarted | Waiting | Sending nat | Stopped

datatype logger_pc = Out | Holding items

record logging =
  target :: Logger
  early :: "items list"
  chan :: "string list"
  con :: "items list"
  main :: main_pc
  writer :: writer_pc
  loggers :: "logger_pc list"

definition init :: "nat \<Rightarrow> logging" where
  "init m = \<lparr>target = BufferLogger, early = [], chan = [], con = [], main = Starting, writer = NotStarted, loggers = replicate m Out\<rparr>"

text \<open>The buffer's mutex is held by whoever writes its messages; the proxy's read lock by the calls that are under way.\<close>

fun draining :: "main_pc \<Rightarrow> bool" where
  "draining (Draining k e) = True"
| "draining _ = False"

fun sending :: "writer_pc \<Rightarrow> bool" where
  "sending (Sending k) = True"
| "sending _ = False"

definition buffer_locked :: "logging \<Rightarrow> bool" where
  "buffer_locked s \<longleftrightarrow> draining (main s) \<or> sending (writer s)"

definition read_locked :: "logging \<Rightarrow> bool" where
  "read_locked s \<longleftrightarrow> (\<exists>l\<in>set (loggers s). l \<noteq> Out)"

text \<open>A call of the logger behind the proxy; \<open>None\<close> while it has to wait.\<close>

definition deliver :: "items \<Rightarrow> logging \<Rightarrow> logging option" where
  "deliver m s =
     (case target s of
        BufferLogger \<Rightarrow> if buffer_locked s then None else Some (s\<lparr>early := early s @ [m]\<rparr>)
      | UiLogger \<Rightarrow> if length (chan s) < uiChanCap then Some (s\<lparr>chan := chan s @ [Sprintln m]\<rparr>) else None
      | ConsoleLogger \<Rightarrow> Some (s\<lparr>con := con s @ [m]\<rparr>)
      | _ \<Rightarrow> None)"

text \<open>These are the calls of the sequential model of the loggers.\<close>

definition as_log_state :: "logging \<Rightarrow> log_state" where
  "as_log_state s = \<lparr>console = con s, buffered = early s, bufferLocked = buffer_locked s, proxied = Some (target s), uiChan = chan s\<rparr>"

lemma deliver_Log:
  "target s \<in> {BufferLogger, UiLogger, ConsoleLogger} \<Longrightarrow> map_option as_log_state (deliver m s) = Log ProxyLogger m (as_log_state s)"
  by (auto simp: deliver_def as_log_state_def ui_Log_def buffer_locked_def)

section \<open>Steps\<close>

text \<open>While it runs the interface takes messages from its channel; pausing makes it send one itself (\<open>Noted\<close>).\<close>

datatype label = Entered nat items | Delivered nat items | Shown string | Noted string | RunFailed items | RunQuit | Internal

inductive step :: "logging \<Rightarrow> label \<Rightarrow> logging \<Rightarrow> bool" where
  enter: "\<lbrakk> j < length (loggers s); loggers s ! j = Out \<rbrakk> \<Longrightarrow> step s (Entered j m) (s\<lparr>loggers := (loggers s)[j := Holding m]\<rparr>)"
| log: "\<lbrakk> j < length (loggers s); loggers s ! j = Holding m; deliver m s = Some s' \<rbrakk> \<Longrightarrow> step s (Delivered j m) (s'\<lparr>loggers := (loggers s)[j := Out]\<rparr>)"
| set_ui: "\<lbrakk> main s = Starting; \<not> read_locked s \<rbrakk> \<Longrightarrow> step s Internal (s\<lparr>target := UiLogger, main := Running, writer := Waiting\<rparr>)"
| write_lock: "\<lbrakk> writer s = Waiting; \<not> buffer_locked s \<rbrakk> \<Longrightarrow> step s Internal (s\<lparr>writer := Sending 0\<rparr>)"
| write_one: "\<lbrakk> writer s = Sending k; k < length (early s); length (chan s) < uiChanCap \<rbrakk>
    \<Longrightarrow> step s Internal (s\<lparr>chan := chan s @ [Sprintln (early s ! k)], writer := Sending (Suc k)\<rparr>)"
| write_done: "\<lbrakk> writer s = Sending (length (early s)) \<rbrakk> \<Longrightarrow> step s Internal (s\<lparr>writer := Stopped\<rparr>)"
| show_one: "\<lbrakk> main s = Running; chan s = m # ms \<rbrakk> \<Longrightarrow> step s (Shown m) (s\<lparr>chan := ms\<rparr>)"
| note_one: "\<lbrakk> main s = Running; length (chan s) < uiChanCap \<rbrakk> \<Longrightarrow> step s (Noted m) (s\<lparr>chan := chan s @ [m]\<rparr>)"
| run_fails: "main s = Running \<Longrightarrow> step s (RunFailed e) (s\<lparr>main := Failing e\<rparr>)"
| run_quits: "main s = Running \<Longrightarrow> step s RunQuit (s\<lparr>main := Exited\<rparr>)"
| set_console: "\<lbrakk> main s = Failing e; \<not> read_locked s \<rbrakk> \<Longrightarrow> step s Internal (s\<lparr>target := ConsoleLogger, main := Locking e\<rparr>)"
| drain_lock: "\<lbrakk> main s = Locking e; \<not> buffer_locked s \<rbrakk> \<Longrightarrow> step s Internal (s\<lparr>main := Draining 0 e\<rparr>)"
| drain_one: "\<lbrakk> main s = Draining k e; k < length (early s) \<rbrakk> \<Longrightarrow> step s Internal (s\<lparr>con := con s @ [early s ! k], main := Draining (Suc k) e\<rparr>)"
| drain_done: "\<lbrakk> main s = Draining (length (early s)) e \<rbrakk> \<Longrightarrow> step s Internal (s\<lparr>main := Telling e\<rparr>)"
| tell: "main s = Telling e \<Longrightarrow> step s Internal (s\<lparr>con := con s @ [e], main := Exited\<rparr>)"

abbreviation run :: "logging \<Rightarrow> label list \<Rightarrow> logging \<Rightarrow> bool" where
  "run \<equiv> runs step"

section \<open>After the interface has failed\<close>

text \<open>\<open>main\<close> tells of the error \<open>e\<close>; the console is the target once it has been set.\<close>

fun telling :: "items \<Rightarrow> items list \<Rightarrow> items list \<Rightarrow> Logger \<Rightarrow> main_pc \<Rightarrow> bool" where
  "telling e ms c l (Failing e') \<longleftrightarrow> e' = e \<and> l = UiLogger"
| "telling e ms c l (Locking e') \<longleftrightarrow> e' = e \<and> l = ConsoleLogger"
| "telling e ms c l (Draining k e') \<longleftrightarrow> e' = e \<and> l = ConsoleLogger \<and> k \<le> length ms \<and> subseq (take k ms) c"
| "telling e ms c l (Telling e') \<longleftrightarrow> e' = e \<and> l = ConsoleLogger \<and> subseq ms c"
| "telling e ms c l Exited \<longleftrightarrow> l = ConsoleLogger \<and> subseq (ms @ [e]) c"
| "telling e ms c l _ \<longleftrightarrow> False"

text \<open>The messages that may still enter the interface's channel.\<close>

fun to_send :: "nat \<Rightarrow> writer_pc \<Rightarrow> nat" where
  "to_send n NotStarted = 0"
| "to_send n Waiting = n"
| "to_send n (Sending k) = n - k"
| "to_send n Stopped = 0"

definition underway :: "logging \<Rightarrow> nat" where
  "underway s = length (filter (\<lambda>l. l \<noteq> Out) (loggers s))"

definition headed_for_ui :: "logging \<Rightarrow> nat" where
  "headed_for_ui s = length (chan s) + to_send (length (early s)) (writer s) + (if target s = UiLogger then underway s else 0)"

text \<open>One writer at a time, and within the buffer.\<close>

definition writers_ok :: "logging \<Rightarrow> bool" where
  "writers_ok s \<longleftrightarrow> \<not> (draining (main s) \<and> sending (writer s)) \<and> (\<forall>k. writer s = Sending k \<longrightarrow> k \<le> length (early s))"

definition reporting :: "items \<Rightarrow> items list \<Rightarrow> logging \<Rightarrow> bool" where
  "reporting e ms s \<longleftrightarrow> early s = ms \<and> telling e ms (con s) (target s) (main s)"

definition failed :: "items \<Rightarrow> items list \<Rightarrow> logging \<Rightarrow> bool" where
  "failed e ms s \<longleftrightarrow> reporting e ms s \<and> writers_ok s \<and> headed_for_ui s \<le> uiChanCap"

fun external :: "label \<Rightarrow> bool" where
  "external (Entered j m) = True"
| "external _ = False"

definition main_weight :: "nat \<Rightarrow> main_pc \<Rightarrow> nat" where
  "main_weight n p = (case p of Failing e \<Rightarrow> n + 5 | Locking e \<Rightarrow> n + 4 | Draining k e \<Rightarrow> n - k + 3 | Telling e \<Rightarrow> 2 | _ \<Rightarrow> 0)"

definition writer_weight :: "nat \<Rightarrow> writer_pc \<Rightarrow> nat" where
  "writer_weight n p = (case p of NotStarted \<Rightarrow> 0 | Waiting \<Rightarrow> n + 2 | Sending k \<Rightarrow> n - k + 1 | Stopped \<Rightarrow> 0)"

definition weight :: "logging \<Rightarrow> nat" where
  "weight s = main_weight (length (early s)) (main s) + writer_weight (length (early s)) (writer s) + underway s"

lemma filter_update:
  "j < length xs \<Longrightarrow> length (filter P (xs[j := x])) + of_bool (P (xs ! j)) = length (filter P xs) + of_bool (P x)"
proof (induction xs arbitrary: j)
  case (Cons y ys)
  then show ?case by (cases j) auto
qed simp

lemma underway_leave:
  "\<lbrakk> j < length (loggers s); loggers s ! j = Holding m; loggers s' = (loggers s)[j := Out] \<rbrakk> \<Longrightarrow> Suc (underway s') = underway s"
  using filter_update [of j "loggers s" "\<lambda>l. l \<noteq> Out" Out] by (simp add: underway_def)

lemma reporting_target: "reporting e ms s \<Longrightarrow> target s = UiLogger \<or> target s = ConsoleLogger"
  by (cases "main s") (auto simp: reporting_def)

lemma deliver_reporting:
  assumes "reporting e ms s" and "deliver m s = Some s'"
  shows "main s' = main s" "writer s' = writer s" "early s' = early s" "target s' = target s" "reporting e ms s'"
    "target s = UiLogger \<and> length (chan s') = Suc (length (chan s)) \<or> target s = ConsoleLogger \<and> chan s' = chan s"
proof -
  show d: "main s' = main s" "writer s' = writer s" "early s' = early s" "target s' = target s"
    "target s = UiLogger \<and> length (chan s') = Suc (length (chan s)) \<or> target s = ConsoleLogger \<and> chan s' = chan s"
    using assms(2) reporting_target [OF assms(1)] by (auto simp: deliver_def split: if_splits)
  have "con s' = con s \<or> con s' = con s @ [m]" using assms(2) reporting_target [OF assms(1)] by (auto simp: deliver_def split: if_splits)
  then have "telling e ms (con s') (target s) (main s)"
    using assms(1) by (cases "main s") (auto simp: reporting_def intro: subseq_rev_drop_many)
  with assms(1) d show "reporting e ms s'" by (simp add: reporting_def)
qed

lemma reporting_step: "\<lbrakk> step s l s'; reporting e ms s \<rbrakk> \<Longrightarrow> reporting e ms s'"
proof (induction rule: step.induct)
  case (log j s m s')
  then have "reporting e ms s'" using deliver_reporting(5) by blast
  then show ?case by (simp add: reporting_def)
qed (auto simp: reporting_def take_Suc_conv_app_nth intro: list_emb_append_mono)

lemma failed_log:
  assumes "failed e ms s" and "j < length (loggers s)" and "loggers s ! j = Holding m" and "deliver m s = Some s'"
  shows "failed e ms (s'\<lparr>loggers := (loggers s)[j := Out]\<rparr>)" and "weight (s'\<lparr>loggers := (loggers s)[j := Out]\<rparr>) < weight s"
proof -
  let ?s = "s'\<lparr>loggers := (loggers s)[j := Out]\<rparr>"
  have u: "Suc (underway ?s) = underway s" by (rule underway_leave [OF assms(2,3)]) simp
  have d: "main s' = main s" "writer s' = writer s" "early s' = early s" "target s' = target s" "reporting e ms s'"
    "target s = UiLogger \<and> length (chan s') = Suc (length (chan s)) \<or> target s = ConsoleLogger \<and> chan s' = chan s"
    using deliver_reporting [OF _ assms(4), of e ms] assms(1) by (simp_all add: failed_def)
  then have "headed_for_ui ?s \<le> uiChanCap" using assms(1) u by (auto simp: failed_def headed_for_ui_def)
  then show "failed e ms ?s" using assms(1) d by (auto simp: failed_def writers_ok_def reporting_def)
  show "weight ?s < weight s" using d u by (simp add: weight_def)
qed

lemmas failed_defs = failed_def reporting_def writers_ok_def headed_for_ui_def weight_def main_weight_def writer_weight_def underway_def buffer_locked_def

lemma failed_step:
  assumes "step s l s'" and "failed e ms s" and "\<not> external l"
  shows "failed e ms s' \<and> weight s' < weight s"
proof -
  have "reporting e ms s'" using reporting_step assms(1,2) by (auto simp: failed_def)
  with assms show ?thesis
  proof (induction rule: step.induct)
    case (log j s m s')
    with failed_log [of e ms s j m s'] show ?case by simp
  qed (auto simp: failed_defs)
qed

definition settled :: "logging \<Rightarrow> bool" where
  "settled s \<longleftrightarrow> main s = Exited"

lemma logger_progress:
  assumes "failed e ms s" and "read_locked s"
  shows "\<exists>j m s'. step s (Delivered j m) s'"
proof -
  obtain j m where j: "j < length (loggers s)" "loggers s ! j = Holding m"
    using assms(2) by (auto simp: read_locked_def in_set_conv_nth) (metis logger_pc.exhaust)
  have "Holding m \<in> set (loggers s)" using j nth_mem by metis
  then have "0 < underway s" by (auto simp: underway_def filter_empty_conv)
  moreover have "target s = UiLogger \<or> target s = ConsoleLogger" using assms(1) reporting_target by (auto simp: failed_def)
  ultimately have "\<exists>s'. deliver m s = Some s'" using assms(1) by (auto simp: deliver_def failed_def headed_for_ui_def)
  with step.log [OF j] show ?thesis by blast
qed

lemma writer_progress:
  assumes "failed e ms s" and "sending (writer s)"
  shows "\<exists>s'. step s Internal s'"
proof -
  obtain k where k: "writer s = Sending k" using assms(2) by (cases "writer s") auto
  then have "k \<le> length (early s)" "length (chan s) + (length (early s) - k) \<le> uiChanCap" using assms(1) by (auto simp: failed_def writers_ok_def headed_for_ui_def)
  then consider "k = length (early s)" | "k < length (early s)" "length (chan s) < uiChanCap" by linarith
  then show ?thesis
  proof cases
    case 1
    with step.write_done [of s] k show ?thesis by blast
  next
    case 2
    with step.write_one [OF k] show ?thesis by blast
  qed
qed

lemma main_progress:
  assumes "failed e ms s" and "\<not> read_locked s" and "\<not> sending (writer s)" and "main s \<noteq> Exited"
  shows "\<exists>s'. step s Internal s'"
proof (cases "main s")
  case (Failing e')
  with step.set_console assms(2) show ?thesis by blast
next
  case (Locking e')
  with step.drain_lock assms(3) show ?thesis by (auto simp: buffer_locked_def)
next
  case (Draining k e')
  then have "k \<le> length (early s)" using assms(1) by (auto simp: failed_def reporting_def)
  with step.drain_one [OF Draining] step.drain_done [of s e'] Draining show ?thesis by (cases "k = length (early s)") auto
next
  case (Telling e')
  with step.tell show ?thesis by blast
qed (use assms in \<open>auto simp: failed_def reporting_def\<close>)

interpretation logging: winding_down step "failed e ms" external weight settled for e ms
proof
  show "failed e ms q" if "step p l q" "failed e ms p" "\<not> external l" for p l q using failed_step that by blast
  show "weight q < weight p" if "step p l q" "failed e ms p" "\<not> external l" for p l q using failed_step that by blast
  show "\<exists>l q. step p l q \<and> \<not> external l" if f: "failed e ms p" and s: "\<not> settled p" for p
  proof -
    have int: ?thesis if "\<exists>q. step p Internal q" using that by (metis external.simps)
    consider "read_locked p" | "sending (writer p)" | "\<not> read_locked p" "\<not> sending (writer p)" "main p \<noteq> Exited"
      using s by (auto simp: settled_def)
    then show ?thesis
    proof cases
      case 1
      with logger_progress [OF f] show ?thesis by (metis external.simps)
    qed (use writer_progress main_progress f int in blast)+
  qed
qed

section \<open>Reachable states\<close>

text \<open>The interface is the target from \<open>SetLogger(cui)\<close> until the switch to the console.\<close>

definition staged :: "logging \<Rightarrow> bool" where
  "staged s \<longleftrightarrow> writers_ok s \<and> (case main s of Starting \<Rightarrow> writer s = NotStarted | Running \<Rightarrow> target s = UiLogger | Failing e \<Rightarrow> target s = UiLogger | _ \<Rightarrow> True)"

lemma deliver_staged: "\<lbrakk> deliver m s = Some s'; staged s \<rbrakk> \<Longrightarrow> staged s'"
  by (auto simp: deliver_def staged_def writers_ok_def split: Logger.Logger.splits if_splits main_pc.splits)

lemma staged_step: "\<lbrakk> step s l s'; staged s \<rbrakk> \<Longrightarrow> staged s'"
proof (induction rule: step.induct)
  case (log j s m s')
  then have "staged s'" using deliver_staged by blast
  then show ?case by (simp add: staged_def writers_ok_def split: main_pc.splits)
qed (auto simp: staged_def writers_ok_def buffer_locked_def split: main_pc.splits)

lemma reachable_staged: "run (init m) ls s \<Longrightarrow> staged s"
  by (rule runs_invariant [of step "init m" ls s staged]) (auto simp: init_def staged_def writers_ok_def dest: staged_step)

lemma reachable_reporting: "\<lbrakk> run (init m) ls s; main s = Failing e \<rbrakk> \<Longrightarrow> reporting e (early s) s"
  using reachable_staged [of m ls s] by (simp add: staged_def reporting_def)

section \<open>A full channel\<close>

text \<open>
  The interface has failed with its channel full, and either the starting goroutine is still writing the early messages to it, or some call through the proxy
  waits for room in it.
\<close>

definition jammed :: "logging \<Rightarrow> bool" where
  "jammed s \<longleftrightarrow> length (chan s) = uiChanCap
     \<and> (case main s of
          Failing e \<Rightarrow> target s = UiLogger \<and> read_locked s \<or> sending (writer s) \<and> writer s \<noteq> Sending (length (early s))
        | Locking e \<Rightarrow> sending (writer s) \<and> writer s \<noteq> Sending (length (early s))
        | _ \<Rightarrow> False)"

lemma read_locked_update [simp]:
  "read_locked (s\<lparr>writer := w\<rparr>) = read_locked s"
  "read_locked (s\<lparr>main := p\<rparr>) = read_locked s"
  "read_locked (s\<lparr>chan := c\<rparr>) = read_locked s"
  by (simp_all add: read_locked_def)

lemma read_locked_enter: "read_locked s \<Longrightarrow> j < length (loggers s) \<Longrightarrow> loggers s ! j = Out \<Longrightarrow> read_locked (s\<lparr>loggers := (loggers s)[j := Holding m]\<rparr>)"
  using set_update_memI [of j "loggers s" "Holding m"] by (auto simp: read_locked_def)

lemma jammed_step: "\<lbrakk> step s l s'; jammed s \<rbrakk> \<Longrightarrow> jammed s'"
proof (induction rule: step.induct)
  case (enter j s m)
  then show ?case using read_locked_enter [of s j m] by (auto simp: jammed_def split: main_pc.splits)
next
  case (log j s m s')
  have "Holding m \<in> set (loggers s)" using log nth_mem by metis
  then have "read_locked s" using log by (auto simp: read_locked_def)
  with log show ?case
    by (auto simp: jammed_def deliver_def buffer_locked_def split: main_pc.splits Logger.Logger.splits if_splits)
qed (auto simp: jammed_def buffer_locked_def split: main_pc.splits)

section \<open>Properties\<close>

text \<open>
  C18.  A failure of the interface is reported.  Whatever the other goroutines log meanwhile, when \<open>main\<close> ends the console has the early messages in their order and, behind
  them, the error.  And \<open>main\<close> does end, provided that what is in the interface's channel and what is still headed for it fits its capacity: the goroutines
  that are under way can go on until it has, and only for a bounded number of steps.
\<close>

theorem failure_reported:
  assumes "run (init m) ls s" and "main s = Failing e" and "run s ls' s'"
  shows "(main s' = Exited \<longrightarrow> subseq (early s @ [e]) (con s'))
    \<and> (headed_for_ui s \<le> uiChanCap \<and> (\<forall>l\<in>set ls'. \<not> external l) \<longrightarrow>
           length ls' \<le> weight s \<and> (main s' = Exited \<or> (\<exists>l s''. step s' l s'' \<and> \<not> external l)))"
proof (intro conjI impI)
  have r: "reporting e (early s) s" by (rule reachable_reporting [OF assms(1,2)])
  have "reporting e (early s) s'" using runs_invariant [of step s ls' s' "reporting e (early s)"] assms(3) r reporting_step by blast
  then show "subseq (early s @ [e]) (con s')" if "main s' = Exited" using that by (auto simp: reporting_def)
  assume h: "headed_for_ui s \<le> uiChanCap \<and> (\<forall>l\<in>set ls'. \<not> external l)"
  then have f: "failed e (early s) s" using r reachable_staged [OF assms(1)] by (simp add: failed_def staged_def)
  show "length ls' \<le> weight s" using logging.bounded [OF assms(3) f] h by simp
  show "main s' = Exited \<or> (\<exists>l s''. step s' l s'' \<and> \<not> external l)" using logging.not_stuck [OF assms(3) f] h by (auto simp: settled_def)
qed

text \<open>A start with \<open>n\<close> early messages, and the interface begun.\<close>

definition begun :: "nat \<Rightarrow> items \<Rightarrow> logging" where
  "begun n x = (init 1)\<lparr>early := replicate n x, target := UiLogger, main := Running, writer := Waiting\<rparr>"

definition begin_labels :: "nat \<Rightarrow> items \<Rightarrow> label list" where
  "begin_labels n x = concat (replicate n [Entered 0 x, Delivered 0 x]) @ [Internal]"

lemma early_messages: "run (init 1) (concat (replicate n [Entered 0 x, Delivered 0 x])) ((init 1)\<lparr>early := replicate n x\<rparr>)"
proof (induction n)
  case (Suc n)
  let ?s = "(init 1)\<lparr>early := replicate n x\<rparr>"
  have "step ?s (Entered 0 x) (?s\<lparr>loggers := [Holding x]\<rparr>)" using step.enter [of 0 ?s x] by (simp add: init_def)
  moreover have "step (?s\<lparr>loggers := [Holding x]\<rparr>) (Delivered 0 x) ((init 1)\<lparr>early := replicate (Suc n) x\<rparr>)"
    using step.log [of 0 "?s\<lparr>loggers := [Holding x]\<rparr>" x]
    by (simp add: init_def deliver_def buffer_locked_def replicate_append_same)
  ultimately have "run ?s [Entered 0 x, Delivered 0 x] ((init 1)\<lparr>early := replicate (Suc n) x\<rparr>)" by (auto simp: runs_Cons_iff)
  with Suc have "run (init 1) (concat (replicate n [Entered 0 x, Delivered 0 x]) @ [Entered 0 x, Delivered 0 x]) ((init 1)\<lparr>early := replicate (Suc n) x\<rparr>)"
    by (auto simp: runs_append_iff)
  moreover have "concat (replicate n ys) @ ys = concat (replicate (Suc n) ys)" for ys :: "label list"
    by (induction n) simp_all
  ultimately show ?case by metis
qed (simp add: init_def)

lemma begun_reachable: "run (init 1) (begin_labels n x) (begun n x)"
proof -
  have "step ((init 1)\<lparr>early := replicate n x\<rparr>) Internal (begun n x)"
    using step.set_ui [of "(init 1)\<lparr>early := replicate n x\<rparr>"] by (simp add: begun_def init_def read_locked_def)
  with early_messages show ?thesis unfolding begin_labels_def runs_snoc_iff by blast
qed

lemma begun_sends:
  "k \<le> n \<Longrightarrow> k \<le> uiChanCap \<Longrightarrow>
     run (begun n x) (replicate (Suc k) Internal) ((begun n x)\<lparr>chan := replicate k (Sprintln x), writer := Sending k\<rparr>)"
proof (induction k)
  case 0
  show ?case using step.write_lock [of "begun n x"] by (simp add: begun_def init_def buffer_locked_def)
next
  case (Suc k)
  let ?s = "(begun n x)\<lparr>chan := replicate k (Sprintln x), writer := Sending k\<rparr>"
  have "step ?s Internal ((begun n x)\<lparr>chan := replicate (Suc k) (Sprintln x), writer := Sending (Suc k)\<rparr>)"
    using step.write_one [of ?s k] Suc.prems by (simp add: begun_def init_def replicate_append_same)
  moreover have "run (begun n x) (replicate (Suc k) Internal) ?s" using Suc by simp
  ultimately have "run (begun n x) (replicate (Suc k) Internal @ [Internal]) ((begun n x)\<lparr>chan := replicate (Suc k) (Sprintln x), writer := Sending (Suc k)\<rparr>)"
    unfolding runs_snoc_iff by blast
  then show ?case by (simp add: replicate_append_same)
qed

definition sample_failure :: logging where
  "sample_failure = (begun 1 [''early''])\<lparr>main := Failing [''no terminal'']\<rparr>"

definition sample_reported :: logging where
  "sample_reported = (begun 1 [''early''])\<lparr>target := ConsoleLogger, con := [[''early''], [''no terminal'']], main := Exited\<rparr>"

lemma sample_failure_reachable: "run (init 1) (begin_labels 1 [''early''] @ [RunFailed [''no terminal'']]) sample_failure"
  using begun_reachable [of 1 "[''early'']"] step.run_fails [of "begun 1 [''early'']" "[''no terminal'']"]
  unfolding runs_snoc_iff sample_failure_def by (auto simp: begun_def init_def)

lemma sample_failure_run: "run sample_failure (replicate 5 Internal) sample_reported"
proof -
  let ?c = "\<lambda>ms p. (begun 1 [''early''])\<lparr>target := ConsoleLogger, con := ms, main := p\<rparr>"
  have s1: "step sample_failure Internal (?c [] (Locking [''no terminal'']))"
    using step.set_console [of sample_failure] by (simp add: sample_failure_def begun_def init_def read_locked_def)
  have s2: "step (?c [] (Locking [''no terminal''])) Internal (?c [] (Draining 0 [''no terminal'']))"
    using step.drain_lock [of "?c [] (Locking [''no terminal''])"] by (simp add: begun_def init_def buffer_locked_def)
  have s3: "step (?c [] (Draining 0 [''no terminal''])) Internal (?c [[''early'']] (Draining 1 [''no terminal'']))"
    using step.drain_one [of "?c [] (Draining 0 [''no terminal''])"] by (simp add: begun_def init_def)
  have s4: "step (?c [[''early'']] (Draining 1 [''no terminal''])) Internal (?c [[''early'']] (Telling [''no terminal'']))"
    using step.drain_done [of "?c [[''early'']] (Draining 1 [''no terminal''])"] by (simp add: begun_def init_def)
  have s5: "step (?c [[''early'']] (Telling [''no terminal''])) Internal sample_reported"
    using step.tell [of "?c [[''early'']] (Telling [''no terminal''])"] by (simp add: begun_def init_def sample_reported_def)
  have "run sample_failure [Internal, Internal, Internal, Internal, Internal] sample_reported"
    unfolding runs_Cons_iff using s1 s2 s3 s4 s5 runs_nil by blast
  then show ?thesis by (simp add: numeral_eq_Suc)
qed

theorem failure_reported_witness:
  "subseq [[''early''], [''no terminal'']] (con sample_reported) \<and> length (replicate 5 Internal) \<le> weight sample_failure"
  using failure_reported [OF sample_failure_reachable _ sample_failure_run, of "[''no terminal'']"]
  by (simp add: sample_failure_def sample_reported_def begun_def init_def headed_for_ui_def underway_def uiChanCap_def)

text \<open>
  C40.  With its channel full and somebody still writing to it (\<open>jammed\<close>), a failure of the interface is never reported: the goroutine that writes the early messages blocks on the full channel and keeps the
  buffer's mutex, for which \<open>main\<close> waits, or a call through the proxy blocks and keeps the read lock, for which \<open>SetLogger\<close> waits.  Nothing takes messages from the channel any
  more, so \<open>main\<close> stays where it is and the error is not told, however the run goes on.
\<close>

theorem failed_ui_hangs:
  assumes "run (init m) ls s" and "jammed s" and "run s ls' s'"
  shows "\<exists>e. main s' = Failing e \<or> main s' = Locking e"
proof -
  have "jammed s'" using runs_invariant [of step s ls' s' jammed] assms(2,3) jammed_step by blast
  then show ?thesis by (auto simp: jammed_def split: main_pc.splits)
qed

definition sample_jam :: logging where
  "sample_jam = (begun 129 [''early''])\<lparr>chan := replicate 128 (Sprintln [''early'']), writer := Sending 128, main := Failing [''no terminal'']\<rparr>"

lemma sample_jam_reachable: "run (init 1) ((begin_labels 129 [''early''] @ replicate 129 Internal) @ [RunFailed [''no terminal'']]) sample_jam"
proof -
  let ?s = "(begun 129 [''early''])\<lparr>chan := replicate 128 (Sprintln [''early'']), writer := Sending 128\<rparr>"
  have "run (begun 129 [''early'']) (replicate (Suc 128) Internal) ?s" by (rule begun_sends) (simp_all add: uiChanCap_def)
  then have "run (init 1) (begin_labels 129 [''early''] @ replicate 129 Internal) ?s" using begun_reachable unfolding runs_append_iff by fastforce
  moreover have "step ?s (RunFailed [''no terminal'']) sample_jam"
    using step.run_fails [of ?s] by (simp add: sample_jam_def begun_def init_def)
  ultimately show ?thesis unfolding runs_snoc_iff by blast
qed

theorem failed_ui_hangs_witness:
  "jammed sample_jam \<and> \<not> (\<exists>ls s. run sample_jam ls s \<and> main s = Exited)"
proof -
  have "jammed sample_jam" by (simp add: jammed_def sample_jam_def uiChanCap_def begun_def)
  with failed_ui_hangs [OF sample_jam_reachable] show ?thesis by fastforce
qed

end
